(* ===== verification/Prelude.thy ===== *)
theory Prelude
  imports Main "HOL-Library.Word"
begin

unbundle bit_operations_syntax

text \<open>
  The types, the byte memory and the proof automation that the components share.

  All programs of the repository are 32-bit C programs. A C integer keeps its width
  (\<open>u8\<close>, \<open>u16\<close>, \<open>u32\<close>), memory is a function from byte offsets to bytes, and a 32-bit
  load or store reads or writes four bytes in little-endian order, as the i386 target
  does. The collection \<open>mem_simps\<close> holds the read-over-write laws of that memory; the
  collection \<open>const_defs\<close> holds the defining equations of the header files' constants.
\<close>

type_synonym u8 = "8 word"
type_synonym u16 = "16 word"
type_synonym u32 = "32 word"
type_synonym mem = "nat \<Rightarrow> u8"

named_theorems mem_simps
named_theorems const_defs

text \<open>A string literal of the source as the bytes it denotes.\<close>

definition ascii :: "string \<Rightarrow> u8 list" where
  "ascii s = map (\<lambda>c. of_nat (of_char c)) s"

section \<open>Errors\<close>

text \<open>The error numbers of the C library and the Linux kernel that the sources return.\<close>

datatype errno = EPERM | ENOENT | EIO | ENOMEM | EFAULT | EBUSY | EEXIST | EINVAL
  | ENOTTY | ENOSPC | EDEADLK | ENAMETOOLONG | ERESTARTSYS

section \<open>Byte memory\<close>

definition load32 :: "mem \<Rightarrow> nat \<Rightarrow> u32" where
  "load32 m a = ucast (m a) OR push_bit 8 (ucast (m (a + 1)))
     OR push_bit 16 (ucast (m (a + 2))) OR push_bit 24 (ucast (m (a + 3)))"

definition store32 :: "mem \<Rightarrow> nat \<Rightarrow> u32 \<Rightarrow> mem" where
  "store32 m a v = m(a := ucast v, a + 1 := ucast (drop_bit 8 v),
     a + 2 := ucast (drop_bit 16 v), a + 3 := ucast (drop_bit 24 v))"

text \<open>\<open>fill m a n c\<close> is \<open>memset\<close>: \<open>n\<close> bytes from \<open>a\<close> on become \<open>c\<close>.\<close>

definition fill :: "mem \<Rightarrow> nat \<Rightarrow> nat \<Rightarrow> u8 \<Rightarrow> mem" where
  "fill m a n c = (\<lambda>x. if a \<le> x \<and> x < a + n then c else m x)"

text \<open>\<open>write_bytes m a bs\<close> stores the bytes \<open>bs\<close> from \<open>a\<close> on; \<open>read_bytes\<close> reads \<open>n\<close> of them.\<close>

definition write_bytes :: "mem \<Rightarrow> nat \<Rightarrow> u8 list \<Rightarrow> mem" where
  "write_bytes m a bs = (\<lambda>x. if a \<le> x \<and> x < a + length bs then bs ! (x - a) else m x)"

definition read_bytes :: "mem \<Rightarrow> nat \<Rightarrow> nat \<Rightarrow> u8 list" where
  "read_bytes m a n = map (\<lambda>i. m (a + i)) [0..<n]"

lemma load32_store32_same [mem_simps]: "load32 (store32 m a v) a = v"
proof (rule bit_word_eqI)
  fix n assume "n < LENGTH(32)"
  then show "bit (load32 (store32 m a v) a) n = bit v n"
    unfolding load32_def store32_def
    by (cases "8 \<le> n"; cases "16 \<le> n"; cases "24 \<le> n") (auto simp: bit_simps not_less)
qed

lemma load32_store32_other [mem_simps]:
  "a + 4 \<le> b \<or> b + 4 \<le> a \<Longrightarrow> load32 (store32 m a v) b = load32 m b"
  unfolding load32_def store32_def by auto

lemma store32_apply_other [mem_simps]:
  "x < a \<or> a + 4 \<le> x \<Longrightarrow> store32 m a v x = m x"
  unfolding store32_def by auto

lemma store32_store32_same [mem_simps]: "store32 (store32 m a v) a w = store32 m a w"
  unfolding store32_def by (auto simp: fun_eq_iff)

lemma store32_load32_id [mem_simps]: "store32 m a (load32 m a) = m"
proof
  fix x
  have "ucast (load32 m a) = m a" "ucast (drop_bit 8 (load32 m a)) = m (a + 1)"
    "ucast (drop_bit 16 (load32 m a)) = m (a + 2)" "ucast (drop_bit 24 (load32 m a)) = m (a + 3)"
    unfolding load32_def by (rule bit_word_eqI, auto simp: bit_simps dest: bit_imp_le_length)+
  then show "store32 m a (load32 m a) x = m x"
    unfolding store32_def by auto
qed

lemma word_slots_apart:
  "(p :: nat) \<noteq> q \<Longrightarrow> v + 4 * p + 4 \<le> v + 4 * q \<or> v + 4 * q + 4 \<le> v + 4 * p"
  by arith

lemma load32_cong:
  "(\<And>x. a \<le> x \<Longrightarrow> x < a + 4 \<Longrightarrow> m x = m' x) \<Longrightarrow> load32 m a = load32 m' a"
  unfolding load32_def by simp

lemma fill_apply_in [mem_simps]: "a \<le> x \<Longrightarrow> x < a + n \<Longrightarrow> fill m a n c x = c"
  by (simp add: fill_def)

lemma fill_apply_out [mem_simps]: "x < a \<or> a + n \<le> x \<Longrightarrow> fill m a n c x = m x"
  by (auto simp: fill_def)

lemma load32_fill_other [mem_simps]:
  "a + n \<le> b \<or> b + 4 \<le> a \<Longrightarrow> load32 (fill m a n c) b = load32 m b"
  by (rule load32_cong) (auto simp: fill_def)

lemma load32_fill_zero [mem_simps]:
  "a \<le> b \<Longrightarrow> b + 4 \<le> a + n \<Longrightarrow> load32 (fill m a n 0) b = 0"
  by (simp add: load32_def fill_def)

lemma load32_write_bytes_other [mem_simps]:
  "a + length bs \<le> b \<or> b + 4 \<le> a \<Longrightarrow> load32 (write_bytes m a bs) b = load32 m b"
  by (rule load32_cong) (auto simp: write_bytes_def)

lemma write_bytes_apply_out [mem_simps]:
  "x < a \<or> a + length bs \<le> x \<Longrightarrow> write_bytes m a bs x = m x"
  by (auto simp: write_bytes_def)

lemma write_bytes_Nil [mem_simps]: "write_bytes m a [] = m"
  by (auto simp: write_bytes_def fun_eq_iff)

lemma length_read_bytes [simp]: "length (read_bytes m a n) = n"
  by (simp add: read_bytes_def)

lemma read_bytes_write_bytes_same [mem_simps]:
  "n = length bs \<Longrightarrow> read_bytes (write_bytes m a bs) a n = bs"
  by (auto simp: read_bytes_def write_bytes_def intro: nth_equalityI)

lemma read_bytes_cong:
  "(\<And>x. a \<le> x \<Longrightarrow> x < a + n \<Longrightarrow> m x = m' x) \<Longrightarrow> read_bytes m a n = read_bytes m' a n"
  by (simp add: read_bytes_def)

lemma read_bytes_add: "read_bytes m a (n + k) = read_bytes m a n @ read_bytes m (a + n) k"
  by (rule nth_equalityI) (auto simp: read_bytes_def nth_append add.assoc)

section \<open>Unsigned 32-bit arithmetic\<close>

lemma unat_u32_less [simp]: "unat (x :: u32) < 4294967296"
  using unsigned_less [of x, where 'a = nat] by simp

lemma unat_plus_u32: "unat (a + b :: u32) = (unat a + unat b) mod 4294967296"
  by (simp add: unat_word_ariths)

lemma unat_mult_u32: "unat (a * b :: u32) = (unat a * unat b) mod 4294967296"
  by (simp add: unat_word_ariths)

lemma unat_minus_u32: "b \<le> a \<Longrightarrow> unat (a - b :: u32) = unat a - unat b"
  by (simp add: unat_sub)

lemma unat_plus_one_u32: "i < (n :: u32) \<Longrightarrow> unat (i + 1) = unat i + 1"
  using unat_u32_less [of n] by (simp add: word_less_nat_alt unat_plus_u32 del: unat_u32_less)

lemma plus_one_le_iff_u32: "i < (n :: u32) \<Longrightarrow> i + 1 \<le> c \<longleftrightarrow> i < c"
  by (auto simp: word_less_nat_alt word_le_nat_alt unat_plus_one_u32 [unfolded word_less_nat_alt])

lemma unat_eq_iff_u32: "(a :: u32) = b \<longleftrightarrow> unat a = unat b"
  by (simp add: word_unat_eq_iff)

lemma uint_sint_nonneg: "0 \<le> sint (x :: u32) \<Longrightarrow> uint x = sint x"
  using sint_lt [of x] by (simp add: uint_sint take_bit_eq_mod)

lemma uint_minus_sint: "uint (- (x :: u32)) = (- sint x) mod 2 ^ 32"
proof -
  have "uint (- x) = (- uint x) mod 2 ^ 32" by (simp add: uint_word_ariths)
  also have "uint x = sint x mod 2 ^ 32" by (simp add: uint_sint take_bit_eq_mod)
  finally show ?thesis by (simp add: mod_minus_eq)
qed

lemmas u32_nat_simps =
  word_less_nat_alt word_le_nat_alt unat_plus_u32 unat_mult_u32 unat_div unat_mod

end
