(* ===== verification/Ospfs_Disk.thy ===== *)
theory Ospfs_Disk
  imports Prelude
begin

text \<open>
  The on-disk format of OSPFS (\<^verbatim>\<open>Lab3/ospfs.h\<close>) and the helper functions at the
  start of \<^verbatim>\<open>Lab3/ospfsmod.c\<close>. The disk \<open>ospfs_data\<close> is the byte memory \<open>mem\<close>, indexed
  by the offset from its first byte; a pointer into the disk is such an offset. The C
  structs are records read off the memory (\<open>super\<close>, \<open>inode_at\<close>, \<open>symlink_at\<close>), and
  an assignment to a field is a 32-bit store, so that every alias the code can build
  (an inode read as a symlink inode, an index past the end of a block) is an alias of
  the model too.
\<close>

section \<open>Constants of ospfs.h\<close>

definition OSPFS_BLKSIZE_BITS :: nat where [simp, const_defs]: "OSPFS_BLKSIZE_BITS = 10"
definition OSPFS_BLKSIZE :: u32 where [const_defs]: "OSPFS_BLKSIZE = push_bit OSPFS_BLKSIZE_BITS 1"
definition OSPFS_BLKBITSIZE :: u32 where [const_defs]: "OSPFS_BLKBITSIZE = OSPFS_BLKSIZE * 8"
definition OSPFS_MAGIC :: u32 where [simp, const_defs]: "OSPFS_MAGIC = 0x013101AE"
definition OSPFS_FREEMAP_BLK :: u32 where [simp, const_defs]: "OSPFS_FREEMAP_BLK = 2"
definition OSPFS_INODESIZE :: u32 where [simp, const_defs]: "OSPFS_INODESIZE = 64"
definition OSPFS_BLKINODES :: u32 where [const_defs]: "OSPFS_BLKINODES = OSPFS_BLKSIZE div OSPFS_INODESIZE"
definition OSPFS_NDIRECT :: u32 where [simp, const_defs]: "OSPFS_NDIRECT = 10"
definition OSPFS_NINDIRECT :: u32 where [const_defs]: "OSPFS_NINDIRECT = OSPFS_BLKSIZE div 4"
definition OSPFS_MAXFILEBLKS :: u32 where [const_defs]:
  "OSPFS_MAXFILEBLKS = OSPFS_NDIRECT + OSPFS_NINDIRECT + OSPFS_NINDIRECT * OSPFS_NINDIRECT"
definition OSPFS_MAXFILESIZE :: u32 where [const_defs]:
  "OSPFS_MAXFILESIZE = OSPFS_MAXFILEBLKS * OSPFS_BLKSIZE"
definition OSPFS_FTYPE_REG :: u32 where [simp, const_defs]: "OSPFS_FTYPE_REG = 0"
definition OSPFS_FTYPE_DIR :: u32 where [simp, const_defs]: "OSPFS_FTYPE_DIR = 1"
definition OSPFS_FTYPE_SYMLINK :: u32 where [simp, const_defs]: "OSPFS_FTYPE_SYMLINK = 2"
definition OSPFS_ROOT_INO :: u32 where [simp, const_defs]: "OSPFS_ROOT_INO = 1"
definition OSPFS_MAXSYMLINKLEN :: nat where [simp, const_defs]: "OSPFS_MAXSYMLINKLEN = 64 - 13"
definition OSPFS_DIRENTRY_SIZE :: u32 where [simp, const_defs]: "OSPFS_DIRENTRY_SIZE = 128"
definition OSPFS_MAXNAMELEN :: nat where [simp, const_defs]: "OSPFS_MAXNAMELEN = 128 - 5"

lemma ospfs_const_values [simp]:
  "OSPFS_BLKSIZE = 1024" "OSPFS_BLKBITSIZE = 8192" "OSPFS_BLKINODES = 16"
  "OSPFS_NINDIRECT = 256" "OSPFS_MAXFILEBLKS = 65802" "OSPFS_MAXFILESIZE = 67381248"
  by (simp_all add: const_defs)

section \<open>The structs on disk\<close>

record ospfs_super_t =
  os_magic :: u32
  os_nblocks :: u32
  os_ninodes :: u32
  os_firstinob :: u32

record ospfs_inode_t =
  oi_size :: u32
  oi_ftype :: u32
  oi_nlink :: u32
  oi_mode :: u32
  oi_direct :: "u32 list"
  oi_indirect :: u32
  oi_indirect2 :: u32

record ospfs_symlink_inode_t =
  si_size :: u32
  si_ftype :: u32
  si_nlink :: u32
  si_symlink :: "u8 list"

record ospfs_direntry_t =
  od_ino :: u32
  od_name :: "u8 list"

text \<open>The global \<open>ospfs_super\<close> points at byte \<open>OSPFS_BLKSIZE\<close> of the disk.\<close>

definition super :: "mem \<Rightarrow> ospfs_super_t" where
  "super m = \<lparr>os_magic = load32 m 1024, os_nblocks = load32 m 1028,
     os_ninodes = load32 m 1032, os_firstinob = load32 m 1036\<rparr>"

definition inode_at :: "mem \<Rightarrow> nat \<Rightarrow> ospfs_inode_t" where
  "inode_at m oi = \<lparr>oi_size = load32 m oi, oi_ftype = load32 m (oi + 4),
     oi_nlink = load32 m (oi + 8), oi_mode = load32 m (oi + 12),
     oi_direct = map (\<lambda>i. load32 m (oi + 16 + 4 * i)) [0..<10],
     oi_indirect = load32 m (oi + 56), oi_indirect2 = load32 m (oi + 60)\<rparr>"

definition symlink_at :: "mem \<Rightarrow> nat \<Rightarrow> ospfs_symlink_inode_t" where
  "symlink_at m oi = \<lparr>si_size = load32 m oi, si_ftype = load32 m (oi + 4),
     si_nlink = load32 m (oi + 8), si_symlink = read_bytes m (oi + 12) 52\<rparr>"

definition direntry_at :: "mem \<Rightarrow> nat \<Rightarrow> ospfs_direntry_t" where
  "direntry_at m od = \<lparr>od_ino = load32 m od, od_name = read_bytes m (od + 4) 124\<rparr>"

definition set_oi_size :: "mem \<Rightarrow> nat \<Rightarrow> u32 \<Rightarrow> mem" where
  "set_oi_size m oi v = store32 m oi v"

definition set_oi_ftype :: "mem \<Rightarrow> nat \<Rightarrow> u32 \<Rightarrow> mem" where
  "set_oi_ftype m oi v = store32 m (oi + 4) v"

definition set_oi_nlink :: "mem \<Rightarrow> nat \<Rightarrow> u32 \<Rightarrow> mem" where
  "set_oi_nlink m oi v = store32 m (oi + 8) v"

definition set_oi_mode :: "mem \<Rightarrow> nat \<Rightarrow> u32 \<Rightarrow> mem" where
  "set_oi_mode m oi v = store32 m (oi + 12) v"

definition set_oi_direct :: "mem \<Rightarrow> nat \<Rightarrow> nat \<Rightarrow> u32 \<Rightarrow> mem" where
  "set_oi_direct m oi i v = store32 m (oi + 16 + 4 * i) v"

definition set_oi_indirect :: "mem \<Rightarrow> nat \<Rightarrow> u32 \<Rightarrow> mem" where
  "set_oi_indirect m oi v = store32 m (oi + 56) v"

definition set_oi_indirect2 :: "mem \<Rightarrow> nat \<Rightarrow> u32 \<Rightarrow> mem" where
  "set_oi_indirect2 m oi v = store32 m (oi + 60) v"

lemmas set_oi_defs = set_oi_size_def set_oi_ftype_def set_oi_nlink_def set_oi_mode_def
  set_oi_direct_def set_oi_indirect_def set_oi_indirect2_def

lemma super_fields:
  "os_magic (super m) = load32 m 1024" "os_nblocks (super m) = load32 m 1028"
  "os_ninodes (super m) = load32 m 1032" "os_firstinob (super m) = load32 m 1036"
  by (simp_all add: super_def)

lemma inode_at_fields:
  "oi_size (inode_at m oi) = load32 m oi" "oi_ftype (inode_at m oi) = load32 m (oi + 4)"
  "oi_nlink (inode_at m oi) = load32 m (oi + 8)" "oi_mode (inode_at m oi) = load32 m (oi + 12)"
  "i < 10 \<Longrightarrow> oi_direct (inode_at m oi) ! i = load32 m (oi + 16 + 4 * i)"
  "oi_indirect (inode_at m oi) = load32 m (oi + 56)"
  "oi_indirect2 (inode_at m oi) = load32 m (oi + 60)"
  by (simp_all add: inode_at_def)

lemma symlink_at_fields:
  "si_size (symlink_at m oi) = load32 m oi" "si_ftype (symlink_at m oi) = load32 m (oi + 4)"
  "si_nlink (symlink_at m oi) = load32 m (oi + 8)"
  "si_symlink (symlink_at m oi) = read_bytes m (oi + 12) 52"
  by (simp_all add: symlink_at_def)

lemma direntry_at_fields:
  "od_ino (direntry_at m od) = load32 m od"
  "od_name (direntry_at m od) = read_bytes m (od + 4) 124"
  by (simp_all add: direntry_at_def)

text \<open>Two memories that agree on an inode's 64 bytes hold the same inode.\<close>

lemma inode_at_cong:
  "(\<And>x. oi \<le> x \<Longrightarrow> x < oi + 64 \<Longrightarrow> m x = m' x) \<Longrightarrow> inode_at m oi = inode_at m' oi"
  unfolding inode_at_def by (auto intro!: load32_cong)

text \<open>An assignment to a field is the record update of that field.\<close>

lemma map_upt_store32:
  assumes "i < 10"
  shows "map (\<lambda>j. load32 (store32 m (a + 4 * i) v) (a + 4 * j)) [0..<10]
     = (map (\<lambda>j. load32 m (a + 4 * j)) [0..<10])[i := v]"
proof (rule nth_equalityI)
  fix j assume "j < length (map (\<lambda>j. load32 (store32 m (a + 4 * i) v) (a + 4 * j)) [0..<10])"
  then show "map (\<lambda>j. load32 (store32 m (a + 4 * i) v) (a + 4 * j)) [0..<10] ! j
    = (map (\<lambda>j. load32 m (a + 4 * j)) [0..<10])[i := v] ! j"
    using assms word_slots_apart [of i j a]
    by (cases "i = j") (auto simp: mem_simps nth_list_update)
qed simp

lemma inode_at_set [mem_simps]:
  "inode_at (set_oi_size m oi v) oi = (inode_at m oi)\<lparr>oi_size := v\<rparr>"
  "inode_at (set_oi_ftype m oi v) oi = (inode_at m oi)\<lparr>oi_ftype := v\<rparr>"
  "inode_at (set_oi_nlink m oi v) oi = (inode_at m oi)\<lparr>oi_nlink := v\<rparr>"
  "inode_at (set_oi_mode m oi v) oi = (inode_at m oi)\<lparr>oi_mode := v\<rparr>"
  "i < 10 \<Longrightarrow> inode_at (set_oi_direct m oi i v) oi
     = (inode_at m oi)\<lparr>oi_direct := (oi_direct (inode_at m oi))[i := v]\<rparr>"
  "inode_at (set_oi_indirect m oi v) oi = (inode_at m oi)\<lparr>oi_indirect := v\<rparr>"
  "inode_at (set_oi_indirect2 m oi v) oi = (inode_at m oi)\<lparr>oi_indirect2 := v\<rparr>"
  using map_upt_store32 [of i m "oi + 16" v]
  by (simp_all add: inode_at_def set_oi_defs mem_simps add.assoc)

lemma inode_at_store32_other [mem_simps]:
  "a + 4 \<le> oi \<or> oi + 64 \<le> a \<Longrightarrow> inode_at (store32 m a v) oi = inode_at m oi"
  by (rule inode_at_cong) (auto simp: mem_simps)

lemma inode_at_fill_other [mem_simps]:
  "a + n \<le> oi \<or> oi + 64 \<le> a \<Longrightarrow> inode_at (fill m a n c) oi = inode_at m oi"
  by (rule inode_at_cong) (auto simp: mem_simps)

lemma inode_at_write_bytes_other [mem_simps]:
  "a + length bs \<le> oi \<or> oi + 64 \<le> a \<Longrightarrow> inode_at (write_bytes m a bs) oi = inode_at m oi"
  by (rule inode_at_cong) (auto simp: mem_simps)

lemma length_oi_direct [simp]: "length (oi_direct (inode_at m oi)) = 10"
  by (simp add: inode_at_def)

section \<open>Bitvector operations\<close>

text \<open>
  The bit index is a C \<open>int\<close>; every caller passes a block number below \<open>os_nblocks\<close>, which
  the 32-bit address space keeps below \<open>2 ^ 22\<close>, so the unsigned index is the same number.
\<close>

definition bitvector_set :: "mem \<Rightarrow> nat \<Rightarrow> u32 \<Rightarrow> mem" where
  "bitvector_set m vector i = (let w = vector + 4 * unat (i div 32)
     in store32 m w (load32 m w OR push_bit (unat (i mod 32)) 1))"

definition bitvector_clear :: "mem \<Rightarrow> nat \<Rightarrow> u32 \<Rightarrow> mem" where
  "bitvector_clear m vector i = (let w = vector + 4 * unat (i div 32)
     in store32 m w (load32 m w AND NOT (push_bit (unat (i mod 32)) 1)))"

definition bitvector_test :: "mem \<Rightarrow> nat \<Rightarrow> u32 \<Rightarrow> bool" where
  "bitvector_test m vector i =
     (load32 m (vector + 4 * unat (i div 32)) AND push_bit (unat (i mod 32)) 1 \<noteq> 0)"

text \<open>A test reads one bit of one word.\<close>

lemma unat_mod_32: "unat (i mod 32 :: u32) < 32"
  by (simp add: unat_mod)

lemma and_push_bit_one_eq_0: "(w :: u32) AND push_bit k 1 \<noteq> 0 \<longleftrightarrow> bit w k"
proof
  show "bit w k" if "w AND push_bit k 1 \<noteq> 0"
  proof (rule ccontr)
    assume "\<not> bit w k"
    then have "w AND push_bit k 1 = 0"
      by (intro bit_word_eqI) (auto simp: bit_simps)
    with that show False by simp
  qed
next
  assume "bit w k"
  then have "bit (w AND push_bit k 1) k"
    using bit_imp_le_length [of w k] by (auto simp: bit_simps)
  then show "w AND push_bit k 1 \<noteq> 0" by force
qed

lemma bitvector_test_bit:
  "bitvector_test m v i \<longleftrightarrow> bit (load32 m (v + 4 * unat (i div 32))) (unat (i mod 32))"
  unfolding bitvector_test_def by (rule and_push_bit_one_eq_0)

lemma index_eq_iff_u32:
  "(i :: u32) = j \<longleftrightarrow> unat (i div 32) = unat (j div 32) \<and> unat (i mod 32) = unat (j mod 32)"
  by (metis mod_div_decomp word_unat_eq_iff)

lemma bitvector_test_set [simp]:
  "bitvector_test (bitvector_set m v i) v j \<longleftrightarrow> j = i \<or> bitvector_test m v j"
proof (cases "unat (i div 32) = unat (j div 32)")
  case True
  then show ?thesis
    using unat_mod_32 [of i] unat_mod_32 [of j]
    by (auto simp: bitvector_test_bit bitvector_set_def Let_def mem_simps bit_simps index_eq_iff_u32)
next
  case False
  then show ?thesis
    using word_slots_apart [OF False, of v]
    by (auto simp: bitvector_test_bit bitvector_set_def Let_def mem_simps)
qed

lemma bitvector_test_clear [simp]:
  "bitvector_test (bitvector_clear m v i) v j \<longleftrightarrow> j \<noteq> i \<and> bitvector_test m v j"
proof (cases "unat (i div 32) = unat (j div 32)")
  case True
  then show ?thesis
    using unat_mod_32 [of i] unat_mod_32 [of j]
    by (auto simp: bitvector_test_bit bitvector_clear_def Let_def mem_simps bit_simps index_eq_iff_u32)
next
  case False
  then show ?thesis
    using word_slots_apart [OF False, of v]
    by (auto simp: bitvector_test_bit bitvector_clear_def Let_def mem_simps)
qed

lemma bitvector_set_clear_id:
  assumes "bitvector_test m v i"
  shows "bitvector_set (bitvector_clear m v i) v i = m"
proof -
  let ?w = "v + 4 * unat (i div 32)"
  let ?k = "unat (i mod 32)"
  have "(load32 m ?w AND NOT (push_bit ?k 1)) OR push_bit ?k 1 = load32 m ?w"
    using assms unat_mod_32 [of i]
    by (intro bit_word_eqI) (auto simp: bit_simps bitvector_test_bit)
  then show ?thesis
    by (simp add: bitvector_set_def bitvector_clear_def Let_def mem_simps)
qed

section \<open>Helper functions\<close>

definition ospfs_size2nblocks :: "u32 \<Rightarrow> u32" where
  "ospfs_size2nblocks sz = (sz + OSPFS_BLKSIZE - 1) div OSPFS_BLKSIZE"

definition ospfs_block :: "u32 \<Rightarrow> nat" where
  "ospfs_block blockno = unat (blockno * OSPFS_BLKSIZE)"

definition ospfs_inode :: "mem \<Rightarrow> u32 \<Rightarrow> nat option" where
  "ospfs_inode m ino =
     (if ino \<ge> os_ninodes (super m) then None
      else Some (ospfs_block (os_firstinob (super m)) + 64 * unat ino))"

definition ospfs_inode_blockno :: "mem \<Rightarrow> nat \<Rightarrow> u32 \<Rightarrow> u32" where
  "ospfs_inode_blockno m oi offset =
     (let blockno = offset div OSPFS_BLKSIZE in
      if offset \<ge> oi_size (inode_at m oi) \<or> oi_ftype (inode_at m oi) = OSPFS_FTYPE_SYMLINK then 0
      else if blockno \<ge> OSPFS_NDIRECT + OSPFS_NINDIRECT then
        let blockoff = blockno - (OSPFS_NDIRECT + OSPFS_NINDIRECT);
            indirect2_block = ospfs_block (oi_indirect2 (inode_at m oi));
            indirect_block = ospfs_block (load32 m (indirect2_block + 4 * unat (blockoff div OSPFS_NINDIRECT)))
        in load32 m (indirect_block + 4 * unat (blockoff mod OSPFS_NINDIRECT))
      else if blockno \<ge> OSPFS_NDIRECT then
        let indirect_block = ospfs_block (oi_indirect (inode_at m oi))
        in load32 m (indirect_block + 4 * unat (blockno - OSPFS_NDIRECT))
      else oi_direct (inode_at m oi) ! unat blockno)"

definition ospfs_inode_data :: "mem \<Rightarrow> nat \<Rightarrow> u32 \<Rightarrow> nat" where
  "ospfs_inode_data m oi offset =
     ospfs_block (ospfs_inode_blockno m oi offset) + unat (offset mod OSPFS_BLKSIZE)"

text \<open>Below the last 1023 byte sizes no addition wraps, and the block count is the ceiling.\<close>

lemma unat_size2nblocks:
  "unat sz < 4294966273 \<Longrightarrow> unat (ospfs_size2nblocks sz) = (unat sz + 1023) div 1024"
  by (simp add: ospfs_size2nblocks_def unat_div unat_plus_u32)

lemma unat_ospfs_block:
  "unat b < 4194304 \<Longrightarrow> ospfs_block b = 1024 * unat b"
  by (simp add: ospfs_block_def unat_mult_u32 mult.commute)

end
