(* ===== verification/Ospfs_Alloc.thy ===== *)
theory Ospfs_Alloc
  imports Ospfs_Disk
begin

text \<open>
  The free-block bitmap of OSPFS: \<open>allocate_block\<close> and \<open>free_block\<close> of
  \<^verbatim>\<open>Lab3/ospfsmod.c\<close>, the layout a formatted disk has (\<open>fs_layout\<close>, \<open>free_ok\<close>), and the
  contract \<open>block_allocator\<close> the rest of the file system relies on, with its interpretation.
\<close>

section \<open>The operations\<close>

function allocate_scan :: "mem \<Rightarrow> nat \<Rightarrow> u32 \<Rightarrow> u32 \<Rightarrow> u32 \<times> mem" where
  "allocate_scan m bitmap tot i =
     (if i < tot then
        if bitvector_test m bitmap i then (i, bitvector_clear m bitmap i)
        else allocate_scan m bitmap tot (i + 1)
      else (0, m))"
  by pat_completeness auto
termination
proof (relation "measure (\<lambda>(m, bitmap, tot, i). unat tot - unat i)", goal_cases)
  case (2 m bitmap tot i)
  then show ?case
    by (simp add: word_less_nat_alt unat_plus_one_u32 [unfolded word_less_nat_alt])
qed simp

declare allocate_scan.simps [simp del]

definition allocate_block :: "mem \<Rightarrow> u32 \<times> mem" where
  "allocate_block m =
     allocate_scan m (ospfs_block OSPFS_FREEMAP_BLK) (os_nblocks (super m)) 0"

definition free_block :: "mem \<Rightarrow> u32 \<Rightarrow> mem" where
  "free_block m blockno =
     (let bitmap = ospfs_block OSPFS_FREEMAP_BLK;
          firstBlk = os_firstinob (super m) + os_ninodes (super m) div OSPFS_BLKINODES
      in if blockno < os_nblocks (super m) \<and> blockno \<ge> firstBlk
         then bitvector_set m bitmap blockno else m)"

section \<open>The layout of a formatted disk\<close>

text \<open>The first block after the inode blocks, with the last inode block counted in full.\<close>

definition data_start :: "mem \<Rightarrow> nat" where
  "data_start m = unat (os_firstinob (super m)) + (unat (os_ninodes (super m)) + 15) div 16"

definition fs_layout :: "mem \<Rightarrow> bool" where
  "fs_layout m \<longleftrightarrow>
     unat (os_nblocks (super m)) \<le> 4194304 \<and>
     2 + (unat (os_nblocks (super m)) + 8191) div 8192 \<le> unat (os_firstinob (super m)) \<and>
     data_start m \<le> unat (os_nblocks (super m))"

definition free_set :: "mem \<Rightarrow> u32 set" where
  "free_set m = {b. b < os_nblocks (super m) \<and> bitvector_test m 2048 b}"

definition free_ok :: "mem \<Rightarrow> bool" where
  "free_ok m \<longleftrightarrow> (\<forall>b \<in> free_set m. data_start m \<le> unat b)"

definition fs_ok :: "mem \<Rightarrow> bool" where
  "fs_ok m \<longleftrightarrow> fs_layout m \<and> free_ok m"

lemma ospfs_block_2 [simp]: "ospfs_block 2 = 2048"
  by (simp add: ospfs_block_def)

lemma bitmap_word_bound:
  "fs_layout m \<Longrightarrow> b < os_nblocks (super m) \<Longrightarrow>
   2048 + 4 * unat (b div 32) + 4 \<le> 1024 * unat (os_firstinob (super m))"
proof -
  assume "fs_layout m" "b < os_nblocks (super m)"
  define k where "k = unat (os_firstinob (super m)) - 2"
  have "k + 2 = unat (os_firstinob (super m))"
    and "(unat (os_nblocks (super m)) + 8191) div 8192 \<le> k"
    using \<open>fs_layout m\<close> by (auto simp: fs_layout_def k_def)
  then have "unat b < 8192 * k"
    using \<open>b < _\<close> by (simp add: word_less_nat_alt)
  then have "unat b div 32 < 256 * k" by simp
  with \<open>k + 2 = _\<close> show ?thesis by (simp add: unat_div)
qed

lemma inode_bounds:
  assumes "fs_layout m" "ospfs_inode m ino = Some oi"
  shows "1024 * unat (os_firstinob (super m)) \<le> oi" "oi + 64 \<le> 1024 * data_start m"
proof -
  from assms have fi: "unat (os_firstinob (super m)) < 4194304 \<or> data_start m = unat (os_firstinob (super m))"
    and ino: "unat ino < unat (os_ninodes (super m))"
    by (auto simp: fs_layout_def data_start_def ospfs_inode_def word_le_nat_alt split: if_splits)
  from ino fi assms(1) have "unat (os_firstinob (super m)) < 4194304"
    by (auto simp: data_start_def fs_layout_def)
  then have "oi = 1024 * unat (os_firstinob (super m)) + 64 * unat ino"
    using assms(2) by (auto simp: ospfs_inode_def unat_ospfs_block split: if_splits)
  with ino show "1024 * unat (os_firstinob (super m)) \<le> oi" "oi + 64 \<le> 1024 * data_start m"
    by (auto simp: data_start_def)
qed

section \<open>What the operations do\<close>

lemma allocate_scan_cases:
  "(\<forall>c. i \<le> c \<and> c < tot \<longrightarrow> \<not> bitvector_test m v c) \<and> allocate_scan m v tot i = (0, m) \<or>
   (\<exists>b. i \<le> b \<and> b < tot \<and> bitvector_test m v b \<and> (\<forall>c. i \<le> c \<and> c < b \<longrightarrow> \<not> bitvector_test m v c) \<and>
     allocate_scan m v tot i = (b, bitvector_clear m v b))"
proof (induction m v tot i rule: allocate_scan.induct)
  case (1 m v tot i)
  show ?case
  proof (cases "i < tot \<and> \<not> bitvector_test m v i")
    case True
    then have step: "allocate_scan m v tot i = allocate_scan m v tot (i + 1)"
      by (simp add: allocate_scan.simps [of m v tot i])
    have next_le: "i + 1 \<le> c \<longleftrightarrow> i \<le> c \<and> i \<noteq> c" for c
      using True plus_one_le_iff_u32 [of i tot c] by auto
    show ?thesis
      using "1.IH" True unfolding step next_le by (metis order_le_less)
  next
    case False
    then show ?thesis
      by (auto simp: allocate_scan.simps [of m v tot i])
  qed
qed

lemma allocate_block_cases:
  obtains (full) "free_set m = {}" "allocate_block m = (0, m)"
  | (found) b where "b \<in> free_set m" "\<And>c. c \<in> free_set m \<Longrightarrow> b \<le> c"
      "allocate_block m = (b, bitvector_clear m 2048 b)"
  using allocate_scan_cases [of 0 "os_nblocks (super m)" m 2048]
  unfolding allocate_block_def free_set_def
  by (simp add: not_less [symmetric]) (metis not_less)

lemma allocate_block_eq:
  "free_set m = {} \<Longrightarrow> allocate_block m = (0, m)"
  "free_set m \<noteq> {} \<Longrightarrow> allocate_block m = (Min (free_set m), bitvector_clear m 2048 (Min (free_set m)))"
proof -
  show "allocate_block m = (0, m)" if "free_set m = {}"
    using that by (cases rule: allocate_block_cases [of m]) auto
  assume "free_set m \<noteq> {}"
  then obtain b where b: "b \<in> free_set m" "\<And>c. c \<in> free_set m \<Longrightarrow> b \<le> c"
      "allocate_block m = (b, bitvector_clear m 2048 b)"
    by (cases rule: allocate_block_cases [of m]) auto
  then have "Min (free_set m) = b" by (intro Min_eqI) auto
  with b(3) show "allocate_block m = (Min (free_set m), bitvector_clear m 2048 (Min (free_set m)))"
    by simp
qed

lemma super_bitvector [mem_simps]:
  "super (bitvector_clear m 2048 b) = super m" "super (bitvector_set m 2048 b) = super m"
  by (simp_all add: super_def bitvector_clear_def bitvector_set_def Let_def mem_simps)

lemma layout_cong: "super m' = super m \<Longrightarrow> data_start m' = data_start m \<and> fs_layout m' = fs_layout m"
  by (simp add: data_start_def fs_layout_def)

lemma free_set_clear: "free_set (bitvector_clear m 2048 b) = free_set m - {b}"
  by (auto simp: free_set_def mem_simps)

lemma free_set_set:
  "b < os_nblocks (super m) \<Longrightarrow> free_set (bitvector_set m 2048 b) = insert b (free_set m)"
  by (auto simp: free_set_def mem_simps)

lemma fs_ok_clear: "fs_ok m \<Longrightarrow> fs_ok (bitvector_clear m 2048 b)"
  using layout_cong [of "bitvector_clear m 2048 b" m]
  by (simp add: fs_ok_def free_ok_def free_set_clear mem_simps)

lemma free_set_bounds:
  assumes "fs_ok m" "b \<in> free_set m"
  shows "data_start m \<le> unat b" "b < os_nblocks (super m)" "2 \<le> unat b" "unat b < 4194304"
proof -
  show *: "data_start m \<le> unat b" "b < os_nblocks (super m)"
    using assms by (auto simp: fs_ok_def free_ok_def free_set_def)
  show "2 \<le> unat b" "unat b < 4194304"
    using * assms(1) by (auto simp: fs_ok_def fs_layout_def data_start_def word_less_nat_alt)
qed

text \<open>The defensive test of \<open>free_block\<close>: its first block is at most the first data block.\<close>

lemma first_blk:
  assumes "fs_layout m"
  shows "unat (os_firstinob (super m) + os_ninodes (super m) div OSPFS_BLKINODES)
     = unat (os_firstinob (super m)) + unat (os_ninodes (super m)) div 16"
proof -
  have "unat (os_firstinob (super m)) + (unat (os_ninodes (super m)) + 15) div 16 \<le> 4194304"
    using assms by (simp add: fs_layout_def data_start_def)
  then have "unat (os_firstinob (super m)) + unat (os_ninodes (super m)) div 16 < 4294967296"
    by (simp)
  then show ?thesis by (simp add: unat_plus_u32 unat_div)
qed

lemma free_block_data:
  assumes "fs_layout m" "data_start m \<le> unat b" "b < os_nblocks (super m)"
  shows "free_block m b = bitvector_set m 2048 b"
  using assms first_blk [OF assms(1)]
    div_le_mono [of "unat (os_ninodes (super m))" "unat (os_ninodes (super m)) + 15" 16]
  by (simp add: free_block_def Let_def word_le_nat_alt data_start_def)

lemma free_set_free_block:
  assumes "fs_layout m" "data_start m \<le> unat b" "b < os_nblocks (super m)"
  shows "free_set (free_block m b) = insert b (free_set m)"
  using assms by (simp add: free_block_data free_set_set)

section \<open>The allocator's contract\<close>

text \<open>
  What the block operations rely on: an allocation takes one free block and never block 0,
  the value that stands for a full disk, and freeing what an allocation returned undoes it.
\<close>

primrec alloc_n :: "('s \<Rightarrow> u32 \<times> 's) \<Rightarrow> nat \<Rightarrow> 's \<Rightarrow> u32 list \<times> 's" where
  "alloc_n alloc 0 s = ([], s)"
| "alloc_n alloc (Suc n) s =
     (case alloc s of (b, s1) \<Rightarrow> case alloc_n alloc n s1 of (bs, s2) \<Rightarrow> (b # bs, s2))"

locale block_allocator =
  fixes alloc :: "'s \<Rightarrow> u32 \<times> 's"
    and free :: "'s \<Rightarrow> u32 \<Rightarrow> 's"
    and frees :: "'s \<Rightarrow> u32 set"
    and inv :: "'s \<Rightarrow> bool"
  assumes alloc_full: "inv s \<Longrightarrow> frees s = {} \<Longrightarrow> alloc s = (0, s)"
    and alloc_found: "inv s \<Longrightarrow> frees s \<noteq> {} \<Longrightarrow> fst (alloc s) \<in> frees s \<and> fst (alloc s) \<noteq> 0"
    and frees_alloc: "inv s \<Longrightarrow> frees s \<noteq> {} \<Longrightarrow> frees (snd (alloc s)) = frees s - {fst (alloc s)}"
    and inv_alloc: "inv s \<Longrightarrow> inv (snd (alloc s))"
    and free_undoes: "inv s \<Longrightarrow> frees s \<noteq> {} \<Longrightarrow> free (snd (alloc s)) (fst (alloc s)) = s"
begin

lemma alloc_zero_iff: "inv s \<Longrightarrow> fst (alloc s) = 0 \<longleftrightarrow> frees s = {}"
  using alloc_full [of s] alloc_found [of s] by auto

lemma alloc_n_props:
  assumes "inv s" "n \<le> card (frees s)" "alloc_n alloc n s = (bs, s')"
  shows "length bs = n \<and> distinct bs \<and> set bs \<subseteq> frees s \<and> 0 \<notin> set bs \<and>
    frees s' = frees s - set bs \<and> inv s' \<and> foldl free s' (rev bs) = s"
  using assms
proof (induction n arbitrary: s bs)
  case 0
  then show ?case by simp
next
  case (Suc n)
  obtain b s1 where b: "alloc s = (b, s1)" by fastforce
  obtain bs1 where bs: "alloc_n alloc n s1 = (bs1, s')" "bs = b # bs1"
    using Suc.prems(3) b by (auto split: prod.splits)
  have ne: "frees s \<noteq> {}" using Suc.prems(2) by auto
  note step = alloc_found [OF Suc.prems(1) ne] frees_alloc [OF Suc.prems(1) ne]
    inv_alloc [OF Suc.prems(1)] free_undoes [OF Suc.prems(1) ne]
  have "n \<le> card (frees s1)" using Suc.prems(2) step b by (auto simp: card_Diff_singleton)
  then have "length bs1 = n \<and> distinct bs1 \<and> set bs1 \<subseteq> frees s1 \<and> 0 \<notin> set bs1 \<and>
    frees s' = frees s1 - set bs1 \<and> inv s' \<and> foldl free s' (rev bs1) = s1"
    using Suc.IH [of s1 bs1] bs step b by simp
  then show ?case using step b bs(2) by auto
qed

end

text \<open>Writes into the inode blocks or the data blocks change neither the superblock nor the bitmap.\<close>

abbreviation inode_lo :: "mem \<Rightarrow> nat" where
  "inode_lo m \<equiv> 1024 * unat (os_firstinob (super m))"

lemma inode_lo_ge: "fs_layout m \<Longrightarrow> 3072 \<le> inode_lo m"
proof -
  assume *: "fs_layout m"
  then have "1 \<le> unat (os_nblocks (super m))" by (simp add: fs_layout_def data_start_def)
  then have "1 \<le> (unat (os_nblocks (super m)) + 8191) div 8192" by simp
  with * have "3 \<le> unat (os_firstinob (super m))" by (simp add: fs_layout_def)
  then show ?thesis by simp
qed

lemma super_store32 [mem_simps]: "1040 \<le> a \<Longrightarrow> super (store32 m a v) = super m"
  by (simp add: super_def mem_simps)

lemma super_fill [mem_simps]: "1040 \<le> a \<Longrightarrow> super (fill m a n c) = super m"
  by (simp add: super_def mem_simps)

lemma super_write_bytes [mem_simps]: "1040 \<le> a \<Longrightarrow> super (write_bytes m a bs) = super m"
  by (simp add: super_def mem_simps)

text \<open>\<open>same_meta\<close>: the two disks have the same superblock and the same bitmap.\<close>

definition same_meta :: "mem \<Rightarrow> mem \<Rightarrow> bool" where
  "same_meta m m' \<longleftrightarrow> (\<forall>x. 1024 \<le> x \<and> x < inode_lo m \<longrightarrow> m' x = m x)"

lemma same_meta_super:
  assumes "fs_layout m" "same_meta m m'"
  shows "super m' = super m"
proof -
  have "load32 m' a = load32 m a" if "1024 \<le> a" "a \<le> 1036" for a
    using that assms inode_lo_ge [OF assms(1)]
    by (intro load32_cong) (auto simp: same_meta_def)
  then show ?thesis by (simp add: super_def)
qed

lemma same_meta_free_set:
  assumes "fs_layout m" "same_meta m m'"
  shows "free_set m' = free_set m"
proof -
  have "bitvector_test m' 2048 b = bitvector_test m 2048 b" if "b < os_nblocks (super m)" for b
  proof -
    have "load32 m' (2048 + 4 * unat (b div 32)) = load32 m (2048 + 4 * unat (b div 32))"
      using bitmap_word_bound [OF assms(1) that] assms(2)
      by (intro load32_cong) (auto simp: same_meta_def)
    then show ?thesis by (simp add: bitvector_test_bit)
  qed
  then show ?thesis
    by (auto simp: free_set_def same_meta_super [OF assms])
qed

lemma same_meta_fs_ok: "fs_ok m \<Longrightarrow> same_meta m m' \<Longrightarrow> fs_ok m'"
  using same_meta_super [of m m'] same_meta_free_set [of m m'] layout_cong [of m' m]
  by (simp add: fs_ok_def free_ok_def)

lemma same_meta_data_start: "fs_layout m \<Longrightarrow> same_meta m m' \<Longrightarrow> data_start m' = data_start m"
  using same_meta_super [of m m'] layout_cong [of m' m] by simp

lemma same_meta_store32: "inode_lo m \<le> a \<Longrightarrow> same_meta m (store32 m a v)"
  by (auto simp: same_meta_def mem_simps)

lemma same_meta_fill: "inode_lo m \<le> a \<Longrightarrow> same_meta m (fill m a n c)"
  by (auto simp: same_meta_def mem_simps)

lemma same_meta_write_bytes: "inode_lo m \<le> a \<Longrightarrow> same_meta m (write_bytes m a bs)"
  by (auto simp: same_meta_def mem_simps)

lemma same_meta_refl [simp]: "same_meta m m"
  by (simp add: same_meta_def)

lemma same_meta_trans:
  "fs_layout m \<Longrightarrow> same_meta m m1 \<Longrightarrow> same_meta m1 m2 \<Longrightarrow> same_meta m m2"
  using same_meta_super [of m m1] by (simp add: same_meta_def)

text \<open>The bitmap operations, seen from the blocks after the bitmap.\<close>

lemma bitvector_above [mem_simps]:
  assumes "fs_layout m" "b < os_nblocks (super m)" "inode_lo m \<le> x"
  shows "bitvector_clear m 2048 b x = m x" "bitvector_set m 2048 b x = m x"
  using bitmap_word_bound [OF assms(1,2)] assms(3)
  by (simp_all add: bitvector_clear_def bitvector_set_def Let_def mem_simps)

lemma load32_bitvector [mem_simps]:
  assumes "fs_layout m" "b < os_nblocks (super m)" "inode_lo m \<le> a"
  shows "load32 (bitvector_clear m 2048 b) a = load32 m a"
    "load32 (bitvector_set m 2048 b) a = load32 m a"
  using assms by (auto intro!: load32_cong simp: bitvector_above)

interpretation ospfs_alloc: block_allocator allocate_block free_block free_set fs_ok
proof
  fix m
  assume ok: "fs_ok m"
  show "fs_ok (snd (allocate_block m))"
    by (rule allocate_block_cases [of m]) (simp_all add: ok fs_ok_clear)
  show "allocate_block m = (0, m)" if "free_set m = {}"
    using that by (cases rule: allocate_block_cases [of m]) auto
  assume "free_set m \<noteq> {}"
  then obtain b where b: "b \<in> free_set m" "allocate_block m = (b, bitvector_clear m 2048 b)"
    by (cases rule: allocate_block_cases [of m]) auto
  note bounds = free_set_bounds [OF ok b(1)]
  show "fst (allocate_block m) \<in> free_set m \<and> fst (allocate_block m) \<noteq> 0"
    using b bounds by auto
  show "free_set (snd (allocate_block m)) = free_set m - {fst (allocate_block m)}"
    using b by (simp add: free_set_clear)
  show "free_block (snd (allocate_block m)) (fst (allocate_block m)) = m"
    using b bounds ok layout_cong [of "bitvector_clear m 2048 b" m]
    by (simp add: free_block_data mem_simps fs_ok_def bitvector_set_clear_id free_set_def)
qed

section \<open>A small formatted disk\<close>

text \<open>
  Eight blocks: boot sector, superblock, bitmap, one block of 16 inodes (0 reserved), the root
  directory's block (4) with one entry \<open>hi\<close> for inode 2, that file's block (5) holding
  \<open>abc\<close>, and the free blocks 6 and 7. The properties' witnesses run on it.
\<close>

definition demo_disk :: mem where
  "demo_disk = foldl (\<lambda>m (a, v). store32 m a v) (\<lambda>_. 0)
     [(1024, 0x013101AE), (1028, 8), (1032, 16), (1036, 3), (2048, 0xC0), (3080, 1),
      (3136, 1024), (3140, 1), (3144, 1), (3148, 0x1FF), (3152, 4),
      (3200, 3), (3208, 1), (3212, 0x1B6), (3216, 5),
      (4096, 2), (4100, 0x6968), (5120, 0x636261)]"

lemma load32_zero: "load32 (\<lambda>_. 0) a = 0"
  by (simp add: load32_def)

lemmas demo_simps = demo_disk_def mem_simps load32_zero

lemma super_demo [simp]: "super demo_disk = \<lparr>os_magic = OSPFS_MAGIC, os_nblocks = 8, os_ninodes = 16, os_firstinob = 3\<rparr>"
  by (simp add: super_def demo_simps)

lemma free_set_demo: "free_set demo_disk = {6, 7}"
proof -
  have "load32 demo_disk 2048 = 0xC0" by (simp add: demo_simps)
  moreover have "b \<in> {0, 1, 2, 3, 4, 5, 6, 7}" if "b < 8" for b :: u32
  proof -
    have "unat b < 8" using that by (simp add: word_less_nat_alt)
    then have "unat b \<in> {0, 1, 2, 3, 4, 5, 6, 7}" by auto
    then show ?thesis by (auto simp: unat_eq_iff_u32)
  qed
  ultimately show ?thesis
    by (force simp: free_set_def bitvector_test_def)
qed

lemma fs_ok_demo: "fs_ok demo_disk"
proof -
  have "data_start demo_disk = 4" by (simp add: data_start_def)
  then show ?thesis by (simp add: fs_ok_def fs_layout_def free_ok_def free_set_demo)
qed

lemma inode_demo:
  "ospfs_inode demo_disk 1 = Some 3136" "ospfs_inode demo_disk 2 = Some 3200"
  by (simp_all add: ospfs_inode_def ospfs_block_def word_le_nat_alt)

lemma inode_at_demo:
  "inode_at demo_disk 3136 = \<lparr>oi_size = 1024, oi_ftype = 1, oi_nlink = 1, oi_mode = 0x1FF,
     oi_direct = [4, 0, 0, 0, 0, 0, 0, 0, 0, 0], oi_indirect = 0, oi_indirect2 = 0\<rparr>"
  "inode_at demo_disk 3200 = \<lparr>oi_size = 3, oi_ftype = 0, oi_nlink = 1, oi_mode = 0x1B6,
     oi_direct = [5, 0, 0, 0, 0, 0, 0, 0, 0, 0], oi_indirect = 0, oi_indirect2 = 0\<rparr>"
  by (simp_all add: inode_at_def upt_rec demo_simps)

section \<open>Properties\<close>

text \<open>\<open>allocate_block\<close> takes the lowest-numbered free block and clears exactly its bit of
the bitmap; on a full disk it returns 0 and changes nothing.\<close>

theorem allocate_block_lowest:
  "if free_set m = {} then allocate_block m = (0, m)
   else allocate_block m = (Min (free_set m), bitvector_clear m 2048 (Min (free_set m))) \<and>
     free_set (snd (allocate_block m)) = free_set m - {Min (free_set m)}"
  by (auto simp: allocate_block_eq free_set_clear)

text \<open>C35: \<open>n\<close> allocations on a disk with \<open>n\<close> free blocks return \<open>n\<close> distinct nonzero free
blocks, take exactly these out of the bitmap, and freeing them in reverse order restores
every byte of the disk.\<close>

theorem allocate_free_restores:
  assumes "fs_ok m" "n \<le> card (free_set m)" "alloc_n allocate_block n m = (bs, m')"
  shows "length bs = n \<and> distinct bs \<and> set bs \<subseteq> free_set m \<and> 0 \<notin> set bs \<and>
    free_set m' = free_set m - set bs \<and> fs_ok m' \<and> foldl free_block m' (rev bs) = m"
  by (rule ospfs_alloc.alloc_n_props [OF assms])

lemma allocate_free_restores_witness:
  "let (bs, m') = alloc_n allocate_block 2 demo_disk in
   length bs = 2 \<and> distinct bs \<and> set bs \<subseteq> {6, 7} \<and> foldl free_block m' (rev bs) = demo_disk"
  using allocate_free_restores [of demo_disk 2 "fst (alloc_n allocate_block 2 demo_disk)"
      "snd (alloc_n allocate_block 2 demo_disk)"]
  by (simp add: fs_ok_demo free_set_demo split_beta del: alloc_n.simps)

end
