(* ===== verification/Ospfs_Blocks.thy ===== *)
theory Ospfs_Blocks
  imports Ospfs_Alloc
begin

text \<open>
  The block structure of a file (\<open>indir2_index\<close>, \<open>indir_index\<close>, \<open>direct_index\<close>) and the
  operations that change a file's size: \<open>add_block\<close>, \<open>remove_block\<close> and \<open>change_size\<close> of
  \<^verbatim>\<open>Lab3/ospfsmod.c\<close>. Each takes the disk and the inode's address and returns the
  return value (\<open>Inl\<close> an error number, \<open>Inr ()\<close> for 0) with the changed disk. The two
  loops of \<open>change_size\<close> are \<open>partial_function\<close>s: \<open>None\<close> is a loop that never ends.
\<close>

section \<open>Block indices\<close>

text \<open>
  The results are \<open>int32_t\<close>; the unsigned values converted to it are below \<open>2 ^ 24\<close>, so
  the conversion keeps them.
\<close>

definition indir2_index :: "u32 \<Rightarrow> int" where
  "indir2_index b = (if b < OSPFS_NDIRECT + OSPFS_NINDIRECT then -1 else 0)"

definition indir_index :: "u32 \<Rightarrow> int" where
  "indir_index b =
     (if b < OSPFS_NDIRECT then -1
      else if indir2_index b = 0
      then int (unat ((b - OSPFS_NDIRECT - OSPFS_NINDIRECT) div OSPFS_NINDIRECT))
      else 0)"

definition direct_index :: "u32 \<Rightarrow> int" where
  "direct_index b =
     (if indir_index b = -1 then int (unat b)
      else if indir_index b = 0 then int (unat (b - OSPFS_NDIRECT))
      else int (unat ((b - OSPFS_NDIRECT - OSPFS_NINDIRECT) mod OSPFS_NINDIRECT)))"

section \<open>add\_block\<close>

text \<open>The last lines of \<open>add_block\<close> and \<open>remove_block\<close>: the size changes by one block.\<close>

definition grow_size :: "mem \<Rightarrow> nat \<Rightarrow> (errno + unit) \<times> mem" where
  "grow_size m oi = (Inr (), set_oi_size m oi (oi_size (inode_at m oi) + OSPFS_BLKSIZE))"

definition shrink_size :: "mem \<Rightarrow> nat \<Rightarrow> (errno + unit) \<times> mem" where
  "shrink_size m oi = (Inr (), set_oi_size m oi (oi_size (inode_at m oi) - OSPFS_BLKSIZE))"

definition zero_block :: "mem \<Rightarrow> u32 \<Rightarrow> mem" where
  "zero_block m b = fill m (ospfs_block b) 1024 0"

text \<open>
  The doubly indirect branch. \<open>in2block0\<close> and \<open>in2block1\<close> are the blocks allocated so far
  (0 if none); \<open>allocated0\<close> and \<open>allocated1\<close> say whether the pointers of that name are set.
\<close>

definition add_block_indir2 :: "mem \<Rightarrow> nat \<Rightarrow> u32 \<Rightarrow> (errno + unit) \<times> mem" where
  "add_block_indir2 m oi n =
     (let offset0 = nat (direct_index n); offset1 = nat (indir_index n) in
      case (if oi_indirect2 (inode_at m oi) = 0 then
              case allocate_block m of (b, m1) \<Rightarrow>
                if b = 0 then (Inl ENOSPC, m1)
                else (Inr (b, True), zero_block (set_oi_indirect2 m1 oi b) b)
            else (Inr (0, False), m)) of
        (Inl e, m1) \<Rightarrow> (Inl e, m1)
      | (Inr (in2block0, allocated0), m1) \<Rightarrow>
         (case (if offset0 = 0 then
                  case allocate_block m1 of (b, m2) \<Rightarrow>
                    if b = 0 then (Inl ENOSPC, if allocated0 then free_block m2 in2block0 else m2)
                    else
                      let ptr2 = ospfs_block (oi_indirect2 (inode_at m2 oi));
                          m3 = zero_block (store32 m2 (ptr2 + 4 * offset1) b) b
                      in (Inr (b, True, allocated0), m3)
                else (Inr (0, allocated0, False), m1)) of
            (Inl e, m2) \<Rightarrow> (Inl e, m2)
          | (Inr (in2block1, allocated0, allocated1), m2) \<Rightarrow>
              (case allocate_block m2 of (in2block2, m3) \<Rightarrow>
                 if in2block2 = 0 then
                   (Inl ENOSPC,
                    if allocated1 then free_block (free_block m3 in2block0) in2block1
                    else if allocated0 then free_block m3 in2block0
                    else m3)
                 else
                   let ptr2 = ospfs_block (oi_indirect2 (inode_at m3 oi));
                       ptr1 = ospfs_block (load32 m3 (ptr2 + 4 * offset1));
                       m4 = zero_block (store32 m3 (ptr1 + 4 * offset0) in2block2) in2block2
                   in grow_size m4 oi)))"

definition add_block_indir :: "mem \<Rightarrow> nat \<Rightarrow> u32 \<Rightarrow> (errno + unit) \<times> mem" where
  "add_block_indir m oi n =
     (let offset = nat (direct_index n) in
      case (if oi_indirect (inode_at m oi) = 0 then
              case allocate_block m of (b, m1) \<Rightarrow>
                if b = 0 then (Inl ENOSPC, m1)
                else (Inr b, zero_block (set_oi_indirect m1 oi b) b)
            else (Inr 0, m)) of
        (Inl e, m1) \<Rightarrow> (Inl e, m1)
      | (Inr allocated0, m1) \<Rightarrow>
          let indBlk = ospfs_block (oi_indirect (inode_at m1 oi)) in
          (case allocate_block m1 of (block, m2) \<Rightarrow>
             if block = 0 \<and> allocated0 \<noteq> 0 then
               (Inl ENOSPC, set_oi_indirect (free_block m2 allocated0) oi 0)
             else grow_size (zero_block (store32 m2 (indBlk + 4 * offset) block) block) oi))"

definition add_block_direct :: "mem \<Rightarrow> nat \<Rightarrow> u32 \<Rightarrow> (errno + unit) \<times> mem" where
  "add_block_direct m oi n =
     (case allocate_block m of (block, m1) \<Rightarrow>
        if block = 0 then (Inl ENOSPC, m1)
        else grow_size (zero_block (set_oi_direct m1 oi (unat n) block) block) oi)"

definition add_block :: "mem \<Rightarrow> nat \<Rightarrow> (errno + unit) \<times> mem" where
  "add_block m oi =
     (let n = ospfs_size2nblocks (oi_size (inode_at m oi)) in
      if indir2_index n = 0 then add_block_indir2 m oi n
      else if indir_index n = 0 then add_block_indir m oi n
      else add_block_direct m oi n)"

section \<open>remove\_block\<close>

definition remove_block :: "mem \<Rightarrow> nat \<Rightarrow> (errno + unit) \<times> mem" where
  "remove_block m oi =
     (let n = ospfs_size2nblocks (oi_size (inode_at m oi));
          offset0 = direct_index (n - 1); offset1 = indir_index (n - 1) in
      if n = 0 then (Inr (), m)
      else if n \<le> OSPFS_NDIRECT then
        let b = oi_direct (inode_at m oi) ! nat offset0 in
        if b = 0 then (Inl EIO, m)
        else shrink_size (set_oi_direct (free_block m b) oi (nat offset0) 0) oi
      else if n > OSPFS_NDIRECT \<and> n \<le> OSPFS_NDIRECT + OSPFS_NINDIRECT then
        let blockN = ospfs_block (oi_indirect (inode_at m oi)) + 4 * nat offset0;
            m1 = fill (free_block m (load32 m blockN)) blockN 4 0;
            m2 = (if offset1 = 0
                  then set_oi_indirect (free_block m1 (oi_indirect (inode_at m1 oi))) oi 0
                  else m1)
        in shrink_size m2 oi
      else
        let indN = ospfs_block (oi_indirect2 (inode_at m oi)) + 4 * nat offset1;
            blockN = ospfs_block (load32 m indN) + 4 * nat offset0
        in if load32 m indN = 0 then (Inl EIO, m)
           else if load32 m blockN = 0 then (Inl EIO, m)
           else
             let m1 = fill (free_block m (load32 m blockN)) blockN 4 0;
                 m2 = (if offset0 = 0 then
                         let m3 = fill (free_block m1 (load32 m1 indN)) indN 4 0
                         in if offset1 = 0
                            then set_oi_indirect2 (free_block m3 (oi_indirect2 (inode_at m3 oi))) oi 0
                            else m3
                       else m1)
             in shrink_size m2 oi)"

section \<open>change\_size\<close>

text \<open>
  The growing loop returns its last result, the blocks it added (\<open>counter\<close>) and the disk;
  the shrinking loop is given the value \<open>r\<close> has before it.
\<close>

partial_function (option) grow_loop ::
  "mem \<Rightarrow> nat \<Rightarrow> u32 \<Rightarrow> nat \<Rightarrow> ((errno + unit) \<times> nat \<times> mem) option" where
  "grow_loop m oi new_size counter =
     (if ospfs_size2nblocks (oi_size (inode_at m oi)) < ospfs_size2nblocks new_size then
        case add_block m oi of
          (Inl e, m1) \<Rightarrow> Some (Inl e, counter, m1)
        | (Inr _, m1) \<Rightarrow> grow_loop m1 oi new_size (Suc counter)
      else Some (Inr (), counter, m))"

partial_function (option) shrink_loop ::
  "mem \<Rightarrow> nat \<Rightarrow> u32 \<Rightarrow> errno + unit \<Rightarrow> ((errno + unit) \<times> mem) option" where
  "shrink_loop m oi new_size r =
     (if ospfs_size2nblocks (oi_size (inode_at m oi)) > ospfs_size2nblocks new_size then
        case remove_block m oi of
          (Inl e, m1) \<Rightarrow> Some (Inl e, m1)
        | (Inr _, m1) \<Rightarrow> shrink_loop m1 oi new_size (Inr ())
      else Some (r, m))"

primrec remove_blocks :: "nat \<Rightarrow> mem \<Rightarrow> nat \<Rightarrow> mem" where
  "remove_blocks 0 m oi = m"
| "remove_blocks (Suc k) m oi = remove_blocks k (snd (remove_block m oi)) oi"

definition change_size :: "mem \<Rightarrow> nat \<Rightarrow> u32 \<Rightarrow> ((errno + unit) \<times> mem) option" where
  "change_size m oi new_size =
     (let old_size = oi_size (inode_at m oi) in
      case grow_loop m oi new_size 0 of
        None \<Rightarrow> None
      | Some (r, counter, m1) \<Rightarrow>
          let (new_size, m2) =
            (case r of Inl e \<Rightarrow> (old_size, remove_blocks counter m1 oi) | Inr _ \<Rightarrow> (new_size, m1))
          in case shrink_loop m2 oi new_size r of
               None \<Rightarrow> None
             | Some (r, m3) \<Rightarrow> Some (r, set_oi_size m3 oi new_size))"

section \<open>Addresses\<close>

definition inode_addr :: "mem \<Rightarrow> nat \<Rightarrow> bool" where
  "inode_addr m oi \<longleftrightarrow> inode_lo m \<le> oi \<and> oi + 64 \<le> 1024 * data_start m"

definition data_block :: "mem \<Rightarrow> u32 \<Rightarrow> bool" where
  "data_block m b \<longleftrightarrow> data_start m \<le> unat b \<and> b < os_nblocks (super m)"

lemma inode_addr_ospfs_inode:
  "fs_layout m \<Longrightarrow> ospfs_inode m ino = Some oi \<Longrightarrow> inode_addr m oi"
  using inode_bounds [of m ino oi] by (simp add: inode_addr_def)

lemma data_block_addr:
  assumes "fs_layout m" "data_block m b"
  shows "ospfs_block b = 1024 * unat b" "inode_lo m \<le> 1024 * unat b"
    "1024 * data_start m \<le> 1024 * unat b" "b < os_nblocks (super m)" "b \<noteq> 0" "2 \<le> unat b"
proof -
  have *: "data_start m \<le> unat b" "b < os_nblocks (super m)" "unat b < 4194304"
    "2 \<le> unat (os_firstinob (super m))"
    using assms by (auto simp: data_block_def fs_layout_def word_less_nat_alt)
  then show "ospfs_block b = 1024 * unat b" "inode_lo m \<le> 1024 * unat b"
    "1024 * data_start m \<le> 1024 * unat b" "b < os_nblocks (super m)" "2 \<le> unat b"
    by (simp_all add: unat_ospfs_block data_start_def)
  then show "b \<noteq> 0" by auto
qed

lemma free_data_block: "fs_ok m \<Longrightarrow> b \<in> free_set m \<Longrightarrow> data_block m b"
  using free_set_bounds [of m b] by (simp add: data_block_def)

lemma data_block_cong: "super m' = super m \<Longrightarrow> data_block m' = data_block m"
  using layout_cong [of m' m] by (simp add: data_block_def fun_eq_iff)

lemma inode_at_bitvector [mem_simps]:
  assumes "fs_layout m" "b < os_nblocks (super m)" "inode_lo m \<le> oi"
  shows "inode_at (bitvector_clear m 2048 b) oi = inode_at m oi"
    "inode_at (bitvector_set m 2048 b) oi = inode_at m oi"
  using assms by (auto intro!: inode_at_cong simp: mem_simps)

text \<open>A file of at most ten blocks: what its inode and the bitmap must agree on.\<close>

definition nblk :: "ospfs_inode_t \<Rightarrow> nat" where
  "nblk i = unat (ospfs_size2nblocks (oi_size i))"

definition small_file :: "(u32 \<Rightarrow> bool) \<Rightarrow> ospfs_inode_t \<times> u32 set \<Rightarrow> bool" where
  "small_file P v \<longleftrightarrow> (case v of (i, F) \<Rightarrow>
     nblk i \<le> 10 \<and> length (oi_direct i) = 10 \<and>
     set (take (nblk i) (oi_direct i)) \<subseteq> {b. P b} - F \<and> distinct (take (nblk i) (oi_direct i)) \<and>
     drop (nblk i) (oi_direct i) = replicate (10 - nblk i) 0 \<and> F \<subseteq> {b. P b} \<and> \<not> P 0)"

text \<open>The abstract operations, on the inode and the set of free blocks.\<close>

definition spec_add :: "ospfs_inode_t \<times> u32 set \<Rightarrow> ospfs_inode_t \<times> u32 set" where
  "spec_add v = (case v of (i, F) \<Rightarrow>
     (i\<lparr>oi_size := oi_size i + 1024, oi_direct := (oi_direct i)[nblk i := Min F]\<rparr>, F - {Min F}))"

definition spec_remove :: "ospfs_inode_t \<times> u32 set \<Rightarrow> ospfs_inode_t \<times> u32 set" where
  "spec_remove v = (case v of (i, F) \<Rightarrow>
     (i\<lparr>oi_size := oi_size i - 1024, oi_direct := (oi_direct i)[nblk i - 1 := 0]\<rparr>,
      insert (oi_direct i ! (nblk i - 1)) F))"

definition view :: "mem \<Rightarrow> nat \<Rightarrow> ospfs_inode_t \<times> u32 set" where
  "view m oi = (inode_at m oi, free_set m)"

lemma view_simps [simp]: "fst (view m oi) = inode_at m oi" "snd (view m oi) = free_set m"
  by (simp_all add: view_def)

lemma nblk_eq: "nblk i = unat (oi_size i + 1023) div 1024"
  by (simp add: nblk_def ospfs_size2nblocks_def unat_div add_diff_eq [symmetric])

lemma nblk_grow:
  assumes "nblk i \<le> 10"
  shows "nblk (i\<lparr>oi_size := oi_size i + 1024, oi_direct := d\<rparr>) = Suc (nblk i)"
proof -
  have "unat (oi_size i + 1023 + 1024) = unat (oi_size i + 1023) + 1024"
    using assms by (subst unat_plus_u32) (simp add: nblk_eq)
  then show ?thesis by (simp add: nblk_eq add.assoc)
qed

lemma nblk_shrink:
  assumes "0 < nblk i"
  shows "nblk (i\<lparr>oi_size := oi_size i - 1024, oi_direct := d\<rparr>) = nblk i - 1"
proof -
  have "unat (oi_size i + 1023 - 1024) = unat (oi_size i + 1023) - 1024"
    using assms by (subst unat_minus_u32) (simp_all add: nblk_eq word_le_nat_alt)
  then show ?thesis using assms by (simp add: nblk_eq algebra_simps)
qed

lemma Min_in_free: "F \<noteq> ({} :: u32 set) \<Longrightarrow> Min F \<in> F"
  by (rule Min_in) auto

lemma small_file_next:
  "small_file P (i, F) \<Longrightarrow> nblk i < 10 \<Longrightarrow> oi_direct i ! nblk i = 0"
  using nth_drop [of "nblk i" "oi_direct i" 0] by (simp add: small_file_def)

lemma small_file_add:
  assumes "small_file P (i, F)" "F \<noteq> {}" "nblk i < 10"
  shows "small_file P (spec_add (i, F))"
proof -
  have len: "length (oi_direct i) = 10" using assms by (simp add: small_file_def)
  have take: "take (Suc (nblk i)) ((oi_direct i)[nblk i := Min F]) = take (nblk i) (oi_direct i) @ [Min F]"
    using assms len by (simp add: take_Suc_conv_app_nth)
  have new: "P (Min F)" "Min F \<notin> set (take (nblk i) (oi_direct i))"
  proof -
    have "F \<subseteq> {b. P b}" "set (take (nblk i) (oi_direct i)) \<subseteq> {b. P b} - F"
      using assms(1) by (simp_all add: small_file_def)
    with Min_in_free [OF assms(2)] show "P (Min F)" "Min F \<notin> set (take (nblk i) (oi_direct i))"
      by blast+
  qed
  have drop: "drop (Suc (nblk i)) (oi_direct i) = replicate (9 - nblk i) 0"
  proof -
    have "drop (Suc (nblk i)) (oi_direct i) = drop 1 (drop (nblk i) (oi_direct i))" by simp
    also have "\<dots> = replicate (9 - nblk i) 0" using assms by (simp add: small_file_def)
    finally show ?thesis .
  qed
  show ?thesis
    using assms new len
    by (auto simp: small_file_def spec_add_def nblk_grow take drop)
qed

lemma spec_remove_add:
  assumes "small_file P (i, F)" "F \<noteq> {}" "nblk i < 10"
  shows "spec_remove (spec_add (i, F)) = (i, F)"
proof -
  have "(oi_direct i)[nblk i := 0] = oi_direct i"
    using small_file_next [OF assms(1,3)] by (metis list_update_id)
  then show ?thesis
    using assms Min_in_free [OF assms(2)]
    by (auto simp: spec_remove_def spec_add_def nblk_grow small_file_def insert_absorb)
qed

lemma small_file_remove:
  assumes "small_file P (i, F)" "0 < nblk i"
  shows "small_file P (spec_remove (i, F))"
proof -
  let ?d = "oi_direct i" and ?k = "nblk i - 1"
  have len: "length ?d = 10" and k: "nblk i \<le> 10"
    using assms by (auto simp: small_file_def)
  have last: "take (nblk i) ?d = take ?k ?d @ [?d ! ?k]"
    using assms(2) len k by (metis Suc_pred' lessI less_le_trans take_Suc_conv_app_nth)
  have "drop ?k (?d[?k := 0]) = 0 # drop (nblk i) ?d"
    using assms(2) len k by (simp add: Cons_nth_drop_Suc [symmetric])
  also have "\<dots> = replicate (10 - ?k) 0"
    using assms k by (simp add: small_file_def Suc_diff_le replicate_Suc [symmetric] del: replicate_Suc)
  finally have drop: "drop ?k (?d[?k := 0]) = replicate (10 - ?k) 0" .
  show ?thesis
    using assms len k last drop
    by (auto simp: small_file_def spec_remove_def nblk_shrink)
qed

lemma same_meta_zero_block:
  "fs_layout m \<Longrightarrow> data_block m b \<Longrightarrow> same_meta m (zero_block m' b) = same_meta m m'"
  using data_block_addr [of m b] by (auto simp: zero_block_def same_meta_def mem_simps)

text \<open>
  What growing a file does to the rest of the disk: blocks in use keep their bytes, newly
  allocated blocks are zero.
\<close>

definition extends :: "mem \<Rightarrow> nat \<Rightarrow> mem \<Rightarrow> bool" where
  "extends m oi m' \<longleftrightarrow> super m' = super m \<and> free_set m' \<subseteq> free_set m \<and>
     (\<forall>y. inode_lo m \<le> y \<and> y < 1024 * data_start m \<and> \<not> (oi \<le> y \<and> y < oi + 64) \<longrightarrow> m' y = m y) \<and>
     (\<forall>x b. data_start m \<le> unat b \<and> x div 1024 = unat b \<longrightarrow>
        (b \<notin> free_set m \<longrightarrow> m' x = m x) \<and> (b \<in> free_set m - free_set m' \<longrightarrow> m' x = 0))"

lemma extends_refl [simp]: "extends m oi m"
  by (simp add: extends_def)

lemma extends_trans:
  assumes "extends m oi m1" "extends m1 oi m'"
  shows "extends m oi m'"
proof -
  have "data_start m1 = data_start m" using assms(1) layout_cong [of m1 m] by (simp add: extends_def)
  note e = assms(1) [unfolded extends_def] assms(2) [unfolded extends_def this]
  have *: "b \<notin> free_set m \<Longrightarrow> m1 x = m x" "b \<in> free_set m - free_set m1 \<Longrightarrow> m1 x = 0"
    "b \<notin> free_set m1 \<Longrightarrow> m' x = m1 x" "b \<in> free_set m1 - free_set m' \<Longrightarrow> m' x = 0"
    if "data_start m \<le> unat b \<and> x div 1024 = unat b" for x b
    using e that by blast+
  have ino: "m' y = m y" if "inode_lo m \<le> y \<and> y < 1024 * data_start m \<and> \<not> (oi \<le> y \<and> y < oi + 64)" for y
    using e that by metis
  have sub: "super m' = super m" "free_set m' \<subseteq> free_set m1" "free_set m1 \<subseteq> free_set m"
    using assms by (simp_all add: extends_def)
  show ?thesis
    unfolding extends_def
  proof (intro conjI allI impI)
    fix x and b :: u32 assume x: "data_start m \<le> unat b \<and> x div 1024 = unat b"
    show "m' x = m x" if "b \<notin> free_set m"
      using *(1,3) [OF x] that sub(3) by auto
    show "m' x = 0" if "b \<in> free_set m - free_set m'"
      using *(2-4) [OF x] that by (cases "b \<in> free_set m1") auto
  qed (use sub ino in auto)
qed

lemma block_addr_ge: "d \<le> unat b \<Longrightarrow> x div 1024 = unat (b :: u32) \<Longrightarrow> 1024 * d \<le> x"
  using div_mult_mod_eq [of x 1024] by linarith

lemma block_of_addr: "x div 1024 = unat b \<longleftrightarrow> 1024 * unat (b :: u32) \<le> x \<and> x < 1024 * unat b + 1024"
  by auto

lemma add_block_small:
  assumes ok: "fs_ok m" and oi: "inode_addr m oi" and n: "nblk (inode_at m oi) < 10"
  shows "free_set m = {} \<Longrightarrow> add_block m oi = (Inl ENOSPC, m)"
    and "free_set m \<noteq> {} \<Longrightarrow> \<exists>m'. add_block m oi = (Inr (), m') \<and>
      view m' oi = spec_add (view m oi) \<and> fs_ok m' \<and> super m' = super m \<and> extends m oi m'"
proof -
  let ?n = "ospfs_size2nblocks (oi_size (inode_at m oi))"
  have n': "?n < 10" using n by (simp add: nblk_def word_less_nat_alt)
  then have "indir_index ?n = -1" "indir2_index ?n = -1"
    by (simp_all add: indir_index_def indir2_index_def word_less_nat_alt)
  then have direct: "add_block m oi = add_block_direct m oi ?n"
    by (simp add: add_block_def Let_def)
  show "add_block m oi = (Inl ENOSPC, m)" if "free_set m = {}"
    by (simp add: direct add_block_direct_def allocate_block_eq that)
  assume ne: "free_set m \<noteq> {}"
  define b where "b = Min (free_set m)"
  have lay: "fs_layout m" using ok by (simp add: fs_ok_def)
  have b: "b \<in> free_set m" using ne by (simp add: b_def)
  have db: "data_block m b" using free_data_block [OF ok b] .
  note addr = data_block_addr [OF lay db]
  define m1 where "m1 = bitvector_clear m 2048 b"
  define m2 where "m2 = zero_block (set_oi_direct m1 oi (unat ?n) b) b"
  define m' where "m' = set_oi_size m2 oi (oi_size (inode_at m oi) + 1024)"
  have oi': "inode_lo m \<le> oi" "oi + 64 \<le> 1024 * data_start m"
    using oi by (simp_all add: inode_addr_def)
  have i2: "inode_at m2 oi = (inode_at m oi)\<lparr>oi_direct := (oi_direct (inode_at m oi))[unat ?n := b]\<rparr>"
    using n' addr oi' lay
    by (simp add: m2_def m1_def zero_block_def mem_simps nblk_def n [unfolded nblk_def])
  have res: "add_block m oi = (Inr (), m')"
    using ne addr(5) i2
    by (simp add: direct add_block_direct_def allocate_block_eq b_def [symmetric] grow_size_def
        m1_def [symmetric] m2_def [symmetric] m'_def)
  have meta: "same_meta m1 m'"
    using oi' addr n' by (auto simp: m'_def m2_def set_oi_defs zero_block_def same_meta_def mem_simps m1_def n [unfolded nblk_def])
  have ok1: "fs_ok m1" "super m1 = super m" using ok by (simp_all add: m1_def fs_ok_clear mem_simps)
  have f: "free_set m' = free_set m - {b}" "fs_ok m'" "super m' = super m"
    using same_meta_free_set [OF _ meta] same_meta_fs_ok [OF ok1(1) meta] same_meta_super [OF _ meta] ok1
    by (simp_all add: fs_ok_def m1_def free_set_clear mem_simps)
  have i': "inode_at m' oi = fst (spec_add (view m oi))"
    by (simp add: m'_def mem_simps i2 spec_add_def view_def b_def nblk_def)
  have bytes: "m' x = (if x div 1024 = unat b then 0 else m x)" if "data_start m \<le> x div 1024" for x
  proof -
    have that: "1024 * data_start m \<le> x" using that by simp
    have "oi + 16 + 4 * unat ?n + 4 \<le> x" using oi'(2) that n [unfolded nblk_def] by linarith
    then show ?thesis
      using oi' addr that lay unfolding block_of_addr
      by (auto simp: m'_def m2_def m1_def set_oi_defs zero_block_def mem_simps)
  qed
  have ino: "m' y = m y" if "inode_lo m \<le> y" "y < 1024 * data_start m" "\<not> (oi \<le> y \<and> y < oi + 64)" for y
  proof -
    have "unat ?n < 10" using n by (simp add: nblk_def)
    then have "y < oi + 16 + 4 * unat ?n \<or> oi + 16 + 4 * unat ?n + 4 \<le> y" using that by linarith
    then show ?thesis
      using that oi' addr lay by (auto simp: m'_def m2_def m1_def set_oi_defs zero_block_def mem_simps)
  qed
  have "extends m oi m'"
    using f b bytes ino unfolding extends_def by (auto simp: word_unat_eq_iff [symmetric])
  then show "\<exists>m'. add_block m oi = (Inr (), m') \<and> view m' oi = spec_add (view m oi) \<and> fs_ok m' \<and> super m' = super m \<and>
      extends m oi m'"
    using res f i' by (auto simp: view_def spec_add_def b_def)
qed

text \<open>Shrinking writes the inode and the bitmap only.\<close>

definition only_inode :: "mem \<Rightarrow> nat \<Rightarrow> mem \<Rightarrow> bool" where
  "only_inode m oi m' \<longleftrightarrow> super m' = super m \<and>
     (\<forall>y. inode_lo m \<le> y \<and> \<not> (oi \<le> y \<and> y < oi + 64) \<longrightarrow> m' y = m y)"

lemma only_inode_refl [simp]: "only_inode m oi m"
  by (simp add: only_inode_def)

lemma only_inode_trans:
  assumes "only_inode m oi m1" "only_inode m1 oi m'"
  shows "only_inode m oi m'"
proof -
  have "inode_lo m1 = inode_lo m" using assms(1) layout_cong [of m1 m] by (simp add: only_inode_def)
  then show ?thesis using assms by (simp add: only_inode_def)
qed

lemma only_inode_set_oi_size: "inode_addr m oi \<Longrightarrow> super (set_oi_size m oi x) = super m \<Longrightarrow> only_inode m oi (set_oi_size m oi x)"
  by (auto simp: only_inode_def set_oi_size_def mem_simps)

lemma remove_block_small_frame:
  assumes ok: "fs_ok m" and oi: "inode_addr m oi"
    and small: "small_file (data_block m) (view m oi)" and pos: "0 < nblk (inode_at m oi)"
  shows "\<exists>m'. remove_block m oi = (Inr (), m') \<and> view m' oi = spec_remove (view m oi) \<and>
    fs_ok m' \<and> super m' = super m \<and> only_inode m oi m'"
proof -
  let ?i = "inode_at m oi"
  let ?n = "ospfs_size2nblocks (oi_size ?i)"
  have n: "?n \<noteq> 0" "?n \<le> 10" "nblk ?i \<le> 10" "1 \<le> ?n"
    using pos small by (auto simp: small_file_def view_def nblk_def word_le_nat_alt)
  have n1: "unat (?n - 1) = nblk ?i - 1"
    using n(4) by (simp add: unat_minus_u32 nblk_def)
  then have idx: "nat (direct_index (?n - 1)) = nblk ?i - 1"
    using n pos by (simp add: direct_index_def indir_index_def word_less_nat_alt) linarith
  define j where "j = nblk ?i - 1"
  define b where "b = oi_direct ?i ! j"
  have j: "j < 10" "j < nblk ?i" using pos n(3) by (simp_all add: j_def)
  have "b \<in> set (take (nblk ?i) (oi_direct ?i))"
    using j by (auto simp: b_def in_set_conv_nth)
  then have db: "data_block m b" and bfree: "b \<notin> free_set m"
    using small by (auto simp: small_file_def view_def)
  have lay: "fs_layout m" using ok by (simp add: fs_ok_def)
  note addr = data_block_addr [OF lay db]
  have oi': "inode_lo m \<le> oi" "oi + 64 \<le> 1024 * data_start m"
    using oi by (simp_all add: inode_addr_def)
  define m1 where "m1 = free_block m b"
  have m1: "m1 = bitvector_set m 2048 b"
    using addr(4) db lay by (simp add: m1_def free_block_data data_block_def)
  have ok1: "fs_layout m1" "super m1 = super m" "free_set m1 = insert b (free_set m)"
    using lay addr(4) by (simp_all add: m1 mem_simps free_set_set layout_cong [of "bitvector_set m 2048 b" m])
  have ok2: "fs_ok m1"
    using ok ok1 db layout_cong [OF ok1(2)] by (auto simp: fs_ok_def free_ok_def data_block_def)
  have i1: "inode_at m1 oi = ?i" using oi' addr lay by (simp add: m1 mem_simps)
  define m' where "m' = set_oi_size (set_oi_direct m1 oi j 0) oi (oi_size ?i - 1024)"
  have res: "remove_block m oi = (Inr (), m')"
    using n addr(5) idx [folded j_def] j i1
    by (simp add: remove_block_def Let_def shrink_size_def b_def [symmetric] m1_def [symmetric]
        m'_def mem_simps)
  have meta: "same_meta m1 m'"
    using oi' ok1(2) by (auto simp: m'_def set_oi_defs same_meta_def mem_simps)
  have frame: "m' y = m y" if "inode_lo m \<le> y" "\<not> (oi \<le> y \<and> y < oi + 64)" for y
  proof -
    have "y < oi + 16 + 4 * j \<or> oi + 16 + 4 * j + 4 \<le> y" using that j(1) by linarith
    then show ?thesis
      using that oi' addr lay by (auto simp: m'_def m1 set_oi_defs mem_simps)
  qed
  have "inode_at m' oi = fst (spec_remove (view m oi))"
    using j by (simp add: m'_def mem_simps i1 spec_remove_def view_def j_def)
  then show ?thesis
    using res same_meta_free_set [OF ok1(1) meta] same_meta_fs_ok [OF ok2 meta]
      same_meta_super [OF ok1(1) meta] ok1
      frame
    by (auto simp: view_def spec_remove_def b_def j_def only_inode_def)
qed

lemma remove_block_small:
  assumes "fs_ok m" "inode_addr m oi" "small_file (data_block m) (view m oi)" "0 < nblk (inode_at m oi)"
  shows "\<exists>m'. remove_block m oi = (Inr (), m') \<and> view m' oi = spec_remove (view m oi) \<and>
    fs_ok m' \<and> super m' = super m"
  using remove_block_small_frame [OF assms] by blast

lemma small_file_cong: "super m' = super m \<Longrightarrow> small_file (data_block m') v = small_file (data_block m) v"
  using data_block_cong [of m' m] by simp

lemma inode_addr_cong: "super m' = super m \<Longrightarrow> inode_addr m' oi = inode_addr m oi"
  using layout_cong [of m' m] by (simp add: inode_addr_def)

lemma nblk_spec_add: "small_file P v \<Longrightarrow> nblk (fst (spec_add v)) = Suc (nblk (fst v))"
  by (auto simp: spec_add_def small_file_def nblk_grow split: prod.splits)

lemma nblk_spec_remove: "0 < nblk (fst v) \<Longrightarrow> nblk (fst (spec_remove v)) = nblk (fst v) - 1"
  by (auto simp: spec_remove_def nblk_shrink split: prod.splits)

lemma card_spec_add: "snd v \<noteq> {} \<Longrightarrow> card (snd (spec_add v)) = card (snd v) - 1"
  by (cases v) (simp only: spec_add_def prod.case snd_conv, rule card_Diff_singleton [OF Min_in_free])

lemma grow_loop_small:
  assumes "fs_ok m" "inode_addr m oi" "small_file (data_block m) (view m oi)"
    "nblk (inode_at m oi) + d \<le> 10" "nblk (inode_at m oi) + d = unat (ospfs_size2nblocks new)"
  shows "\<exists>m'. grow_loop m oi new c = Some
      (if d \<le> card (free_set m) then Inr () else Inl ENOSPC, c + min d (card (free_set m)), m') \<and>
    view m' oi = (spec_add ^^ min d (card (free_set m))) (view m oi) \<and>
    fs_ok m' \<and> super m' = super m \<and> extends m oi m'"
  using assms
proof (induction d arbitrary: m c)
  case 0
  then have "grow_loop m oi new c = Some (Inr (), c, m)"
    by (subst grow_loop.simps) (simp add: nblk_def word_less_nat_alt)
  with 0 show ?case by simp
next
  case (Suc d)
  have less: "ospfs_size2nblocks (oi_size (inode_at m oi)) < ospfs_size2nblocks new"
    using Suc.prems(5) by (simp add: nblk_def word_less_nat_alt)
  have n: "nblk (inode_at m oi) < 10" using Suc.prems(4) by simp
  show ?case
  proof (cases "free_set m = {}")
    case True
    have "grow_loop m oi new c = Some (Inl ENOSPC, c, m)"
      using add_block_small(1) [OF Suc.prems(1,2) n True] less
      by (subst grow_loop.simps) simp
    then show ?thesis using Suc.prems(1) by (simp add: True)
  next
    case False
    then obtain m1 where m1: "add_block m oi = (Inr (), m1)" "view m1 oi = spec_add (view m oi)"
      "fs_ok m1" "super m1 = super m" "extends m oi m1"
      using add_block_small(2) [OF Suc.prems(1,2) n False] by auto
    have small1: "small_file (data_block m1) (view m1 oi)"
      unfolding small_file_cong [OF m1(4)] m1(2)
      using small_file_add [of "data_block m" "fst (view m oi)" "snd (view m oi)", unfolded prod.collapse]
        Suc.prems(3) False n by simp
    have nb: "nblk (inode_at m1 oi) = Suc (nblk (inode_at m oi))"
      using nblk_spec_add [OF Suc.prems(3), folded m1(2)] by simp
    have card: "card (free_set m) = Suc (card (free_set m1))"
      using card_spec_add [of "view m oi", folded m1(2)] False
      by (simp add: card_gt_0_iff)
    have loop: "grow_loop m oi new c = grow_loop m1 oi new (Suc c)"
      using less m1(1) by (subst grow_loop.simps) simp
    have "\<exists>m'. grow_loop m1 oi new (Suc c) = Some
        (if d \<le> card (free_set m1) then Inr () else Inl ENOSPC, Suc c + min d (card (free_set m1)), m') \<and>
      view m' oi = (spec_add ^^ min d (card (free_set m1))) (view m1 oi) \<and>
      fs_ok m' \<and> super m' = super m1 \<and> extends m1 oi m'"
      using Suc.prems(4,5) nb m1
      by (intro Suc.IH small1) (simp_all add: inode_addr_cong [OF m1(4)] Suc.prems(2))
    then obtain m' where m': "grow_loop m1 oi new (Suc c) = Some
        (if d \<le> card (free_set m1) then Inr () else Inl ENOSPC, Suc c + min d (card (free_set m1)), m')"
      "view m' oi = (spec_add ^^ min d (card (free_set m1))) (view m1 oi)"
      "fs_ok m'" "super m' = super m1" "extends m1 oi m'" by blast
    have "view m' oi = (spec_add ^^ min (Suc d) (card (free_set m))) (view m oi)"
      unfolding m'(2) m1(2) card min_Suc_Suc funpow_Suc_right o_apply ..
    then show ?thesis
      using m'(1,3,4) m1(4) extends_trans [OF m1(5) m'(5)] by (intro exI [of _ m'] conjI) (simp_all only: loop card min_Suc_Suc Suc_le_mono add_Suc add_Suc_right)
  qed
qed


lemma funpow_remove_add:
  assumes "small_file P v" "nblk (fst v) + k \<le> 10" "k \<le> card (snd v)"
  shows "small_file P ((spec_add ^^ k) v) \<and> nblk (fst ((spec_add ^^ k) v)) = nblk (fst v) + k \<and>
    card (snd ((spec_add ^^ k) v)) = card (snd v) - k \<and> (spec_remove ^^ k) ((spec_add ^^ k) v) = v"
  using assms
proof (induction k)
  case (Suc k)
  let ?w = "(spec_add ^^ k) v"
  have w: "small_file P ?w" "nblk (fst ?w) = nblk (fst v) + k" "card (snd ?w) = card (snd v) - k"
    "(spec_remove ^^ k) ?w = v"
    using Suc by simp_all
  then have ne: "snd ?w \<noteq> {}" using Suc.prems by (intro notI) simp
  have n: "nblk (fst ?w) < 10" using w Suc.prems by simp
  note nx = small_file_add [of P "fst ?w" "snd ?w", unfolded prod.collapse]
    spec_remove_add [of P "fst ?w" "snd ?w", unfolded prod.collapse]
  have "(spec_remove ^^ Suc k) (spec_add ?w) = v"
    by (simp only: funpow_Suc_right o_apply nx(2) [OF w(1) ne n] w(4))
  then show ?case
    using nx(1) [OF w(1) ne n] nblk_spec_add [OF w(1)] card_spec_add [OF ne] w
    by simp
qed simp

lemma shrink_loop_small_frame:
  assumes "fs_ok m" "inode_addr m oi" "small_file (data_block m) (view m oi)"
    "nblk (inode_at m oi) = d + unat (ospfs_size2nblocks new)"
  shows "\<exists>m'. shrink_loop m oi new r = Some (if d = 0 then r else Inr (), m') \<and>
    view m' oi = (spec_remove ^^ d) (view m oi) \<and> small_file (data_block m) (view m' oi) \<and>
    fs_ok m' \<and> super m' = super m \<and> only_inode m oi m'"
  using assms
proof (induction d arbitrary: m r)
  case 0
  then have "shrink_loop m oi new r = Some (r, m)"
    by (subst shrink_loop.simps) (simp add: nblk_def word_less_nat_alt)
  with 0 show ?case by simp
next
  case (Suc d)
  have pos: "0 < nblk (inode_at m oi)"
    and less: "ospfs_size2nblocks (oi_size (inode_at m oi)) > ospfs_size2nblocks new"
    using Suc.prems(4) by (simp_all add: nblk_def word_less_nat_alt)
  obtain m1 where m1: "remove_block m oi = (Inr (), m1)" "view m1 oi = spec_remove (view m oi)"
      "fs_ok m1" "super m1 = super m" "only_inode m oi m1"
    using remove_block_small_frame [OF Suc.prems(1-3) pos] by auto
  have small1: "small_file (data_block m1) (view m1 oi)"
    unfolding small_file_cong [OF m1(4)] m1(2)
    using small_file_remove [of "data_block m" "fst (view m oi)" "snd (view m oi)", unfolded prod.collapse]
      Suc.prems(3) pos by simp
  have nb: "nblk (inode_at m1 oi) = d + unat (ospfs_size2nblocks new)"
    using nblk_spec_remove [of "view m oi", folded m1(2)] pos Suc.prems(4) by simp
  have ia: "inode_addr m1 oi" using Suc.prems(2) by (simp add: inode_addr_cong [OF m1(4)])
  obtain m' where m': "shrink_loop m1 oi new (Inr ()) = Some (Inr (), m')"
      "view m' oi = (spec_remove ^^ d) (view m1 oi)" "small_file (data_block m1) (view m' oi)"
      "fs_ok m'" "super m' = super m1" "only_inode m1 oi m'"
    using Suc.IH [OF m1(3) ia small1 nb, of "Inr ()", unfolded if_cancel] by blast
  have "view m' oi = (spec_remove ^^ Suc d) (view m oi)"
    unfolding m'(2) m1(2) funpow_Suc_right o_apply ..
  moreover have "shrink_loop m oi new r = Some (Inr (), m')"
    using less m1(1) m'(1) by (subst shrink_loop.simps) simp
  ultimately show ?case
    using m'(3-5) m1(4) small_file_cong [OF m1(4)] only_inode_trans [OF m1(5) m'(6)]
    by (intro exI [of _ m'] conjI) (simp_all only: nat.distinct if_False)
qed

lemma shrink_loop_small:
  assumes "fs_ok m" "inode_addr m oi" "small_file (data_block m) (view m oi)"
    "nblk (inode_at m oi) = d + unat (ospfs_size2nblocks new)"
  shows "\<exists>m'. shrink_loop m oi new r = Some (if d = 0 then r else Inr (), m') \<and>
    view m' oi = (spec_remove ^^ d) (view m oi) \<and> small_file (data_block m) (view m' oi) \<and>
    fs_ok m' \<and> super m' = super m"
  using shrink_loop_small_frame [OF assms] by blast

lemma remove_blocks_small:
  assumes "fs_ok m" "inode_addr m oi" "small_file (data_block m) (view m oi)"
    "k \<le> nblk (inode_at m oi)"
  shows "view (remove_blocks k m oi) oi = (spec_remove ^^ k) (view m oi) \<and>
    small_file (data_block m) (view (remove_blocks k m oi) oi) \<and>
    fs_ok (remove_blocks k m oi) \<and> super (remove_blocks k m oi) = super m"
  using assms
proof (induction k arbitrary: m)
  case (Suc k)
  have pos: "0 < nblk (inode_at m oi)" using Suc.prems(4) by simp
  obtain m1 where m1: "remove_block m oi = (Inr (), m1)" "view m1 oi = spec_remove (view m oi)"
      "fs_ok m1" "super m1 = super m"
    using remove_block_small [OF Suc.prems(1-3) pos] by auto
  have small1: "small_file (data_block m1) (view m1 oi)"
    unfolding small_file_cong [OF m1(4)] m1(2)
    using small_file_remove [of "data_block m" "fst (view m oi)" "snd (view m oi)", unfolded prod.collapse]
      Suc.prems(3) pos by simp
  have nb: "k \<le> nblk (inode_at m1 oi)"
    using nblk_spec_remove [of "view m oi", folded m1(2)] pos Suc.prems(4) by simp
  have ia: "inode_addr m1 oi" using Suc.prems(2) by (simp add: inode_addr_cong [OF m1(4)])
  note ih = Suc.IH [OF m1(3) ia small1 nb, unfolded small_file_cong [OF m1(4)] m1(2,4)]
  show ?case
    using ih unfolding remove_blocks.simps m1(1) snd_conv funpow_Suc_right o_apply .
qed simp

text \<open>
  What \<open>change_size\<close> promises: the blocks to reach the new size, or no change and \<open>ENOSPC\<close>
  when the disk has too few.
\<close>

definition spec_change ::
  "ospfs_inode_t \<times> u32 set \<Rightarrow> u32 \<Rightarrow> (errno + unit) \<times> ospfs_inode_t \<times> u32 set" where
  "spec_change v new =
     (let k = nblk (fst v); w = unat (ospfs_size2nblocks new);
          resize = (\<lambda>v. (fst v\<lparr>oi_size := new\<rparr>, snd v)) in
      if w < k then (Inr (), resize ((spec_remove ^^ (k - w)) v))
      else if w - k \<le> card (snd v) then (Inr (), resize ((spec_add ^^ (w - k)) v))
      else (Inl ENOSPC, v))"

lemma set_oi_size_small:
  assumes "fs_ok m" "inode_addr m oi"
  shows "view (set_oi_size m oi x) oi = (inode_at m oi\<lparr>oi_size := x\<rparr>, free_set m)"
    "fs_ok (set_oi_size m oi x)" "super (set_oi_size m oi x) = super m"
proof -
  have lay: "fs_layout m" using assms by (simp add: fs_ok_def)
  have meta: "same_meta m (set_oi_size m oi x)"
    using assms by (auto simp: inode_addr_def set_oi_defs same_meta_def mem_simps)
  show "view (set_oi_size m oi x) oi = (inode_at m oi\<lparr>oi_size := x\<rparr>, free_set m)"
    "fs_ok (set_oi_size m oi x)" "super (set_oi_size m oi x) = super m"
    using same_meta_free_set [OF lay meta] same_meta_fs_ok [OF assms(1) meta]
      same_meta_super [OF lay meta]
    by (simp_all add: view_def mem_simps)
qed

lemma change_size_stages:
  assumes "grow_loop m oi new 0 = Some (r, c, m1)"
    "m2 = (case r of Inl e \<Rightarrow> remove_blocks c m1 oi | Inr _ \<Rightarrow> m1)"
    "target = (case r of Inl e \<Rightarrow> oi_size (inode_at m oi) | Inr _ \<Rightarrow> new)"
    "shrink_loop m2 oi target r = Some (r', m3)"
  shows "change_size m oi new = Some (r', set_oi_size m3 oi target)"
  using assms by (simp add: change_size_def split: sum.splits)

lemma change_size_grow:
  assumes ok: "fs_ok m" and ia: "inode_addr m oi"
    and small: "small_file (data_block m) (view m oi)"
    and w: "nblk (inode_at m oi) \<le> unat (ospfs_size2nblocks new)" "unat (ospfs_size2nblocks new) \<le> 10"
    and enough: "unat (ospfs_size2nblocks new) - nblk (inode_at m oi) \<le> card (free_set m)"
  shows "\<exists>m'. change_size m oi new = Some (Inr (), m') \<and>
    view m' oi = snd (spec_change (view m oi) new) \<and> fs_ok m' \<and> super m' = super m \<and> extends m oi m'"
proof -
  let ?k = "nblk (inode_at m oi)" and ?w = "unat (ospfs_size2nblocks new)"
  define d where "d = ?w - ?k"
  have d: "?k + d = ?w" "d \<le> card (free_set m)" using w enough by (simp_all add: d_def)
  obtain m1 where m1: "grow_loop m oi new 0 = Some (Inr (), d, m1)"
      "view m1 oi = (spec_add ^^ d) (view m oi)" "fs_ok m1" "super m1 = super m" "extends m oi m1"
    using grow_loop_small [OF ok ia small, of d new 0] d w by (auto simp: min_absorb1)
  have ia1: "inode_addr m1 oi" using ia by (simp add: inode_addr_cong [OF m1(4)])
  have n1: "nblk (inode_at m1 oi) = ?w"
    using funpow_remove_add [OF small, of d, folded m1(2)] d w by simp
  then have "shrink_loop m1 oi new (Inr ()) = Some (Inr (), m1)"
    by (subst shrink_loop.simps) (simp add: nblk_def word_less_nat_alt)
  then have res: "change_size m oi new = Some (Inr (), set_oi_size m1 oi new)"
    using m1(1) by (intro change_size_stages) simp_all
  note f = set_oi_size_small [OF m1(3) ia1, of new]
  have "extends m1 oi (set_oi_size m1 oi new)"
    using ia1 f unfolding extends_def view_def inode_addr_def set_oi_size_def
    by (auto simp: store32_apply_other dest!: block_addr_ge)
  then have "extends m oi (set_oi_size m1 oi new)" by (rule extends_trans [OF m1(5)])
  moreover have "snd (spec_change (view m oi) new) = (inode_at m1 oi\<lparr>oi_size := new\<rparr>, free_set m1)"
    using d w m1(2) [symmetric] by (simp add: spec_change_def Let_def d_def)
  ultimately show ?thesis using res f m1(4) by simp
qed

lemma change_size_small:
  assumes ok: "fs_ok m" and ia: "inode_addr m oi"
    and small: "small_file (data_block m) (view m oi)" and new: "ospfs_size2nblocks new \<le> 10"
  shows "\<exists>m'. change_size m oi new = Some (fst (spec_change (view m oi) new), m') \<and>
    view m' oi = snd (spec_change (view m oi) new) \<and> fs_ok m' \<and> super m' = super m"
proof -
  let ?k = "nblk (inode_at m oi)" and ?w = "unat (ospfs_size2nblocks new)"
  have k10: "?k \<le> 10" using small by (simp add: small_file_def view_def)
  have w10: "?w \<le> 10" using new by (simp add: word_le_nat_alt)
  show ?thesis
  proof (cases "?w < ?k")
    case True
    then have "grow_loop m oi new 0 = Some (Inr (), 0, m)"
      by (subst grow_loop.simps) (simp add: nblk_def word_less_nat_alt)
    moreover obtain m3 where m3: "shrink_loop m oi new (Inr ()) = Some (Inr (), m3)"
        "view m3 oi = (spec_remove ^^ (?k - ?w)) (view m oi)" "fs_ok m3" "super m3 = super m"
      using shrink_loop_small [OF ok ia small, of "?k - ?w" new "Inr ()"] True by auto
    ultimately have "change_size m oi new = Some (Inr (), set_oi_size m3 oi new)"
      by (intro change_size_stages) simp_all
    moreover note set_oi_size_small [OF m3(3) inode_addr_cong [OF m3(4), THEN iffD2, OF ia], of new]
    ultimately show ?thesis
      using True m3(4) by (simp add: spec_change_def Let_def m3(2) [symmetric])
  next
    case False
    define d where "d = ?w - ?k"
    have d: "?k + d = ?w" using False by (simp add: d_def)
    obtain m1 where m1: "grow_loop m oi new 0 = Some
          (if d \<le> card (free_set m) then Inr () else Inl ENOSPC, min d (card (free_set m)), m1)"
        "view m1 oi = (spec_add ^^ min d (card (free_set m))) (view m oi)"
        "fs_ok m1" "super m1 = super m"
      using grow_loop_small [OF ok ia small, of d new 0] d w10 by auto
    have ia1: "inode_addr m1 oi" using ia by (simp add: inode_addr_cong [OF m1(4)])
    note und = funpow_remove_add [OF small, of "min d (card (free_set m))", simplified, folded m1(2)]
    have small1: "small_file (data_block m1) (view m1 oi)"
      and n1: "nblk (inode_at m1 oi) = ?k + min d (card (free_set m))"
      and undo: "(spec_remove ^^ min d (card (free_set m))) (view m1 oi) = view m oi"
      using und d w10 by (auto simp: small_file_cong [OF m1(4)])
    show ?thesis
    proof (cases "d \<le> card (free_set m)")
      case True
      then have "fst (spec_change (view m oi) new) = Inr ()"
        using False by (simp add: spec_change_def Let_def d_def)
      then show ?thesis
        using change_size_grow [OF ok ia small, of new] False True w10 by (auto simp: d_def)
    next
      case full: False
      let ?c = "card (free_set m)"
      let ?m2 = "remove_blocks ?c m1 oi"
      have m2: "view ?m2 oi = view m oi" "fs_ok ?m2" "super ?m2 = super m"
        using remove_blocks_small [OF m1(3) ia1 small1, of ?c] n1 undo full m1(4) by auto
      then have i2: "inode_at ?m2 oi = inode_at m oi" by (simp add: view_def)
      have ia2: "inode_addr ?m2 oi" using ia by (simp add: inode_addr_cong [OF m2(3)])
      have "shrink_loop ?m2 oi (oi_size (inode_at m oi)) (Inl ENOSPC) = Some (Inl ENOSPC, ?m2)"
        by (subst shrink_loop.simps) (simp add: i2)
      then have "change_size m oi new = Some (Inl ENOSPC, set_oi_size ?m2 oi (oi_size (inode_at m oi)))"
        using m1(1) full by (intro change_size_stages) simp_all
      then show ?thesis
        using full False m2 i2 set_oi_size_small [OF m2(2) ia2, of "oi_size (inode_at m oi)"]
        by (simp add: spec_change_def Let_def d_def view_def)
    qed
  qed
qed

text \<open>Emptying a file gives all its blocks back.\<close>

lemma spec_remove_all:
  assumes "small_file P (i, F)" "d \<le> nblk i"
  shows "(spec_remove ^^ d) (i, F) =
    (i\<lparr>oi_size := oi_size i - of_nat (1024 * d),
       oi_direct := take (nblk i - d) (oi_direct i) @ replicate (10 - (nblk i - d)) 0\<rparr>,
     F \<union> set (drop (nblk i - d) (take (nblk i) (oi_direct i)))) \<and>
    nblk (fst ((spec_remove ^^ d) (i, F))) = nblk i - d"
  using assms(2)
proof (induction d)
  case 0
  have "take (nblk i) (oi_direct i) @ replicate (10 - nblk i) 0 = oi_direct i"
  proof -
    have "drop (nblk i) (oi_direct i) = replicate (10 - nblk i) 0" using assms(1) by (simp add: small_file_def)
    then show ?thesis using append_take_drop_id [of "nblk i" "oi_direct i"] by simp
  qed
  then show ?case by simp
next
  case (Suc d)
  define n where "n = nblk i - Suc d"
  have n: "nblk i - d = Suc n" "n < 10" "length (oi_direct i) = 10" "n < nblk i"
    using Suc.prems assms(1) by (auto simp: n_def small_file_def)
  let ?u = "(spec_remove ^^ d) (i, F)"
  have u: "?u = (i\<lparr>oi_size := oi_size i - of_nat (1024 * d),
       oi_direct := take (Suc n) (oi_direct i) @ replicate (10 - Suc n) 0\<rparr>,
     F \<union> set (drop (Suc n) (take (nblk i) (oi_direct i))))" "nblk (fst ?u) = Suc n"
    using Suc.IH [OF Suc_leD [OF Suc.prems]] unfolding n(1) by (fact conjunct1, fact conjunct2)
  have t: "take (Suc n) (oi_direct i) = take n (oi_direct i) @ [oi_direct i ! n]"
    using n by (simp add: take_Suc_conv_app_nth)
  have dr: "drop n (take (nblk i) (oi_direct i)) = oi_direct i ! n # drop (Suc n) (take (nblk i) (oi_direct i))"
    using n by (subst Cons_nth_drop_Suc [symmetric]) simp_all
  have r: "replicate (10 - n) (0 :: u32) = 0 # replicate (10 - Suc n) 0"
    using n(2) by (metis Suc_diff_Suc replicate_Suc)
  have "nblk (fst (spec_remove ?u)) = n" using nblk_spec_remove [of ?u] u(2) by simp
  moreover have "spec_remove ?u = (i\<lparr>oi_size := oi_size i - of_nat (1024 * Suc d),
       oi_direct := take n (oi_direct i) @ replicate (10 - n) 0\<rparr>,
     F \<union> set (drop n (take (nblk i) (oi_direct i))))"
  proof -
    define S where "S = oi_size i - of_nat (1024 * d)"
    define G where "G = F \<union> set (drop (Suc n) (take (nblk i) (oi_direct i)))"
    define pre where "pre = take n (oi_direct i)"
    define tl where "tl = replicate (10 - Suc n) (0 :: u32)"
    have k: "nblk (i\<lparr>oi_size := S, oi_direct := (pre @ [oi_direct i ! n]) @ tl\<rparr>) = Suc n"
      using u(2) unfolding u(1) t S_def pre_def tl_def by simp
    have l: "length pre = n" using n by (simp add: pre_def)
    have "S - 1024 = oi_size i - of_nat (1024 * Suc d)" by (simp add: S_def algebra_simps)
    moreover have "((pre @ [oi_direct i ! n]) @ tl)[n := 0] = pre @ 0 # tl" "((pre @ [oi_direct i ! n]) @ tl) ! n = oi_direct i ! n"
      using l by (simp_all add: list_update_append nth_append)
    moreover have "insert (oi_direct i ! n) G = F \<union> set (drop n (take (nblk i) (oi_direct i)))"
      unfolding dr G_def by auto
    ultimately show ?thesis
      using k unfolding u(1) t r S_def [symmetric] G_def [symmetric] pre_def [symmetric] tl_def [symmetric]
      by (simp add: spec_remove_def)
  qed
  ultimately show ?case unfolding n_def [symmetric] by simp
qed

lemma change_size_zero:
  assumes ok: "fs_ok m" and ia: "inode_addr m oi" and small: "small_file (data_block m) (view m oi)"
  shows "\<exists>m'. change_size m oi 0 = Some (Inr (), m') \<and>
    inode_at m' oi = (inode_at m oi)\<lparr>oi_size := 0, oi_direct := replicate 10 0\<rparr> \<and>
    free_set m' = free_set m \<union> set (take (nblk (inode_at m oi)) (oi_direct (inode_at m oi))) \<and>
    fs_ok m' \<and> only_inode m oi m'"
proof -
  let ?k = "nblk (inode_at m oi)"
  have z: "unat (ospfs_size2nblocks 0) = 0" by (simp add: ospfs_size2nblocks_def)
  then have "grow_loop m oi 0 0 = Some (Inr (), 0, m)"
    by (subst grow_loop.simps) (simp add: word_less_nat_alt)
  moreover obtain m3 where m3: "shrink_loop m oi 0 (Inr ()) = Some (Inr (), m3)"
      "view m3 oi = (spec_remove ^^ ?k) (view m oi)" "fs_ok m3" "super m3 = super m" "only_inode m oi m3"
    using shrink_loop_small_frame [OF ok ia small, of ?k 0 "Inr ()"] z by auto
  ultimately have res: "change_size m oi 0 = Some (Inr (), set_oi_size m3 oi 0)"
    by (intro change_size_stages) simp_all
  have ia3: "inode_addr m3 oi" using ia by (simp add: inode_addr_cong [OF m3(4)])
  note f = set_oi_size_small [OF m3(3) ia3, of 0]
  have "only_inode m oi (set_oi_size m3 oi 0)"
    by (rule only_inode_trans [OF m3(5) only_inode_set_oi_size [OF ia3 f(3)]])
  then show ?thesis
    using res f m3(2) spec_remove_all [OF small [unfolded view_def], of ?k]
    by (intro exI [of _ "set_oi_size m3 oi 0"]) (simp add: view_def)
qed

section \<open>Properties\<close>

lemma indir2_index_cases: "indir2_index b = (if unat b < 266 then -1 else 0)"
  by (simp add: indir2_index_def word_less_nat_alt)

lemma indir_index_low: "unat b < 10 \<Longrightarrow> indir_index b = -1"
  by (simp add: indir_index_def word_less_nat_alt)

lemma indir_index_mid: "10 \<le> unat b \<Longrightarrow> unat b < 266 \<Longrightarrow> indir_index b = 0"
  by (simp add: indir_index_def word_less_nat_alt indir2_index_cases)

lemma indir_index_high: "266 \<le> unat b \<Longrightarrow> indir_index b = int ((unat b - 266) div 256)"
proof -
  assume *: "266 \<le> unat b"
  have "unat (b - 266) = unat b - 266" using * by (subst unat_minus_u32) (simp_all add: word_le_nat_alt)
  then show ?thesis using *
    by (simp add: indir_index_def word_less_nat_alt indir2_index_cases unat_div)
qed

lemma direct_index_cases: "direct_index b =
  (if unat b < 10 then int (unat b) else if unat b < 522 then int (unat b - 10)
   else int ((unat b - 266) mod 256))"
proof -
  have *: "unat (b - 10) = unat b - 10" if "10 \<le> unat b"
    using that by (subst unat_minus_u32) (simp_all add: word_le_nat_alt)
  have **: "unat (b - 266) = unat b - 266" if "266 \<le> unat b"
    using that by (subst unat_minus_u32) (simp_all add: word_le_nat_alt)
  consider "unat b < 10" | "10 \<le> unat b" "unat b < 266" | "266 \<le> unat b" "unat b < 522" | "522 \<le> unat b"
    by linarith
  then show ?thesis
  proof cases
    case 1 then show ?thesis by (simp add: direct_index_def indir_index_low)
  next
    case 2 then show ?thesis by (simp add: direct_index_def indir_index_mid *)
  next
    case 3
    then have "(unat b - 266) div 256 = 0" by simp
    with 3 show ?thesis by (simp add: direct_index_def indir_index_high *)
  next
    case 4
    then have "(unat b - 266) div 256 \<noteq> 0" by (simp add: div_eq_0_iff)
    with 4 show ?thesis by (simp add: direct_index_def indir_index_high ** unat_mod)
  qed
qed

text \<open>\<open>direct_index\<close> gives a slot of a block of 256 pointers exactly outside the file blocks
266 to 521: for the first 256 doubly indirect blocks it returns a value that lies past the
end of the block.\<close>

theorem direct_index_in_block:
  "direct_index b \<in> {0 ..< 256} \<longleftrightarrow> b < 266 \<or> b \<ge> 522"
proof -
  have "(if n < 10 then int n else if n < 522 then int (n - 10) else int ((n - 266) mod 256)) \<in> {0 ..< 256}
    \<longleftrightarrow> n < 266 \<or> 522 \<le> n" for n :: nat
    by auto
  from this [of "unat b"] show ?thesis
    by (simp add: direct_index_cases word_less_nat_alt word_le_nat_alt)
qed


text \<open>The state of a disk whose inode is not in the way of the bitmap: what the branches share.\<close>

lemma alloc_step:
  assumes "fs_ok m" "free_set m \<noteq> {}" "inode_addr m oi"
  defines "b \<equiv> Min (free_set m)"
  defines "m1 \<equiv> bitvector_clear m 2048 b"
  shows "allocate_block m = (b, m1)" "data_block m b" "b \<noteq> 0" "fs_ok m1" "super m1 = super m"
    "inode_at m1 oi = inode_at m oi" "free_set m1 = free_set m - {b}"
    "\<And>a. inode_lo m \<le> a \<Longrightarrow> load32 m1 a = load32 m a"
proof -
  have b: "b \<in> free_set m" using assms(2) by (simp add: b_def)
  have lay: "fs_layout m" using assms(1) by (simp add: fs_ok_def)
  note db = free_data_block [OF assms(1) b]
  note addr = data_block_addr [OF lay db]
  show "allocate_block m = (b, m1)" "data_block m b" "b \<noteq> 0" "fs_ok m1" "super m1 = super m"
    "inode_at m1 oi = inode_at m oi" "free_set m1 = free_set m - {b}"
    "\<And>a. inode_lo m \<le> a \<Longrightarrow> load32 m1 a = load32 m a"
    using assms(1,2,3) db addr lay
    by (simp_all add: allocate_block_eq b_def [symmetric] m1_def fs_ok_clear free_set_clear mem_simps inode_addr_def)
qed

text \<open>C40: on a full disk, \<open>add_block\<close> for a file that already has its indirect block does not fail
with \<open>ENOSPC\<close>: it reports success, grows the file and zeroes block 0, the boot sector.\<close>

theorem add_block_indir_full_disk:
  assumes "free_set m = {}" "fs_layout m" "inode_addr m oi"
    and n: "10 \<le> nblk (inode_at m oi)" "nblk (inode_at m oi) < 266"
    and ind: "data_block m (oi_indirect (inode_at m oi))"
  shows "\<exists>m'. add_block m oi = (Inr (), m') \<and> read_bytes m' 0 1024 = replicate 1024 0 \<and>
    oi_size (inode_at m' oi) = oi_size (inode_at m oi) + 1024"
proof -
  let ?n = "ospfs_size2nblocks (oi_size (inode_at m oi))"
  let ?i = "oi_indirect (inode_at m oi)"
  have n': "10 \<le> unat ?n" "unat ?n < 266" using n by (simp_all add: nblk_def)
  note idx = indir2_index_cases [of ?n] indir_index_mid [OF n'] direct_index_cases [of ?n]
  note addr = data_block_addr [OF assms(2) ind]
  define a where "a = ospfs_block ?i + 4 * nat (direct_index ?n)"
  have a: "1024 * data_start m \<le> a" using addr by (simp add: a_def)
  have oi: "3072 \<le> oi" "oi + 64 \<le> a" using assms(3) a inode_lo_ge [OF assms(2)]
    by (simp_all add: inode_addr_def)
  define m2 where "m2 = zero_block (store32 m a 0) 0"
  have "add_block m oi = grow_size m2 oi"
    using addr(5) idx n' allocate_block_eq(1) [OF assms(1)]
    by (simp add: add_block_def add_block_indir_def Let_def m2_def a_def)
  moreover have i2: "inode_at m2 oi = inode_at m oi"
    using oi by (simp add: m2_def zero_block_def ospfs_block_def mem_simps)
  moreover have "read_bytes (set_oi_size m2 oi x) 0 1024 = replicate 1024 0" for x
    using oi by (auto intro!: nth_equalityI simp: read_bytes_def m2_def zero_block_def ospfs_block_def set_oi_defs mem_simps)
  ultimately show ?thesis by (simp add: grow_size_def mem_simps)
qed

lemma free_block_meta:
  assumes "fs_layout m"
  shows "super (free_block m b) = super m" "free_set m \<subseteq> free_set (free_block m b)"
    "inode_lo m \<le> a \<Longrightarrow> free_block m b a = m a"
    "inode_lo m \<le> a \<Longrightarrow> load32 (free_block m b) a = load32 m a"
    "inode_lo m \<le> a \<Longrightarrow> inode_at (free_block m b) a = inode_at m a"
  using assms by (auto simp: free_block_def Let_def mem_simps free_set_set)

text \<open>\<open>remove_block\<close> on a file of 12 to 266 blocks frees the indirect block although the
remaining file still has blocks behind it: the pointer becomes 0 and the block is free.\<close>

theorem remove_block_drops_indirect:
  assumes "fs_layout m" "inode_addr m oi" "data_block m (oi_indirect (inode_at m oi))"
    and n: "12 \<le> nblk (inode_at m oi)" "nblk (inode_at m oi) \<le> 266"
  shows "\<exists>m'. remove_block m oi = (Inr (), m') \<and>
     nblk (inode_at m' oi) = nblk (inode_at m oi) - 1 \<and> oi_indirect (inode_at m' oi) = 0 \<and>
     oi_indirect (inode_at m oi) \<in> free_set m'"
proof -
  let ?i = "inode_at m oi"
  let ?n = "ospfs_size2nblocks (oi_size ?i)"
  let ?ind = "oi_indirect ?i"
  have n': "12 \<le> unat ?n" "unat ?n \<le> 266" using n by (simp_all add: nblk_def)
  then have n1: "unat (?n - 1) = unat ?n - 1" by (simp add: unat_minus_u32 word_le_nat_alt)
  then have idx: "indir_index (?n - 1) = 0" using n' by (intro indir_index_mid) simp_all
  have cond: "?n \<noteq> 0" "\<not> ?n \<le> 10" "?n > 10" "?n \<le> 266"
    using n' by (auto simp: word_le_nat_alt word_less_nat_alt)
  note addr = data_block_addr [OF assms(1,3)]
  define a where "a = ospfs_block ?ind + 4 * nat (direct_index (?n - 1))"
  define m0 where "m0 = free_block m (load32 m a)"
  define m1 where "m1 = fill m0 a 4 0"
  define m2 where "m2 = set_oi_indirect (free_block m1 ?ind) oi 0"
  have oi: "inode_lo m \<le> oi" "oi + 64 \<le> a" "inode_lo m \<le> a"
    using assms(2) addr by (simp_all add: a_def inode_addr_def)
  have m0: "super m0 = super m" "inode_at m0 oi = ?i"
    using assms(1) oi by (simp_all add: m0_def free_block_meta)
  have m1: "super m1 = super m" "inode_at m1 oi = ?i"
    using m0 oi inode_lo_ge [OF assms(1)] by (simp_all add: m1_def mem_simps)
  have lay1: "fs_layout m1" using assms(1) layout_cong [OF m1(1)] by simp
  have f: "super (free_block m1 ?ind) = super m" "inode_at (free_block m1 ?ind) oi = ?i"
    using lay1 oi m1 by (simp_all add: free_block_meta)
  have res: "remove_block m oi = shrink_size m2 oi"
    using cond idx m1(2) by (simp add: remove_block_def Let_def a_def [symmetric] m0_def [symmetric] m1_def [symmetric] m2_def)
  have lay2: "fs_layout (free_block m1 ?ind)" using assms(1) layout_cong [OF f(1)] by simp
  have "data_start m1 = data_start m" using layout_cong [OF m1(1)] by simp
  then have "?ind \<in> free_set (free_block m1 ?ind)"
    using lay1 m1 assms(3) by (simp add: free_block_data data_block_def free_set_set)
  moreover have "same_meta (free_block m1 ?ind) (set_oi_size m2 oi x)" for x
    using oi f(1) by (auto simp: same_meta_def m2_def set_oi_defs mem_simps)
  ultimately have "?ind \<in> free_set (set_oi_size m2 oi x)" for x
    by (simp only: same_meta_free_set [OF lay2])
  moreover have "inode_at m2 oi = ?i\<lparr>oi_indirect := 0\<rparr>"
    by (simp add: m2_def mem_simps f)
  moreover have "nblk (?i\<lparr>oi_indirect := 0, oi_size := oi_size ?i - 1024\<rparr>) = nblk ?i - 1"
    using nblk_shrink [of ?i] n by (simp add: nblk_def)
  ultimately show ?thesis
    using res by (simp add: shrink_size_def mem_simps)
qed

text \<open>C39: the first doubly indirect block of a file overwrites the superblock: \<open>add_block\<close> succeeds
and the magic number of the disk is the number of the block it allocated.\<close>

theorem add_block_indir2_clobbers_super:
  assumes "fs_ok m" "inode_addr m oi" and n: "nblk (inode_at m oi) = 266"
    and "oi_indirect2 (inode_at m oi) = 0" "2 \<le> card (free_set m)"
  shows "\<exists>m'. add_block m oi = (Inr (), m') \<and>
    os_magic (super m') = Min (free_set m - {Min (free_set m)})"
proof -
  let ?n = "ospfs_size2nblocks (oi_size (inode_at m oi))"
  have n': "unat ?n = 266" using n by (simp add: nblk_def)
  have idx: "indir2_index ?n = 0" "indir_index ?n = 0" "direct_index ?n = 256"
    using n' by (simp_all add: indir2_index_cases indir_index_high direct_index_cases)
  have ne: "free_set m \<noteq> {}" using assms(5) by auto
  define b1 where "b1 = Min (free_set m)"
  define m1 where "m1 = bitvector_clear m 2048 b1"
  note s1 = alloc_step [OF assms(1) ne assms(2), folded b1_def, folded m1_def]
  have lay: "fs_layout m" using assms(1) by (simp add: fs_ok_def)
  note a1 = data_block_addr [OF lay s1(2)]
  have oi: "inode_lo m \<le> oi" "oi + 64 \<le> 1024 * data_start m" "3072 \<le> oi"
    using assms(2) inode_lo_ge [OF lay] by (auto simp: inode_addr_def)
  define m2 where "m2 = zero_block (set_oi_indirect2 m1 oi b1) b1"
  have meta: "same_meta m1 m2"
    using oi a1 s1(5) by (auto simp: same_meta_def m2_def zero_block_def set_oi_defs mem_simps)
  note lay1 = s1(4) [unfolded fs_ok_def, THEN conjunct1]
  have m2: "fs_ok m2" "super m2 = super m" "free_set m2 = free_set m - {b1}"
    using same_meta_fs_ok [OF s1(4) meta] by (simp_all only: same_meta_super [OF lay1 meta] same_meta_free_set [OF lay1 meta] s1(5,7))
  have "card (free_set m2) = card (free_set m) - 1"
    unfolding m2(3) b1_def by (rule card_Diff_singleton [OF Min_in_free [OF ne]])
  then have ne2: "free_set m2 \<noteq> {}" using assms(5) by (intro notI) simp
  have ia2: "inode_addr m2 oi" using assms(2) by (simp add: inode_addr_cong [OF m2(2)])
  define b2 where "b2 = Min (free_set m2)"
  define m3 where "m3 = bitvector_clear m2 2048 b2"
  note s2 = alloc_step [OF m2(1) ne2 ia2, folded b2_def, folded m3_def]
  have lay2: "fs_layout m2" using m2(1) by (simp add: fs_ok_def)
  note a2 = data_block_addr [OF lay2 s2(2)]
  have i2: "oi_indirect2 (inode_at m3 oi) = b1"
    using oi a1 by (simp add: s2(6) m2_def zero_block_def mem_simps)
  have z: "load32 m3 (ospfs_block b1) = 0"
    using a1 s2(8) [of "ospfs_block b1"] m2(2) by (simp add: m2_def zero_block_def mem_simps)
  define m4 where "m4 = zero_block (store32 m3 1024 b2) b2"
  have "add_block m oi = grow_size m4 oi"
    using idx assms(4) s1(1,3) s2(1,3) i2 z
    by (simp add: add_block_def add_block_indir2_def Let_def m2_def [symmetric] m4_def ospfs_block_def)
  moreover have "load32 (set_oi_size m4 oi x) 1024 = b2" for x
    using oi a2 inode_lo_ge [OF lay2] by (simp add: set_oi_defs m4_def zero_block_def mem_simps)
  ultimately show ?thesis
    by (simp add: grow_size_def super_fields b2_def m2(3) b1_def)
qed

lemma small_file_spec_change:
  assumes "small_file P v" "ospfs_size2nblocks new \<le> 10"
  shows "small_file P (snd (spec_change v new))"
proof -
  let ?w = "unat (ospfs_size2nblocks new)"
  have w10: "?w \<le> 10" using assms(2) by (simp add: word_le_nat_alt)
  have resize: "small_file P (fst u\<lparr>oi_size := new\<rparr>, snd u)" if "small_file P u" "nblk (fst u) = ?w" for u
  proof -
    have "nblk (fst u\<lparr>oi_size := new\<rparr>) = nblk (fst u)" using that(2) by (simp add: nblk_def)
    then show ?thesis using that(1) by (simp add: small_file_def split: prod.splits)
  qed
  have shrink: "small_file P ((spec_remove ^^ d) v) \<and> nblk (fst ((spec_remove ^^ d) v)) = nblk (fst v) - d"
    if "d \<le> nblk (fst v)" for d
    using that
  proof (induction d)
    case 0
    then show ?case using assms(1) by simp
  next
    case (Suc d)
    let ?u = "(spec_remove ^^ d) v"
    have u: "small_file P ?u" "nblk (fst ?u) = nblk (fst v) - d" using Suc by simp_all
    then show ?case
      using small_file_remove [of P "fst ?u" "snd ?u", unfolded prod.collapse] nblk_spec_remove [of ?u] Suc.prems
      by simp
  qed
  consider (less) "?w < nblk (fst v)" | (enough) "nblk (fst v) \<le> ?w" "?w - nblk (fst v) \<le> card (snd v)"
    | (full) "nblk (fst v) \<le> ?w" "\<not> ?w - nblk (fst v) \<le> card (snd v)"
    by linarith
  then show ?thesis
  proof cases
    case less
    then show ?thesis
      using resize [of "(spec_remove ^^ (nblk (fst v) - ?w)) v"] shrink [of "nblk (fst v) - ?w"]
      by (simp add: spec_change_def Let_def)
  next
    case enough
    then show ?thesis
      using resize [of "(spec_add ^^ (?w - nblk (fst v))) v"] w10
        funpow_remove_add [OF assms(1), of "?w - nblk (fst v)"]
      by (simp add: spec_change_def Let_def)
  next
    case full
    then show ?thesis using assms(1) by (simp add: spec_change_def Let_def)
  qed
qed

text \<open>C4: for a file that needs at most ten blocks before and after, \<open>change_size\<close> ends and does
what \<open>spec_change\<close> says: it reaches the new size with freshly allocated blocks or gives
blocks back, or fails with \<open>ENOSPC\<close> and leaves inode and bitmap as they were; the file and
the disk stay well-formed.\<close>

theorem change_size_refines:
  assumes "fs_ok m" "ospfs_inode m ino = Some oi"
    "small_file (data_block m) (view m oi)" "ospfs_size2nblocks new \<le> 10"
  shows "\<exists>m'. change_size m oi new = Some (fst (spec_change (view m oi) new), m') \<and>
    view m' oi = snd (spec_change (view m oi) new) \<and>
    small_file (data_block m') (view m' oi) \<and> fs_ok m' \<and> super m' = super m"
proof -
  have "inode_addr m oi" using assms(1,2) by (simp add: inode_addr_ospfs_inode fs_ok_def)
  then obtain m' where m': "change_size m oi new = Some (fst (spec_change (view m oi) new), m')"
      "view m' oi = snd (spec_change (view m oi) new)" "fs_ok m'" "super m' = super m"
    using change_size_small [OF assms(1) _ assms(3,4)] by blast
  moreover have "small_file (data_block m') (view m' oi)"
    unfolding small_file_cong [OF m'(4)] m'(2) by (rule small_file_spec_change [OF assms(3,4)])
  ultimately show ?thesis by blast
qed

text \<open>On the demonstration disk: 2000 bytes take one more block, 10240 bytes do not fit.\<close>

lemma demo_start: "data_start demo_disk = 4"
  by (simp add: data_start_def)

lemma small_file_demo: "small_file (data_block demo_disk) (view demo_disk 3200)"
proof -
  have n: "nblk (inode_at demo_disk 3200) = 1" by (simp add: nblk_eq inode_at_demo)
  have r: "replicate 9 (0 :: u32) = [0, 0, 0, 0, 0, 0, 0, 0, 0]" by (simp add: numeral_eq_Suc)
  show ?thesis
    by (simp add: small_file_def view_def n [unfolded inode_at_demo] r inode_at_demo data_block_def demo_start free_set_demo)
qed

lemma change_size_refines_witness:
  "(\<exists>m'. change_size demo_disk 3200 2000 = Some (Inr (), m') \<and>
     oi_size (inode_at m' 3200) = 2000 \<and> oi_direct (inode_at m' 3200) = [5, 6, 0, 0, 0, 0, 0, 0, 0, 0] \<and>
     free_set m' = {7}) \<and>
   (\<exists>m'. change_size demo_disk 3200 10240 = Some (Inl ENOSPC, m') \<and>
     inode_at m' 3200 = inode_at demo_disk 3200 \<and> free_set m' = {6, 7})"
proof -
  note ok = change_size_refines [OF fs_ok_demo inode_demo(2) small_file_demo]
  have n: "nblk (inode_at demo_disk 3200) = 1" by (simp add: nblk_eq inode_at_demo)
  have w: "ospfs_size2nblocks 2000 = 2" "ospfs_size2nblocks 10240 = 10"
    by (simp_all add: ospfs_size2nblocks_def)
  have mn: "Min {6, 7 :: u32} = 6" by (simp add: min_def)
  have s: "spec_change (view demo_disk 3200) 2000 =
      (Inr (), (inode_at demo_disk 3200)\<lparr>oi_size := 2000, oi_direct := [5, 6, 0, 0, 0, 0, 0, 0, 0, 0]\<rparr>, {7})"
    "spec_change (view demo_disk 3200) 10240 = (Inl ENOSPC, view demo_disk 3200)"
    by (simp_all add: spec_change_def Let_def n w free_set_demo mn)
      (simp add: spec_add_def view_def n [unfolded inode_at_demo] mn inode_at_demo free_set_demo)
  show ?thesis
    using ok [of 2000] ok [of 10240] unfolding s w by (auto simp: view_def free_set_demo)
qed

lemma add_block_indir_full_disk_witness:
  "let m = set_oi_indirect (set_oi_size (store32 demo_disk 2048 0) 3200 10240) 3200 7 in
   \<exists>m'. add_block m 3200 = (Inr (), m') \<and> read_bytes m' 0 1024 = replicate 1024 0 \<and>
     oi_size (inode_at m' 3200) = 11264"
proof -
  let ?m = "set_oi_indirect (set_oi_size (store32 demo_disk 2048 0) 3200 10240) 3200 7"
  have sup: "super ?m = super demo_disk" by (simp add: set_oi_defs mem_simps del: super_demo)
  have lay: "fs_layout ?m" "data_start ?m = 4"
    using layout_cong [OF sup] fs_ok_demo demo_start by (simp_all add: fs_ok_def)
  have i: "oi_size (inode_at ?m 3200) = 10240" "oi_indirect (inode_at ?m 3200) = 7"
    by (simp_all add: mem_simps)
  have free: "free_set ?m = {}"
  proof -
    have "load32 ?m (2048 + 4 * unat (b div 32)) = 0" if "b < 8" for b :: u32
    proof -
      have "unat (b div 32) = 0" using that by (simp add: unat_div word_less_nat_alt)
      then show ?thesis by (simp add: set_oi_defs mem_simps)
    qed
    then show ?thesis by (auto simp: free_set_def sup bitvector_test_def)
  qed
  show ?thesis
    using add_block_indir_full_disk [OF free lay(1), of 3200] i lay(2)
    by (simp add: inode_addr_def data_block_def sup nblk_eq)
qed

text \<open>The demonstration disk with inode 2 resized to \<open>sz\<close> bytes and given an indirect block.\<close>

abbreviation demo_resized :: "u32 \<Rightarrow> u32 \<Rightarrow> mem" where
  "demo_resized sz ind \<equiv> set_oi_indirect (set_oi_size demo_disk 3200 sz) 3200 ind"

lemma demo_resized:
  "super (demo_resized sz ind) = super demo_disk" "fs_ok (demo_resized sz ind)"
  "free_set (demo_resized sz ind) = {6, 7}" "data_start (demo_resized sz ind) = 4"
  "oi_size (inode_at (demo_resized sz ind) 3200) = sz"
  "oi_indirect (inode_at (demo_resized sz ind) 3200) = ind"
  "oi_indirect2 (inode_at (demo_resized sz ind) 3200) = 0"
proof -
  have meta: "same_meta demo_disk (demo_resized sz ind)"
    by (auto simp: same_meta_def set_oi_defs mem_simps)
  have lay: "fs_layout demo_disk" using fs_ok_demo by (simp add: fs_ok_def)
  show sup: "super (demo_resized sz ind) = super demo_disk"
    by (rule same_meta_super [OF lay meta])
  show "fs_ok (demo_resized sz ind)" by (rule same_meta_fs_ok [OF fs_ok_demo meta])
  show "free_set (demo_resized sz ind) = {6, 7}"
    unfolding same_meta_free_set [OF lay meta] by (rule free_set_demo)
  show "data_start (demo_resized sz ind) = 4"
    using layout_cong [OF sup] demo_start by simp
qed (simp_all add: mem_simps inode_at_demo)

lemma remove_block_drops_indirect_witness:
  "\<exists>m'. remove_block (demo_resized 12288 7) 3200 = (Inr (), m') \<and>
     nblk (inode_at m' 3200) = 11 \<and> oi_indirect (inode_at m' 3200) = 0 \<and> 7 \<in> free_set m'"
  using remove_block_drops_indirect [of "demo_resized 12288 7" 3200]
    demo_resized [of 12288 7, unfolded fs_ok_def super_demo]
  by (simp add: inode_addr_def data_block_def nblk_eq)

lemma add_block_indir2_clobbers_super_witness:
  "\<exists>m'. add_block (demo_resized 272384 0) 3200 = (Inr (), m') \<and> os_magic (super m') = 7"
proof -
  have "{6, 7 :: u32} - {Min {6, 7}} = {7}" by (simp add: min_def)
  then show ?thesis
    using add_block_indir2_clobbers_super [of "demo_resized 272384 0" 3200]
      demo_resized [of 272384 0, unfolded super_demo]
    by (simp add: inode_addr_def nblk_eq)
qed
end
