(* ===== verification/Ospfs_File.thy ===== *)
theory Ospfs_File
  imports Ospfs_Blocks
begin

text \<open>
  Reading, writing and changing the attributes of files: \<open>ospfs_read\<close>, \<open>ospfs_write\<close> and
  \<open>ospfs_notify_change\<close> of \<^verbatim>\<open>Lab3/ospfsmod.c\<close>. A file is seen as the byte list
  \<open>file_bytes\<close>, which the code's own \<open>ospfs_inode_data\<close> reads off the disk. Returning
  \<open>None\<close> is a dereferenced null pointer (an inode number past the inode table) or a loop of
  \<open>change_size\<close> that does not end.
\<close>

section \<open>ospfs\_read and ospfs\_write\<close>

text \<open>
  \<open>*f_pos\<close> is the \<open>loff_t\<close> file position, which the kernel keeps nonnegative; the sums with
  \<open>count\<close> are 64-bit and do not wrap. \<open>ospfs_inode_blockno\<close> gets its low 32 bits. The kernel's
  \<open>copy_to_user\<close> and \<open>copy_from_user\<close> are parameters: the first is given the offset in the
  user's buffer and the bytes, and returns how many it could not copy; the second is given
  offset and length and returns the bytes it stored and how many it could not copy.
\<close>

definition chunk_len :: "nat \<Rightarrow> nat \<Rightarrow> nat" where
  "chunk_len f_pos left =
     (if 1024 - f_pos mod 1024 > left then left else 1024 - f_pos mod 1024)"

lemma block_div_mod:
  "(f :: nat) mod 1024 + i < 1024 \<Longrightarrow> (f + i) div 1024 = f div 1024 \<and> (f + i) mod 1024 = f mod 1024 + i"
proof -
  assume *: "f mod 1024 + i < 1024"
  have q: "(q * 1024 + k) div 1024 = q \<and> (q * 1024 + k) mod 1024 = k" if "k < 1024" for q k :: nat
    using that by simp
  have "f + i = f div 1024 * 1024 + (f mod 1024 + i)" by simp
  with q [OF *, of "f div 1024"] show ?thesis by argo
qed

lemma block_end: "((f :: nat) + (1024 - f mod 1024)) mod 1024 = 0"
proof -
  have "f + (1024 - f mod 1024) = (f div 1024 + 1) * 1024"
    using mod_less_divisor [of 1024 f] div_mult_mod_eq [of f 1024] by (simp only: add_mult_distrib)
  then show ?thesis by simp
qed

lemma chunk_len: "chunk_len f_pos left \<le> left" "chunk_len f_pos left \<le> 1024 - f_pos mod 1024"
  "0 < left \<Longrightarrow> 0 < chunk_len f_pos left"
  "chunk_len f_pos left < left \<Longrightarrow> (f_pos + chunk_len f_pos left) mod 1024 = 0"
  using block_end [of f_pos] by (auto simp: chunk_len_def)

function read_loop :: "mem \<Rightarrow> nat \<Rightarrow> (nat \<Rightarrow> u8 list \<Rightarrow> nat) \<Rightarrow> nat \<Rightarrow> nat \<Rightarrow> nat \<Rightarrow> u8 list
    \<Rightarrow> (errno + nat) \<times> nat \<times> u8 list" where
  "read_loop m oi copy_to_user count amount f_pos out =
     (if amount < count then
        let blockno = ospfs_inode_blockno m oi (of_nat f_pos) in
        if blockno = 0 then (Inl EIO, f_pos, out)
        else
          let data = ospfs_block blockno;
              n = chunk_len f_pos (count - amount);
              bytes = read_bytes m data n
          in if copy_to_user amount bytes \<noteq> 0 then (Inl EFAULT, f_pos, out)
             else read_loop m oi copy_to_user count (amount + n) (f_pos + n) (out @ bytes)
      else (Inr amount, f_pos, out))"
  by pat_completeness auto
termination
  by (relation "measure (\<lambda>(m, oi, c, count, amount, _). count - amount)")
    (use chunk_len(3) in \<open>simp_all add: diff_less_mono2\<close>)

declare read_loop.simps [simp del]

definition ospfs_read ::
  "mem \<Rightarrow> u32 \<Rightarrow> (nat \<Rightarrow> u8 list \<Rightarrow> nat) \<Rightarrow> u32 \<Rightarrow> nat \<Rightarrow> ((errno + nat) \<times> nat \<times> u8 list) option" where
  "ospfs_read m ino copy_to_user count f_pos =
     (case ospfs_inode m ino of None \<Rightarrow> None
      | Some oi \<Rightarrow>
          let sz = oi_size (inode_at m oi);
              count = (if f_pos + unat count > unat sz then sz - of_nat f_pos else count)
          in Some (read_loop m oi copy_to_user (unat count) 0 f_pos []))"

function write_loop :: "mem \<Rightarrow> nat \<Rightarrow> (nat \<Rightarrow> nat \<Rightarrow> u8 list \<times> nat) \<Rightarrow> nat \<Rightarrow> nat \<Rightarrow> nat
    \<Rightarrow> (errno + nat) \<times> nat \<times> mem" where
  "write_loop m oi copy_from_user count amount f_pos =
     (if amount < count then
        let blockno = ospfs_inode_blockno m oi (of_nat f_pos) in
        if blockno = 0 then (Inl EIO, f_pos, m)
        else
          let data = ospfs_block blockno;
              n = chunk_len f_pos (count - amount);
              (bytes, missed) = copy_from_user amount n;
              m1 = write_bytes m (data + f_pos mod 1024) bytes
          in if missed \<noteq> 0 then (Inl EFAULT, f_pos, m1)
             else write_loop m1 oi copy_from_user count (amount + n) (f_pos + n)
      else (Inr amount, f_pos, m))"
  by pat_completeness auto
termination
  by (relation "measure (\<lambda>(m, oi, c, count, amount, _). count - amount)")
    (use chunk_len(3) in \<open>simp_all add: diff_less_mono2\<close>)

declare write_loop.simps [simp del]

definition ospfs_write ::
  "mem \<Rightarrow> u32 \<Rightarrow> bool \<Rightarrow> (nat \<Rightarrow> nat \<Rightarrow> u8 list \<times> nat) \<Rightarrow> u32 \<Rightarrow> nat
     \<Rightarrow> ((errno + nat) \<times> nat \<times> mem) option" where
  "ospfs_write m ino o_append copy_from_user count f_pos =
     (case ospfs_inode m ino of None \<Rightarrow> None
      | Some oi \<Rightarrow>
          let f_pos = (if o_append then unat (oi_size (inode_at m oi)) else f_pos) in
          (case (if unat count + f_pos > unat (oi_size (inode_at m oi))
                 then change_size m oi (count + of_nat f_pos)
                 else Some (Inr (), m)) of
             None \<Rightarrow> None
           | Some (Inl e, m1) \<Rightarrow> Some (Inl e, f_pos, m1)
           | Some (Inr _, m1) \<Rightarrow> Some (write_loop m1 oi copy_from_user (unat count) 0 f_pos)))"

section \<open>Files as byte sequences\<close>

definition file_byte :: "mem \<Rightarrow> nat \<Rightarrow> nat \<Rightarrow> u8" where
  "file_byte m oi off = m (ospfs_inode_data m oi (of_nat off))"

definition file_bytes :: "mem \<Rightarrow> nat \<Rightarrow> u8 list" where
  "file_bytes m oi = map (file_byte m oi) [0..<unat (oi_size (inode_at m oi))]"

lemma length_file_bytes [simp]: "length (file_bytes m oi) = unat (oi_size (inode_at m oi))"
  by (simp add: file_bytes_def)

text \<open>Every offset of the file has a block.\<close>

definition mapped :: "mem \<Rightarrow> nat \<Rightarrow> bool" where
  "mapped m oi \<longleftrightarrow> (\<forall>off < unat (oi_size (inode_at m oi)). ospfs_inode_blockno m oi (of_nat off) \<noteq> 0)"

lemma blockno_same_block:
  assumes "x div 1024 = y div 1024" "x < oi_size (inode_at m oi)" "y < oi_size (inode_at m oi)"
  shows "ospfs_inode_blockno m oi x = ospfs_inode_blockno m oi y"
  using assms by (simp add: ospfs_inode_blockno_def Let_def not_le [symmetric])

lemma unat_of_nat_lt: "n < unat (s :: u32) \<Longrightarrow> unat (of_nat n :: u32) = n"
  using unat_u32_less [of s] by (simp add: unat_of_nat take_bit_eq_mod del: unat_u32_less)

lemma read_chunk:
  assumes "f_pos + n \<le> unat (oi_size (inode_at m oi))" "n \<le> 1024 - f_pos mod 1024"
  shows "read_bytes m (ospfs_block (ospfs_inode_blockno m oi (of_nat f_pos)) + f_pos mod 1024) n
    = take n (drop f_pos (file_bytes m oi))"
proof (rule nth_equalityI)
  fix i assume "i < length (read_bytes m (ospfs_block (ospfs_inode_blockno m oi (of_nat f_pos)) + f_pos mod 1024) n)"
  then have i: "i < n" by simp
  let ?s = "oi_size (inode_at m oi)"
  have u: "unat (of_nat f_pos :: u32) = f_pos" "unat (of_nat (f_pos + i) :: u32) = f_pos + i"
    using i assms(1) by (auto intro!: unat_of_nat_lt [of _ ?s] simp del: of_nat_add)
  have d: "(f_pos + i) div 1024 = f_pos div 1024" "(f_pos + i) mod 1024 = f_pos mod 1024 + i"
    using i assms(2) by (simp_all add: block_div_mod)
  have "ospfs_inode_blockno m oi (of_nat (f_pos + i)) = ospfs_inode_blockno m oi (of_nat f_pos)"
  proof (rule blockno_same_block)
    show "(of_nat (f_pos + i) :: u32) div 1024 = of_nat f_pos div 1024"
      unfolding unat_eq_iff_u32 unat_div u using d by simp
    show "of_nat (f_pos + i) < ?s" "of_nat f_pos < ?s"
      unfolding word_less_nat_alt u using i assms(1) by simp_all
  qed
  then show "read_bytes m (ospfs_block (ospfs_inode_blockno m oi (of_nat f_pos)) + f_pos mod 1024) n ! i
      = take n (drop f_pos (file_bytes m oi)) ! i"
    using i assms(1) u d
    by (simp add: read_bytes_def file_bytes_def file_byte_def ospfs_inode_data_def unat_mod add.assoc del: of_nat_add)
qed (use assms in simp)

text \<open>A read that starts at a block boundary returns the bytes of the file.\<close>

lemma read_loop_aligned:
  assumes "mapped m oi" "amount \<le> count" "f_pos + (count - amount) \<le> unat (oi_size (inode_at m oi))"
    "amount < count \<Longrightarrow> f_pos mod 1024 = 0" "\<And>off bs. ctu off bs = 0"
  shows "read_loop m oi ctu count amount f_pos out =
    (Inr count, f_pos + (count - amount), out @ take (count - amount) (drop f_pos (file_bytes m oi)))"
  using assms
proof (induction m oi ctu count amount f_pos out rule: read_loop.induct)
  case (1 m oi ctu count amount f_pos out)
  show ?case
  proof (cases "amount < count")
    case False
    then show ?thesis using 1(3) by (simp add: read_loop.simps [of m])
  next
    case True
    define n where "n = chunk_len f_pos (count - amount)"
    define b where "b = ospfs_inode_blockno m oi (of_nat f_pos)"
    have b: "b \<noteq> 0" using 1(2,4) True by (simp add: mapped_def b_def)
    have al: "f_pos mod 1024 = 0" using 1(5) True by simp
    have n: "n \<le> count - amount" "0 < n" "n \<le> 1024" "n < count - amount \<Longrightarrow> (f_pos + n) mod 1024 = 0"
      using chunk_len [where f_pos = f_pos and left = "count - amount"] True al by (simp_all add: n_def)
    have chunk: "read_bytes m (ospfs_block b) n = take n (drop f_pos (file_bytes m oi))"
      using read_chunk [of f_pos n m oi] n 1(4) al by (simp add: b_def)
    have "read_loop m oi ctu count amount f_pos out =
        read_loop m oi ctu count (amount + n) (f_pos + n) (out @ read_bytes m (ospfs_block b) n)"
      using True b 1(6) by (subst read_loop.simps) (simp add: Let_def b_def n_def)
    also have "\<dots> = (Inr count, f_pos + n + (count - (amount + n)), (out @ read_bytes m (ospfs_block b) n) @
        take (count - (amount + n)) (drop (f_pos + n) (file_bytes m oi)))"
      by (rule "1.IH" [OF True b_def b refl n_def refl])
        (use 1(2-4,6) n in auto)
    also have "\<dots> = (Inr count, f_pos + (count - amount), out @ take (count - amount) (drop f_pos (file_bytes m oi)))"
    proof -
      have "take (n + (count - (amount + n))) xs = take n xs @ take (count - (amount + n)) (drop n xs)" for xs :: "u8 list"
        by (rule take_add)
      moreover have "n + (count - (amount + n)) = count - amount" using n True by simp
      ultimately show ?thesis using n by (simp add: chunk add.commute)
    qed
    finally show ?thesis .
  qed
qed

text \<open>C6: a read from a block boundary returns exactly the next \<open>count\<close> bytes of the file, fewer at
its end, and advances the position by as many, for every file whose offsets are mapped.\<close>

theorem ospfs_read_aligned:
  assumes "ospfs_inode m ino = Some oi" "mapped m oi" "f_pos mod 1024 = 0"
    "f_pos \<le> unat (oi_size (inode_at m oi))" "\<And>off bs. copy_to_user off bs = 0"
  shows "ospfs_read m ino copy_to_user count f_pos =
    (let out = take (unat count) (drop f_pos (file_bytes m oi))
     in Some (Inr (length out), f_pos + length out, out))"
proof -
  let ?s = "oi_size (inode_at m oi)"
  define c where "c = (if f_pos + unat count > unat ?s then ?s - of_nat f_pos else count)"
  have c: "unat c = min (unat count) (unat ?s - f_pos)"
  proof -
    have "unat (?s - of_nat f_pos) = unat ?s - f_pos"
      using assms(4) by (cases "f_pos = unat ?s") (simp_all add: unat_minus_u32 word_le_nat_alt unat_of_nat_lt [of _ ?s])
    then show ?thesis by (auto simp: c_def)
  qed
  have "ospfs_read m ino copy_to_user count f_pos = Some (read_loop m oi copy_to_user (unat c) 0 f_pos [])"
    using assms(1) by (simp add: ospfs_read_def Let_def c_def)
  also have "\<dots> = Some (Inr (unat c), f_pos + unat c, take (unat c) (drop f_pos (file_bytes m oi)))"
    using read_loop_aligned [of m oi 0 "unat c" f_pos copy_to_user "[]"] assms c by simp
  finally show ?thesis by (simp add: c Let_def min_def)
qed


section \<open>Small files\<close>

definition slot_addr :: "ospfs_inode_t \<Rightarrow> nat \<Rightarrow> nat" where
  "slot_addr i off = 1024 * unat (oi_direct i ! (off div 1024)) + off mod 1024"

definition small_reg :: "mem \<Rightarrow> nat \<Rightarrow> bool" where
  "small_reg m oi \<longleftrightarrow> fs_ok m \<and> inode_addr m oi \<and> small_file (data_block m) (view m oi) \<and>
     oi_size (inode_at m oi) \<le> 10240 \<and> oi_ftype (inode_at m oi) \<noteq> OSPFS_FTYPE_SYMLINK"

lemma small_nblk:
  "oi_size i \<le> 10240 \<Longrightarrow> nblk i = (unat (oi_size i) + 1023) div 1024"
  by (simp add: nblk_def unat_size2nblocks word_le_nat_alt)

lemma small_slot: "oi_size i \<le> 10240 \<Longrightarrow> off < unat (oi_size i) \<Longrightarrow> off div 1024 < nblk i"
  by (simp add: small_nblk)

lemma small_block:
  assumes "small_reg m oi" "k < nblk (inode_at m oi)"
  defines "b \<equiv> oi_direct (inode_at m oi) ! k"
  shows "data_block m b" "b \<notin> free_set m" "ospfs_block b = 1024 * unat b" "b \<noteq> 0"
    "1024 * data_start m \<le> 1024 * unat b"
proof -
  have "b \<in> set (take (nblk (inode_at m oi)) (oi_direct (inode_at m oi)))"
    using assms by (auto simp: in_set_conv_nth small_reg_def small_file_def view_def)
  then show db: "data_block m b" and "b \<notin> free_set m"
    using assms(1) by (auto simp: small_reg_def small_file_def view_def)
  show "ospfs_block b = 1024 * unat b" "b \<noteq> 0" "1024 * data_start m \<le> 1024 * unat b"
    using data_block_addr [OF _ db] assms(1) by (simp_all add: small_reg_def fs_ok_def)
qed

lemma small_distinct:
  assumes "small_reg m oi" "j < nblk (inode_at m oi)" "k < nblk (inode_at m oi)"
    "oi_direct (inode_at m oi) ! j = oi_direct (inode_at m oi) ! k"
  shows "j = k"
  using assms nth_eq_iff_index_eq [of "take (nblk (inode_at m oi)) (oi_direct (inode_at m oi))" j k]
  by (simp add: small_reg_def small_file_def view_def)

lemma small_blockno:
  assumes "small_reg m oi" "off < unat (oi_size (inode_at m oi))"
  shows "ospfs_inode_blockno m oi (of_nat off) = oi_direct (inode_at m oi) ! (off div 1024)"
    "ospfs_inode_data m oi (of_nat off) = slot_addr (inode_at m oi) off"
proof -
  let ?s = "oi_size (inode_at m oi)"
  have u: "unat (of_nat off :: u32) = off" by (rule unat_of_nat_lt [OF assms(2)])
  have s: "?s \<le> 10240" "oi_ftype (inode_at m oi) \<noteq> 2" using assms(1) by (simp_all add: small_reg_def)
  have k: "off div 1024 < nblk (inode_at m oi)" by (rule small_slot [OF s(1) assms(2)])
  have "nblk (inode_at m oi) \<le> 10" using assms(1) by (simp add: small_reg_def small_file_def view_def)
  with k have d: "unat ((of_nat off :: u32) div 1024) = off div 1024" "off div 1024 < 10"
    by (simp_all add: unat_div u)
  show b: "ospfs_inode_blockno m oi (of_nat off) = oi_direct (inode_at m oi) ! (off div 1024)"
    using d s assms(2) by (simp add: ospfs_inode_blockno_def Let_def word_le_nat_alt u)
  show "ospfs_inode_data m oi (of_nat off) = slot_addr (inode_at m oi) off"
    using small_block [OF assms(1) k] by (simp add: ospfs_inode_data_def b slot_addr_def unat_mod u)
qed

lemma mapped_small: "small_reg m oi \<Longrightarrow> mapped m oi"
  unfolding mapped_def
  using small_block(4) small_blockno(1) small_slot by (simp add: small_reg_def)

lemma slot_addr_inj_blocks:
  assumes "small_reg m oi" "x div 1024 < nblk (inode_at m oi)" "y div 1024 < nblk (inode_at m oi)"
    "slot_addr (inode_at m oi) x = slot_addr (inode_at m oi) y"
  shows "x = y"
proof -
  let ?d = "oi_direct (inode_at m oi)"
  have e: "a = b \<and> r = t" if "1024 * a + r = 1024 * b + t" "r < 1024" "t < 1024" for a b r t :: nat
  proof -
    have "(1024 * a + r) div 1024 = a" "(1024 * b + t) div 1024 = b" using that by simp_all
    then have "a = b" using that(1) by simp
    then show ?thesis using that(1) by simp
  qed
  have "unat (?d ! (x div 1024)) = unat (?d ! (y div 1024)) \<and> x mod 1024 = y mod 1024"
    using assms(4) by (intro e) (simp_all add: slot_addr_def)
  then have "x div 1024 = y div 1024" "x mod 1024 = y mod 1024"
    using small_distinct [OF assms(1-3)]
    by (simp_all add: word_unat_eq_iff)
  then show ?thesis by (metis div_mult_mod_eq)
qed

lemma slot_addr_inj:
  assumes "small_reg m oi" "x < unat (oi_size (inode_at m oi))" "y < unat (oi_size (inode_at m oi))"
    "slot_addr (inode_at m oi) x = slot_addr (inode_at m oi) y"
  shows "x = y"
  using assms small_slot by (intro slot_addr_inj_blocks [OF assms(1) _ _ assms(4)]) (simp_all add: small_reg_def)

lemma slot_addr_lo:
  "small_reg m oi \<Longrightarrow> x < unat (oi_size (inode_at m oi)) \<Longrightarrow> 1024 * data_start m \<le> slot_addr (inode_at m oi) x"
  using small_block(5) [of m oi "x div 1024"] small_slot [of "inode_at m oi" x]
  by (simp add: small_reg_def slot_addr_def)

text \<open>Bytes stored in the data blocks leave inode, superblock and bitmap alone.\<close>

lemma write_data_meta:
  assumes "fs_ok m" "inode_addr m oi" "1024 * data_start m \<le> a"
  shows "view (write_bytes m a bs) oi = view m oi" "fs_ok (write_bytes m a bs)"
    "super (write_bytes m a bs) = super m"
proof -
  have lay: "fs_layout m" using assms(1) by (simp add: fs_ok_def)
  have lo: "inode_lo m \<le> a" using assms(2,3) by (simp add: inode_addr_def)
  note meta = same_meta_write_bytes [OF lo, of bs]
  show "fs_ok (write_bytes m a bs)" by (rule same_meta_fs_ok [OF assms(1) meta])
  show "super (write_bytes m a bs) = super m" by (rule same_meta_super [OF lay meta])
  show "view (write_bytes m a bs) oi = view m oi"
    using assms(2,3) by (simp add: view_def same_meta_free_set [OF lay meta] mem_simps inode_addr_def)
qed

lemma small_reg_cong:
  "view m' oi = view m oi \<Longrightarrow> fs_ok m' \<Longrightarrow> super m' = super m \<Longrightarrow> small_reg m oi \<Longrightarrow> small_reg m' oi"
  using inode_addr_cong [of m' m oi] small_file_cong [of m' m]
  by (auto simp: small_reg_def view_def)

lemma write_chunk:
  assumes "small_reg m oi" "f_pos + length bs \<le> unat (oi_size (inode_at m oi))"
    "length bs \<le> 1024 - f_pos mod 1024" "0 < length bs"
  defines "m1 \<equiv> write_bytes m (ospfs_block (ospfs_inode_blockno m oi (of_nat f_pos)) + f_pos mod 1024) bs"
  shows "small_reg m1 oi" "inode_at m1 oi = inode_at m oi" "free_set m1 = free_set m" "super m1 = super m"
    "\<And>off. off < unat (oi_size (inode_at m oi)) \<Longrightarrow> file_byte m1 oi off =
      (if f_pos \<le> off \<and> off < f_pos + length bs then bs ! (off - f_pos) else file_byte m oi off)"
proof -
  let ?i = "inode_at m oi"
  have f: "f_pos < unat (oi_size ?i)" using assms(2,4) by linarith
  have a: "ospfs_block (ospfs_inode_blockno m oi (of_nat f_pos)) + f_pos mod 1024 = slot_addr ?i f_pos"
    using small_blockno [OF assms(1) f] small_slot [of ?i f_pos] small_block(3) [OF assms(1), of "f_pos div 1024"] f assms(1)
    by (simp add: slot_addr_def small_reg_def)
  have meta: "view m1 oi = view m oi" "fs_ok m1" "super m1 = super m"
    unfolding m1_def a using assms(1) slot_addr_lo [OF assms(1) f]
    by (auto simp: small_reg_def intro: write_data_meta)
  then show "inode_at m1 oi = ?i" "free_set m1 = free_set m" "super m1 = super m" by (simp_all add: view_def)
  show reg: "small_reg m1 oi" by (rule small_reg_cong [OF meta assms(1)])
  fix off assume off: "off < unat (oi_size ?i)"
  have at: "slot_addr ?i (f_pos + j) = slot_addr ?i f_pos + j" if "j < length bs" for j
    using block_div_mod [of f_pos j] that assms(3) by (simp add: slot_addr_def)
  have "file_byte m1 oi off = m1 (slot_addr ?i off)"
    using small_blockno(2) [OF reg, of off] off meta(1) by (simp add: file_byte_def view_def)
  also have "\<dots> = (if f_pos \<le> off \<and> off < f_pos + length bs then bs ! (off - f_pos) else m (slot_addr ?i off))"
  proof (cases "f_pos \<le> off \<and> off < f_pos + length bs")
    case True
    then obtain j where j: "off = f_pos + j" "j < length bs" by (metis add_less_cancel_left le_Suc_ex)
    then show ?thesis unfolding m1_def a j(1) at [OF j(2)] by (simp add: write_bytes_def)
  next
    case False
    have "\<not> (slot_addr ?i f_pos \<le> slot_addr ?i off \<and> slot_addr ?i off < slot_addr ?i f_pos + length bs)"
    proof
      assume *: "slot_addr ?i f_pos \<le> slot_addr ?i off \<and> slot_addr ?i off < slot_addr ?i f_pos + length bs"
      define j where "j = slot_addr ?i off - slot_addr ?i f_pos"
      have j: "j < length bs" "slot_addr ?i off = slot_addr ?i (f_pos + j)" using * at [of j] by (auto simp: j_def)
      then have "off = f_pos + j" using slot_addr_inj [OF assms(1) off _ j(2)] assms(2) by simp
      with j False show False by simp
    qed
    then show ?thesis using False unfolding m1_def a write_bytes_def by auto
  qed
  also have "m (slot_addr ?i off) = file_byte m oi off"
    using small_blockno(2) [OF assms(1) off] by (simp add: file_byte_def)
  finally show "file_byte m1 oi off =
      (if f_pos \<le> off \<and> off < f_pos + length bs then bs ! (off - f_pos) else file_byte m oi off)" .
qed


text \<open>The write loop, with a user buffer \<open>data\<close> that can be read.\<close>

lemma write_loop_small:
  assumes "small_reg m oi" "amount \<le> count" "length data = count"
    "f_pos + (count - amount) \<le> unat (oi_size (inode_at m oi))"
    "\<And>off n. off + n \<le> count \<Longrightarrow> cfu off n = (take n (drop off data), 0)"
  shows "\<exists>m'. write_loop m oi cfu count amount f_pos = (Inr count, f_pos + (count - amount), m') \<and>
    small_reg m' oi \<and> inode_at m' oi = inode_at m oi \<and> free_set m' = free_set m \<and> super m' = super m \<and>
    (\<forall>off < unat (oi_size (inode_at m oi)). file_byte m' oi off =
      (if f_pos \<le> off \<and> off < f_pos + (count - amount) then data ! (amount + (off - f_pos))
       else file_byte m oi off))"
  using assms
proof (induction m oi cfu count amount f_pos rule: write_loop.induct)
  case (1 m oi cfu count amount f_pos)
  show ?case
  proof (cases "amount < count")
    case False
    then show ?thesis using 1(2,3) by (auto simp: write_loop.simps [of m])
  next
    case True
    define n where "n = chunk_len f_pos (count - amount)"
    define b where "b = ospfs_inode_blockno m oi (of_nat f_pos)"
    define bs where "bs = take n (drop amount data)"
    define m1 where "m1 = write_bytes m (ospfs_block b + f_pos mod 1024) bs"
    have n: "n \<le> count - amount" "0 < n" "n \<le> 1024 - f_pos mod 1024"
      using chunk_len [where f_pos = f_pos and left = "count - amount"] True by (simp_all add: n_def)
    have len: "length bs = n" using n True 1(4) by (simp add: bs_def)
    have b: "b \<noteq> 0"
      using mapped_small [OF 1(2)] 1(5) True by (simp add: mapped_def b_def)
    have cfu: "cfu amount n = (bs, 0)" using 1(6) [of amount n] n True by (simp add: bs_def)
    note chunk = write_chunk [OF 1(2), of f_pos bs, folded b_def, folded m1_def, unfolded len]
    have pre: "f_pos + n \<le> unat (oi_size (inode_at m oi))" using 1(5) n by simp
    note c = chunk [OF pre n(3,2)]
    have loop: "write_loop m oi cfu count amount f_pos = write_loop m1 oi cfu count (amount + n) (f_pos + n)"
      using True b cfu by (subst write_loop.simps) (simp add: Let_def b_def [symmetric] n_def [symmetric] m1_def)
    obtain m' where m': "write_loop m1 oi cfu count (amount + n) (f_pos + n) =
        (Inr count, f_pos + n + (count - (amount + n)), m')"
      "small_reg m' oi" "inode_at m' oi = inode_at m1 oi" "free_set m' = free_set m1" "super m' = super m1"
      "\<forall>off < unat (oi_size (inode_at m1 oi)). file_byte m' oi off =
        (if f_pos + n \<le> off \<and> off < f_pos + n + (count - (amount + n))
         then data ! (amount + n + (off - (f_pos + n))) else file_byte m1 oi off)"
    proof -
      note ih = "1.IH" [OF True b_def b refl n_def cfu [symmetric] refl m1_def]
      show thesis
        by (rule exE [OF ih]) (use c(1,2) n 1(3-6) that in \<open>simp_all\<close>)
    qed
    have "file_byte m' oi off = (if f_pos \<le> off \<and> off < f_pos + (count - amount) then data ! (amount + (off - f_pos))
        else file_byte m oi off)" if off: "off < unat (oi_size (inode_at m oi))" for off
      using m'(6) off n c(2) c(5) [OF off] 1(3,4) by (auto simp: bs_def)
    then show ?thesis
      using m'(1-5) c(2-4) n True by (intro exI [of _ m']) (auto simp: loop)
  qed
qed


section \<open>Properties\<close>

text \<open>Growing a small file keeps its bytes and reads back zeros in the blocks it adds.\<close>

lemma file_byte_grow:
  assumes "small_reg m oi" "extends m oi m'" "small_reg m' oi" "off < unat (oi_size (inode_at m oi))"
    "oi_direct (inode_at m' oi) ! (off div 1024) = oi_direct (inode_at m oi) ! (off div 1024)"
    "off < unat (oi_size (inode_at m' oi))"
  shows "file_byte m' oi off = file_byte m oi off"
proof -
  let ?b = "oi_direct (inode_at m oi) ! (off div 1024)"
  have k: "off div 1024 < nblk (inode_at m oi)"
    using assms(1,4) by (simp add: small_slot small_reg_def)
  note b = small_block [OF assms(1) k]
  have "slot_addr (inode_at m oi) off div 1024 = unat ?b" by (simp add: slot_addr_def)
  moreover have "data_start m \<le> unat ?b" using b(1) by (simp add: data_block_def)
  ultimately have "m' (slot_addr (inode_at m oi) off) = m (slot_addr (inode_at m oi) off)"
    using assms(2) b(2) unfolding extends_def by blast
  then show ?thesis
    using assms(5) small_blockno(2) [OF assms(1,4)] small_blockno(2) [OF assms(3,6)]
    by (simp add: file_byte_def slot_addr_def)
qed

lemma spec_add_fields:
  "oi_direct (fst (spec_add u)) = (oi_direct (fst u))[nblk (fst u) := Min (snd u)]"
  "oi_ftype (fst (spec_add u)) = oi_ftype (fst u)" "oi_nlink (fst (spec_add u)) = oi_nlink (fst u)"
  by (simp_all add: spec_add_def split: prod.splits)

lemma spec_add_ftype: "oi_ftype (fst ((spec_add ^^ d) v)) = oi_ftype (fst v)"
  by (induction d) (simp_all add: spec_add_fields)

lemma spec_add_direct:
  "small_file P v \<Longrightarrow> nblk (fst v) + d \<le> 10 \<Longrightarrow> d \<le> card (snd v) \<Longrightarrow> j < nblk (fst v) \<Longrightarrow>
   oi_direct (fst ((spec_add ^^ d) v)) ! j = oi_direct (fst v) ! j"
proof (induction d)
  case (Suc d)
  then have n: "nblk (fst ((spec_add ^^ d) v)) = nblk (fst v) + d"
    using funpow_remove_add [of P v d] by simp
  show ?case
    using Suc n by (simp add: spec_add_fields)
qed simp

lemma write_grow:
  assumes reg: "small_reg m oi" and new: "unat (oi_size (inode_at m oi)) \<le> unat new" "unat new \<le> 10240"
    and room: "unat (ospfs_size2nblocks new) - nblk (inode_at m oi) \<le> card (free_set m)"
  shows "\<exists>m'. change_size m oi new = Some (Inr (), m') \<and> small_reg m' oi \<and>
    oi_size (inode_at m' oi) = new \<and> super m' = super m \<and>
    (\<forall>off < unat (oi_size (inode_at m oi)). file_byte m' oi off = file_byte m oi off)"
proof -
  have ok: "fs_ok m" "inode_addr m oi" "small_file (data_block m) (view m oi)"
    and sz: "oi_size (inode_at m oi) \<le> 10240" "oi_ftype (inode_at m oi) \<noteq> 2"
    using reg by (simp_all add: small_reg_def)
  let ?w = "unat (ospfs_size2nblocks new)" and ?k = "nblk (inode_at m oi)"
  have w: "?w = (unat new + 1023) div 1024" using new by (simp add: unat_size2nblocks)
  have kw: "?k \<le> ?w" "?w \<le> 10"
    using new by (simp_all add: w small_nblk [OF sz(1)] div_le_mono)
  obtain m' where m': "change_size m oi new = Some (Inr (), m')"
      "view m' oi = snd (spec_change (view m oi) new)" "fs_ok m'" "super m' = super m" "extends m oi m'"
    using change_size_grow [OF ok kw room] by blast
  have v: "view m' oi = (fst ((spec_add ^^ (?w - ?k)) (view m oi))\<lparr>oi_size := new\<rparr>,
      snd ((spec_add ^^ (?w - ?k)) (view m oi)))"
    using m'(2) kw room by (simp add: spec_change_def Let_def)
  then have i: "inode_at m' oi = fst ((spec_add ^^ (?w - ?k)) (view m oi))\<lparr>oi_size := new\<rparr>"
    by (simp add: view_def)
  note d = spec_add_direct [OF ok(3), of "?w - ?k"]
  have "small_file (data_block m) (view m' oi)"
    unfolding m'(2) by (rule small_file_spec_change [OF ok(3)]) (simp add: word_le_nat_alt kw(2))
  moreover have "oi_ftype (inode_at m' oi) = oi_ftype (inode_at m oi)"
    by (simp add: i spec_add_ftype)
  ultimately have reg': "small_reg m' oi"
    using m'(3,4) ok(2) sz(2) new
    by (simp add: small_reg_def small_file_cong [OF m'(4)] inode_addr_cong [OF m'(4)] i word_le_nat_alt)
  have "file_byte m' oi off = file_byte m oi off" if off: "off < unat (oi_size (inode_at m oi))" for off
    using d [of "off div 1024"] small_slot [OF sz(1) off] kw room new off
    by (intro file_byte_grow [OF reg m'(5) reg' off]) (simp_all add: i)
  then show ?thesis using m'(1,4) reg' by (intro exI [of _ m']) (simp add: i)
qed

text \<open>C5: on a well-formed disk, a write (at the file position, or at the end of the file when the file
is open for appending) to a file of at most ten blocks, whose range ends within ten blocks and for
which there are enough free blocks, and whose data can be copied, stores \<open>count\<close> bytes: afterwards the
file holds the data from the position on, its other bytes as before, and is as long as the old file
or the written range; disk and file stay well-formed.\<close>

theorem ospfs_write_file:
  assumes "fs_ok m" "ospfs_inode m ino = Some oi" "small_file (data_block m) (view m oi)"
    "oi_size (inode_at m oi) \<le> 10240" "oi_ftype (inode_at m oi) \<noteq> OSPFS_FTYPE_SYMLINK"
    and data: "length data = unat count"
      "\<And>off n. off + n \<le> unat count \<Longrightarrow> copy_from_user off n = (take n (drop off data), 0)"
    and pos: "f_pos = (if o_append then unat (oi_size (inode_at m oi)) else pos)"
    and fit: "f_pos + unat count \<le> 10240"
      "(f_pos + unat count + 1023) div 1024 - nblk (inode_at m oi) \<le> card (free_set m)"
  shows "\<exists>m'. ospfs_write m ino o_append copy_from_user count pos =
      Some (Inr (unat count), f_pos + unat count, m') \<and>
    fs_ok m' \<and> small_file (data_block m') (view m' oi) \<and> super m' = super m \<and>
    length (file_bytes m' oi) = max (length (file_bytes m oi)) (f_pos + unat count) \<and>
    (\<forall>off < length (file_bytes m' oi).
       (f_pos \<le> off \<and> off < f_pos + unat count \<longrightarrow> file_bytes m' oi ! off = data ! (off - f_pos)) \<and>
       (off < length (file_bytes m oi) \<and> \<not> (f_pos \<le> off \<and> off < f_pos + unat count) \<longrightarrow>
          file_bytes m' oi ! off = file_bytes m oi ! off))"
proof -
  have reg: "small_reg m oi"
    using assms(1-5) inode_addr_ospfs_inode [of m ino oi] by (simp add: small_reg_def fs_ok_def)
  let ?s = "unat (oi_size (inode_at m oi))"
  have "unat count + f_pos < 4294967296" using fit(1) by simp
  then have sum: "unat (count + of_nat f_pos) = unat count + f_pos"
    by (simp add: unat_plus_u32 unat_of_nat take_bit_eq_mod)
  obtain m1 where m1: "(if unat count + f_pos > ?s then change_size m oi (count + of_nat f_pos) else Some (Inr (), m))
        = Some (Inr (), m1)"
      "small_reg m1 oi" "unat (oi_size (inode_at m1 oi)) = max ?s (f_pos + unat count)" "super m1 = super m"
      "\<And>off. off < ?s \<Longrightarrow> file_byte m1 oi off = file_byte m oi off"
  proof (cases "unat count + f_pos > ?s")
    case True
    have "unat (ospfs_size2nblocks (count + of_nat f_pos)) = (f_pos + unat count + 1023) div 1024"
      using fit(1) by (subst unat_size2nblocks) (simp_all add: sum add.commute)
    then show thesis
      using write_grow [OF reg, of "count + of_nat f_pos"] True fit that by (auto simp: sum add.commute)
  qed (use reg that in auto)
  obtain m2 where m2: "write_loop m1 oi copy_from_user (unat count) 0 f_pos = (Inr (unat count), f_pos + unat count, m2)"
      "small_reg m2 oi" "inode_at m2 oi = inode_at m1 oi" "super m2 = super m1"
      "\<forall>off < unat (oi_size (inode_at m1 oi)). file_byte m2 oi off =
        (if f_pos \<le> off \<and> off < f_pos + unat count then data ! (off - f_pos) else file_byte m1 oi off)"
    using write_loop_small [OF m1(2), of 0 "unat count" data f_pos copy_from_user] data m1(3) by auto
  have "ospfs_write m ino o_append copy_from_user count pos = Some (Inr (unat count), f_pos + unat count, m2)"
    using m1(1) m2(1) assms(2) by (simp add: ospfs_write_def pos [symmetric])
  then show ?thesis
    using m2(2-5) m1(3-5) by (intro exI [of _ m2]) (auto simp: small_reg_def file_bytes_def)
qed

lemma small_reg_demo: "small_reg demo_disk 3200"
  using fs_ok_demo small_file_demo demo_start
  by (simp add: small_reg_def inode_addr_def inode_at_demo)

lemma file_demo: "file_bytes demo_disk 3200 = [97, 98, 99]"
proof -
  have "file_byte demo_disk 3200 off = demo_disk (5120 + off)" if "off < 3" for off
  proof -
    have "ospfs_inode_data demo_disk 3200 (of_nat off) = slot_addr (inode_at demo_disk 3200) off"
      using that by (intro small_blockno small_reg_demo) (simp add: inode_at_demo)
    then show ?thesis using that by (simp add: file_byte_def slot_addr_def inode_at_demo)
  qed
  moreover have "demo_disk 5120 = 97" "demo_disk 5121 = 98" "demo_disk 5122 = 99"
    by (simp_all add: demo_disk_def store32_def)
  moreover have "unat (oi_size (inode_at demo_disk 3200)) = 3" by (simp add: inode_at_demo)
  moreover have "[0..<3] = [0, 1, 2]" by (simp add: upt_rec)
  ultimately show ?thesis by (simp add: file_bytes_def)
qed

lemma ospfs_read_aligned_witness:
  "ospfs_read demo_disk 2 (\<lambda>_ _. 0) 10 0 = Some (Inr 3, 3, [97, 98, 99])"
  using ospfs_read_aligned [OF inode_demo(2) mapped_small [OF small_reg_demo], of 0 "\<lambda>_ _. 0" 10]
  by (simp add: file_demo)

text \<open>inside one block, \<open>ospfs_read\<close> copies from the start of the block, not from the file
position: a read at \<open>f_pos\<close> returns the bytes at \<open>f_pos - f_pos mod 1024\<close>.\<close>

theorem ospfs_read_unaligned:
  assumes "ospfs_inode m ino = Some oi" "mapped m oi" "f_pos + unat count \<le> unat (oi_size (inode_at m oi))"
    "f_pos mod 1024 + unat count \<le> 1024" "\<And>off bs. copy_to_user off bs = 0"
  shows "ospfs_read m ino copy_to_user count f_pos =
    Some (Inr (unat count), f_pos + unat count,
      take (unat count) (drop (f_pos - f_pos mod 1024) (file_bytes m oi)))"
proof (cases "unat count = 0")
  case True
  then show ?thesis using assms(1,3)
    by (simp add: ospfs_read_def Let_def read_loop.simps)
next
  case False
  let ?b = "ospfs_inode_blockno m oi (of_nat f_pos)"
  have len: "chunk_len f_pos (unat count) = unat count" 
  proof -
    have "(if 1024 - r > c then c else 1024 - r) = c" if "r + c \<le> 1024" for r c :: nat
      using that by auto
    from this [OF assms(4)] show ?thesis by (simp only: chunk_len_def)
  qed
  have b: "?b \<noteq> 0" using assms(2,3) False by (simp add: mapped_def)
  let ?p = "f_pos - f_pos mod 1024"
  have p: "?p mod 1024 = 0" "?p div 1024 = f_pos div 1024" "?p \<le> f_pos"
    by (simp_all add: minus_mod_eq_mult_div)
  have f: "f_pos < unat (oi_size (inode_at m oi))" using assms(3) False by simp
  have u: "unat (of_nat f_pos :: u32) = f_pos" "unat (of_nat ?p :: u32) = ?p"
    using f by (auto intro!: unat_of_nat_lt [of _ "oi_size (inode_at m oi)"] simp del: of_nat_diff)
  have "ospfs_inode_blockno m oi (of_nat ?p) = ?b"
  proof (rule blockno_same_block)
    show "(of_nat ?p :: u32) div 1024 = of_nat f_pos div 1024"
      unfolding unat_eq_iff_u32 unat_div u using p by simp
    show "of_nat ?p < oi_size (inode_at m oi)" "of_nat f_pos < oi_size (inode_at m oi)"
      unfolding word_less_nat_alt u using f by simp_all
  qed
  moreover have "?p + unat count \<le> unat (oi_size (inode_at m oi))" using assms(3) p(3) by linarith
  ultimately have chunk: "read_bytes m (ospfs_block ?b) (unat count) = take (unat count) (drop ?p (file_bytes m oi))"
    using read_chunk [of ?p "unat count" m oi] assms(4) p by simp
  have "read_loop m oi copy_to_user (unat count) 0 f_pos [] =
      read_loop m oi copy_to_user (unat count) (unat count) (f_pos + unat count) (read_bytes m (ospfs_block ?b) (unat count))"
    using False b assms(5) by (subst read_loop.simps) (simp add: Let_def len)
  also have "\<dots> = (Inr (unat count), f_pos + unat count, read_bytes m (ospfs_block ?b) (unat count))"
    by (subst read_loop.simps) simp
  finally show ?thesis using assms(1,3) chunk by (simp add: ospfs_read_def Let_def)
qed

lemma ospfs_read_unaligned_witness:
  "ospfs_read demo_disk 2 (\<lambda>_ _. 0) 2 1 = Some (Inr 2, 3, [97, 98])"
  using ospfs_read_unaligned [OF inode_demo(2) mapped_small [OF small_reg_demo], of 1 2 "\<lambda>_ _. 0"]
  by (simp add: file_demo inode_at_demo)

lemma ospfs_write_file_witness:
  "\<exists>m'. ospfs_write demo_disk 2 False (\<lambda>off n. (take n (drop off [120, 121]), 0)) 2 2 = Some (Inr 2, 4, m') \<and>
     file_bytes m' 3200 = [97, 98, 120, 121]"
proof -
  have n: "nblk (inode_at demo_disk 3200) = 1" by (simp add: nblk_eq inode_at_demo)
  obtain m' where m': "ospfs_write demo_disk 2 False (\<lambda>off n. (take n (drop off [120, 121]), 0)) 2 2 = Some (Inr 2, 4, m')"
      "length (file_bytes m' 3200) = 4"
      "\<forall>off < 4. (2 \<le> off \<longrightarrow> file_bytes m' 3200 ! off = [120, 121] ! (off - 2)) \<and>
         (off < 2 \<longrightarrow> file_bytes m' 3200 ! off = file_bytes demo_disk 3200 ! off)"
    using ospfs_write_file [OF fs_ok_demo inode_demo(2) small_file_demo, of "[120, 121]" 2
        "\<lambda>off n. (take n (drop off [120, 121]), 0)" 2 False 2]
    by (auto simp: inode_at_demo n [unfolded inode_at_demo])
  have "file_bytes m' 3200 = [97, 98, 120, 121]"
  proof (rule nth_equalityI)
    fix i assume "i < length (file_bytes m' 3200)"
    then have "i = 0 \<or> i = 1 \<or> i = 2 \<or> i = 3" using m'(2) by auto
    then show "file_bytes m' 3200 ! i = [97, 98, 120, 121] ! i" using m'(3) by (auto simp: file_demo)
  qed (simp only: m'(2), simp)
  with m'(1) show ?thesis by blast
qed

section \<open>ospfs\_notify\_change\<close>

text \<open>
  The two flag bits of \<open>ia_valid\<close> that the code tests are separate fields; the kernel's
  \<open>inode_change_ok\<close> and \<open>inode_setattr\<close> are parameters.
\<close>

record iattr =
  ia_valid_size :: bool
  ia_valid_mode :: bool
  ia_size :: u32
  ia_mode :: u32

definition ospfs_notify_change ::
  "mem \<Rightarrow> u32 \<Rightarrow> iattr \<Rightarrow> (iattr \<Rightarrow> errno + unit) \<Rightarrow> (iattr \<Rightarrow> errno + unit) \<Rightarrow> ((errno + unit) \<times> mem) option" where
  "ospfs_notify_change m ino attr inode_change_ok inode_setattr =
     (let finish = (\<lambda>m. Some (case inode_change_ok attr of Inl e \<Rightarrow> (Inl e, m)
                       | Inr _ \<Rightarrow> (inode_setattr attr, m)));
          set_mode = (\<lambda>m. if ia_valid_mode attr
                       then case ospfs_inode m ino of None \<Rightarrow> None
                            | Some oi \<Rightarrow> finish (set_oi_mode m oi (ia_mode attr))
                       else finish m)
      in if ia_valid_size attr
         then case ospfs_inode m ino of None \<Rightarrow> None
              | Some oi \<Rightarrow>
                  if oi_ftype (inode_at m oi) = OSPFS_FTYPE_DIR then Some (Inl EPERM, m)
                  else (case change_size m oi (ia_size attr) of
                          None \<Rightarrow> None
                        | Some (Inl e, m1) \<Rightarrow> Some (Inl e, m1)
                        | Some (Inr _, m1) \<Rightarrow> set_mode m1)
         else set_mode m)"

text \<open>\<open>ospfs_notify_change\<close> stores the new mode before it asks \<open>inode_change_ok\<close>: a refused
change returns the error with the mode on disk already changed.\<close>

theorem notify_change_refused_mode:
  assumes "ospfs_inode m ino = Some oi" "\<not> ia_valid_size attr" "ia_valid_mode attr" "inode_change_ok attr = Inl e"
  shows "\<exists>m'. ospfs_notify_change m ino attr inode_change_ok inode_setattr = Some (Inl e, m') \<and>
    oi_mode (inode_at m' oi) = ia_mode attr"
  using assms by (simp add: ospfs_notify_change_def mem_simps)

lemma notify_change_refused_mode_witness:
  "\<exists>m'. ospfs_notify_change demo_disk 2
      \<lparr>ia_valid_size = False, ia_valid_mode = True, ia_size = 0, ia_mode = 0x1FF\<rparr> (\<lambda>_. Inl EPERM) (\<lambda>_. Inr ()) =
    Some (Inl EPERM, m') \<and> oi_mode (inode_at m' 3200) = 0x1FF"
  using notify_change_refused_mode [OF inode_demo(2),
    of "\<lparr>ia_valid_size = False, ia_valid_mode = True, ia_size = 0, ia_mode = 0x1FF\<rparr>" "\<lambda>_. Inl EPERM" EPERM]
  by simp
end
