(* ===== verification/Ospfs_Dir.thy ===== *)
theory Ospfs_Dir
  imports Ospfs_File
begin

text \<open>
  Directories, links and the module's view of inodes (\<^verbatim>\<open>Lab3/ospfsmod.c\<close>): lookup and
  readdir, unlink, \<open>find_direntry\<close>, \<open>create_blank_direntry\<close>, link, create, symlink and
  follow\_link. A \<open>dentry\<close> is given by its name and the inode numbers the code reads from
  it. \<open>None\<close> stands for a null pointer dereference, a panic, or a loop that never ends.
  The abstract directory is the list \<open>dir_entries\<close> of pairs of inode number and name.
\<close>

section \<open>Strings\<close>

text \<open>
  \<open>strlen\<close> and \<open>strchr\<close> run until they meet the character or a null byte. The test
  \<open>strlen(od->od_name) == len && memcmp(od->od_name, name, len) == 0\<close> is \<open>name_eq\<close>.
\<close>

partial_function (option) strlen_from :: "mem \<Rightarrow> nat \<Rightarrow> nat \<Rightarrow> nat option" where
  "strlen_from m a n = (if m (a + n) = 0 then Some n else strlen_from m a (n + 1))"

abbreviation strlen_mem :: "mem \<Rightarrow> nat \<Rightarrow> nat option" where
  "strlen_mem m a \<equiv> strlen_from m a 0"

partial_function (option) strchr_mem :: "mem \<Rightarrow> nat \<Rightarrow> u8 \<Rightarrow> nat option option" where
  "strchr_mem m a c = (if m a = c then Some (Some a) else if m a = 0 then Some None
     else strchr_mem m (a + 1) c)"

definition name_eq :: "mem \<Rightarrow> nat \<Rightarrow> u8 list \<Rightarrow> bool" where
  "name_eq m a name \<longleftrightarrow> list_all (\<lambda>i. m (a + i) \<noteq> 0) [0..<length name] \<and>
     m (a + length name) = 0 \<and> read_bytes m a (length name) = name"

definition strncpy_bytes :: "u8 list \<Rightarrow> nat \<Rightarrow> u8 list" where
  "strncpy_bytes src n = (let s = takeWhile (\<lambda>c. c \<noteq> 0) (take n src)
     in s @ replicate (n - length s) 0)"

section \<open>Linux inodes\<close>

datatype inode_ops = ospfs_reg_ops | ospfs_dir_ops | ospfs_symlink_ops

record linux_inode =
  i_ino :: u32
  i_uid :: u32
  i_gid :: u32
  i_size :: u32
  i_mode :: u32
  i_nlink :: u32
  i_op :: inode_ops

text \<open>
  \<open>None\<close> is \<open>panic\<close>, \<open>Some None\<close> the null pointer. The kernel's \<open>new_inode\<close> is the parameter
  \<open>new_inode_ok\<close>: whether it returns an inode.
\<close>

definition ospfs_mk_linux_inode :: "mem \<Rightarrow> bool \<Rightarrow> u32 \<Rightarrow> linux_inode option option" where
  "ospfs_mk_linux_inode m new_inode_ok ino =
     (case ospfs_inode m ino of None \<Rightarrow> Some None
      | Some oi \<Rightarrow>
          if \<not> new_inode_ok then Some None
          else
            let i = inode_at m oi;
                inode = \<lparr>i_ino = ino, i_uid = 0, i_gid = 0, i_size = oi_size i,
                  i_mode = 0, i_nlink = 0, i_op = ospfs_reg_ops\<rparr>
            in if oi_ftype i = OSPFS_FTYPE_REG then
                 Some (Some (inode\<lparr>i_mode := oi_mode i OR 0x8000, i_op := ospfs_reg_ops,
                   i_nlink := oi_nlink i\<rparr>))
               else if oi_ftype i = OSPFS_FTYPE_DIR then
                 Some (Some (inode\<lparr>i_mode := oi_mode i OR 0x4000, i_op := ospfs_dir_ops,
                   i_nlink := oi_nlink i + 1\<rparr>))
               else if oi_ftype i = OSPFS_FTYPE_SYMLINK then
                 Some (Some (inode\<lparr>i_mode := 0x1FF OR 0xA000, i_op := ospfs_symlink_ops,
                   i_nlink := oi_nlink i\<rparr>))
               else None)"

text \<open>\<open>ospfs_fill_super\<close>: the mount succeeds when the root inode and its dentry exist.\<close>

definition ospfs_fill_super :: "mem \<Rightarrow> bool \<Rightarrow> (linux_inode \<Rightarrow> bool) \<Rightarrow> (errno + linux_inode) option" where
  "ospfs_fill_super m new_inode_ok d_alloc_root =
     (case ospfs_mk_linux_inode m new_inode_ok OSPFS_ROOT_INO of None \<Rightarrow> None
      | Some None \<Rightarrow> Some (Inl ENOMEM)
      | Some (Some inode) \<Rightarrow> Some (if d_alloc_root inode then Inr inode else Inl ENOMEM))"

definition ospfs_delete_dentry :: int where
  "ospfs_delete_dentry = 1"

section \<open>Looking up names\<close>

partial_function (option) lookup_loop ::
  "mem \<Rightarrow> bool \<Rightarrow> nat \<Rightarrow> u8 list \<Rightarrow> u32 \<Rightarrow> (errno + linux_inode option) option" where
  "lookup_loop m new_inode_ok dir_oi name entry_off =
     (if entry_off < oi_size (inode_at m dir_oi) then
        let od = ospfs_inode_data m dir_oi entry_off in
        if od_ino (direntry_at m od) > 0 \<and> name_eq m (od + 4) name then
          case ospfs_mk_linux_inode m new_inode_ok (od_ino (direntry_at m od)) of
            None \<Rightarrow> None
          | Some None \<Rightarrow> Some (Inl EINVAL)
          | Some (Some inode) \<Rightarrow> Some (Inr (Some inode))
        else lookup_loop m new_inode_ok dir_oi name (entry_off + OSPFS_DIRENTRY_SIZE)
      else Some (Inr None))"

definition ospfs_dir_lookup ::
  "mem \<Rightarrow> bool \<Rightarrow> u32 \<Rightarrow> u8 list \<Rightarrow> (errno + linux_inode option) option" where
  "ospfs_dir_lookup m new_inode_ok dir_ino name =
     (if length name > OSPFS_MAXNAMELEN then Some (Inl ENAMETOOLONG)
      else case ospfs_inode m dir_ino of None \<Rightarrow> None
      | Some dir_oi \<Rightarrow> lookup_loop m new_inode_ok dir_oi name 0)"

partial_function (option) find_loop :: "mem \<Rightarrow> nat \<Rightarrow> u8 list \<Rightarrow> u32 \<Rightarrow> nat option option" where
  "find_loop m dir_oi name off =
     (if off < oi_size (inode_at m dir_oi) then
        let od = ospfs_inode_data m dir_oi off in
        if od_ino (direntry_at m od) \<noteq> 0 \<and> name_eq m (od + 4) name then Some (Some od)
        else find_loop m dir_oi name (off + OSPFS_DIRENTRY_SIZE)
      else Some None)"

definition find_direntry :: "mem \<Rightarrow> nat \<Rightarrow> u8 list \<Rightarrow> nat option option" where
  "find_direntry m dir_oi name = find_loop m dir_oi name 0"

section \<open>Listing a directory\<close>

datatype dtype = DT_REG | DT_DIR | DT_LNK

text \<open>
  The kernel's \<open>filldir\<close> is a parameter with a state of its own; it is given name, position,
  inode number and type. The result is the return value, the new \<open>f_pos\<close> and that state;
  \<open>None\<close> stands for a null pointer dereference or an endless loop.
\<close>

definition dtype_of :: "u32 \<Rightarrow> dtype option" where
  "dtype_of t = (if t = OSPFS_FTYPE_REG then Some DT_REG
     else if t = OSPFS_FTYPE_DIR then Some DT_DIR
     else if t = OSPFS_FTYPE_SYMLINK then Some DT_LNK else None)"

partial_function (option) readdir_loop ::
  "mem \<Rightarrow> nat \<Rightarrow> ('s \<Rightarrow> u8 list \<Rightarrow> u32 \<Rightarrow> u32 \<Rightarrow> dtype \<Rightarrow> int \<times> 's) \<Rightarrow> u32 \<Rightarrow> 's
     \<Rightarrow> ((errno + int) \<times> u32 \<times> 's) option" where
  "readdir_loop m dir_oi filldir f_pos s =
     (if f_pos \<ge> 2 then
        if OSPFS_DIRENTRY_SIZE * (f_pos - 2) \<ge> oi_size (inode_at m dir_oi) then Some (Inr 1, f_pos, s)
        else
          let od = ospfs_inode_data m dir_oi (OSPFS_DIRENTRY_SIZE * (f_pos - 2));
              ino = od_ino (direntry_at m od)
          in if ino = 0 then readdir_loop m dir_oi filldir (f_pos + 1) s
             else
               case ospfs_inode m ino of None \<Rightarrow> None
               | Some entry_oi \<Rightarrow>
                   case dtype_of (oi_ftype (inode_at m entry_oi)) of
                     None \<Rightarrow> Some (Inl EPERM, f_pos, s)
                   | Some type \<Rightarrow>
                       case strlen_mem m (od + 4) of None \<Rightarrow> None
                       | Some len \<Rightarrow>
                           case filldir s (read_bytes m (od + 4) len) f_pos ino type of
                             (ok_so_far, s1) \<Rightarrow>
                               if ok_so_far < 0 then Some (Inr 0, f_pos, s1)
                               else readdir_loop m dir_oi filldir (f_pos + 1) s1
      else Some (Inr 0, f_pos, s))"

text \<open>The early \<open>return -1\<close> leaves \<open>filp->f_pos\<close> as it was.\<close>

definition ospfs_dir_readdir ::
  "mem \<Rightarrow> u32 \<Rightarrow> u32 \<Rightarrow> ('s \<Rightarrow> u8 list \<Rightarrow> u32 \<Rightarrow> u32 \<Rightarrow> dtype \<Rightarrow> int \<times> 's) \<Rightarrow> u32 \<Rightarrow> 's
     \<Rightarrow> ((errno + int) \<times> u32 \<times> 's) option" where
  "ospfs_dir_readdir m dir_ino parent_ino filldir f_pos0 s =
     (case ospfs_inode m dir_ino of None \<Rightarrow> None
      | Some dir_oi \<Rightarrow>
          let (ok1, f_pos1, s1) =
                (if f_pos0 = 0 then
                   case filldir s [46] f_pos0 dir_ino DT_DIR of
                     (ok, s1) \<Rightarrow> (ok, if ok \<ge> 0 then f_pos0 + 1 else f_pos0, s1)
                 else (0, f_pos0, s));
              (ok2, f_pos2, s2) =
                (if ok1 \<ge> 0 \<and> f_pos1 = 1 then
                   case filldir s1 [46, 46] f_pos1 parent_ino DT_DIR of
                     (ok, s2) \<Rightarrow> (ok, if ok \<ge> 0 then f_pos1 + 1 else f_pos1, s2)
                 else (ok1, f_pos1, s1))
          in if ok2 \<ge> 0 then
               case readdir_loop m dir_oi filldir f_pos2 s2 of
                 None \<Rightarrow> None
               | Some (Inl e, f_pos, s3) \<Rightarrow> Some (Inl e, f_pos0, s3)
               | Some (Inr r, f_pos, s3) \<Rightarrow> Some (Inr r, f_pos, s3)
             else Some (Inr 0, f_pos2, s2))"

section \<open>Removing names\<close>

text \<open>The loop of \<open>ospfs_unlink\<close> returns the final \<open>entry_off\<close> and \<open>od\<close>.\<close>

partial_function (option) unlink_loop ::
  "mem \<Rightarrow> nat \<Rightarrow> u8 list \<Rightarrow> u32 \<Rightarrow> nat \<Rightarrow> (u32 \<times> nat) option" where
  "unlink_loop m dir_oi name entry_off od =
     (if entry_off < oi_size (inode_at m dir_oi) then
        let od = ospfs_inode_data m dir_oi entry_off in
        if od_ino (direntry_at m od) > 0 \<and> name_eq m (od + 4) name then Some (entry_off, od)
        else unlink_loop m dir_oi name (entry_off + OSPFS_DIRENTRY_SIZE) od
      else Some (entry_off, od))"

definition ospfs_unlink :: "mem \<Rightarrow> u32 \<Rightarrow> u32 \<Rightarrow> u8 list \<Rightarrow> ((errno + unit) \<times> mem) option" where
  "ospfs_unlink m ino dir_ino name =
     (case (ospfs_inode m ino, ospfs_inode m dir_ino) of
        (Some oi, Some dir_oi) \<Rightarrow>
          (case unlink_loop m dir_oi name 0 0 of None \<Rightarrow> None
           | Some (entry_off, od) \<Rightarrow>
               if entry_off = oi_size (inode_at m dir_oi) then Some (Inl ENOENT, m)
               else
                 let m1 = (if oi_ftype (inode_at m oi) = OSPFS_FTYPE_SYMLINK
                           then (store32 m oi 0)(oi + 12 := 0) else m);
                     m2 = store32 m1 od 0;
                     m3 = set_oi_nlink m2 oi (oi_nlink (inode_at m2 oi) - 1)
                 in if oi_nlink (inode_at m3 oi) = 0
                    then case change_size m3 oi 0 of None \<Rightarrow> None | Some (_, m4) \<Rightarrow> Some (Inr (), m4)
                    else Some (Inr (), m3))
      | _ \<Rightarrow> None)"

section \<open>Adding names\<close>

partial_function (option) blank_loop :: "mem \<Rightarrow> nat \<Rightarrow> u32 \<Rightarrow> (nat + u32) option" where
  "blank_loop m dir_oi off =
     (if off < oi_size (inode_at m dir_oi) then
        let od = ospfs_inode_data m dir_oi off in
        if od_ino (direntry_at m od) = 0 then Some (Inl od)
        else blank_loop m dir_oi (off + OSPFS_DIRENTRY_SIZE)
      else Some (Inr off))"

definition create_blank_direntry :: "mem \<Rightarrow> nat \<Rightarrow> ((errno + nat) \<times> mem) option" where
  "create_blank_direntry m dir_oi =
     (case blank_loop m dir_oi 0 of None \<Rightarrow> None
      | Some (Inl od) \<Rightarrow> Some (Inr od, m)
      | Some (Inr off) \<Rightarrow>
          (case change_size m dir_oi (oi_size (inode_at m dir_oi) + OSPFS_DIRENTRY_SIZE) of
             None \<Rightarrow> None
           | Some (Inl e, m1) \<Rightarrow> Some (Inl e, m1)
           | Some (Inr _, m1) \<Rightarrow> Some (Inr (ospfs_inode_data m1 dir_oi off), m1)))"

text \<open>The entry's name: \<open>strncpy\<close> and the terminating null byte.\<close>

definition set_od_name :: "mem \<Rightarrow> nat \<Rightarrow> u8 list \<Rightarrow> mem" where
  "set_od_name m od name =
     (write_bytes m (od + 4) (strncpy_bytes name (length name)))(od + 4 + length name := 0)"

definition ospfs_link :: "mem \<Rightarrow> u32 \<Rightarrow> u32 \<Rightarrow> u8 list \<Rightarrow> ((errno + unit) \<times> mem) option" where
  "ospfs_link m src_ino dir_ino name =
     (if length name > OSPFS_MAXNAMELEN then Some (Inl ENAMETOOLONG, m)
      else case ospfs_inode m dir_ino of None \<Rightarrow> None
      | Some dir_oi \<Rightarrow>
          case find_direntry m dir_oi name of None \<Rightarrow> None
          | Some (Some _) \<Rightarrow> Some (Inl EEXIST, m)
          | Some None \<Rightarrow>
              case create_blank_direntry m dir_oi of None \<Rightarrow> None
              | Some (Inl e, m1) \<Rightarrow> Some (Inl e, m1)
              | Some (Inr od, m1) \<Rightarrow>
                  let m2 = store32 (set_od_name m1 od name) od src_ino in
                  case ospfs_inode m2 src_ino of None \<Rightarrow> None
                  | Some oi_node \<Rightarrow>
                      Some (Inr (), set_oi_nlink m2 oi_node (oi_nlink (inode_at m2 oi_node) + 1)))"

text \<open>The search for an inode with link count 0 starts at inode 0.\<close>

function free_inode :: "mem \<Rightarrow> u32 \<Rightarrow> u32" where
  "free_inode m entry_ino =
     (if entry_ino < os_ninodes (super m) then
        case ospfs_inode m entry_ino of
          Some oi \<Rightarrow> if oi_nlink (inode_at m oi) = 0 then entry_ino else free_inode m (entry_ino + 1)
        | None \<Rightarrow> entry_ino
      else entry_ino)"
  by pat_completeness auto
termination
  by (relation "measure (\<lambda>(m, i). unat (os_ninodes (super m)) - unat i)")
    (auto simp: word_less_nat_alt unat_plus_one_u32 [unfolded word_less_nat_alt])

declare free_inode.simps [simp del]

text \<open>The assignments of \<open>ospfs_create\<close> to the new inode, in its order.\<close>

primrec clear_direct :: "mem \<Rightarrow> nat \<Rightarrow> nat \<Rightarrow> mem" where
  "clear_direct m oi 0 = m"
| "clear_direct m oi (Suc i) = set_oi_direct (clear_direct m oi i) oi i 0"

definition init_reg_inode :: "mem \<Rightarrow> nat \<Rightarrow> u32 \<Rightarrow> mem" where
  "init_reg_inode m oi mode =
     clear_direct (set_oi_indirect2 (set_oi_indirect (set_oi_nlink (set_oi_mode
       (set_oi_ftype (set_oi_size m oi 0) oi OSPFS_FTYPE_REG) oi mode) oi 1) oi 0) oi 0) oi 10"

definition ospfs_create ::
  "mem \<Rightarrow> bool \<Rightarrow> u32 \<Rightarrow> u8 list \<Rightarrow> u32 \<Rightarrow> ((errno + linux_inode) \<times> mem) option" where
  "ospfs_create m new_inode_ok dir_ino name mode =
     (if length name > OSPFS_MAXNAMELEN then Some (Inl ENAMETOOLONG, m)
      else case ospfs_inode m dir_ino of None \<Rightarrow> None
      | Some dir_oi \<Rightarrow>
          case find_direntry m dir_oi name of None \<Rightarrow> None
          | Some (Some _) \<Rightarrow> Some (Inl EEXIST, m)
          | Some None \<Rightarrow>
              let entry_ino = free_inode m 0 in
              if entry_ino = os_ninodes (super m) then Some (Inl ENOSPC, m)
              else case ospfs_inode m entry_ino of None \<Rightarrow> None
              | Some rf_node \<Rightarrow>
                  case create_blank_direntry m dir_oi of None \<Rightarrow> None
                  | Some (Inl e, m1) \<Rightarrow> Some (Inl e, m1)
                  | Some (Inr od, m1) \<Rightarrow>
                      let m2 = init_reg_inode m1 rf_node mode;
                          m3 = set_od_name (store32 m2 od entry_ino) od name
                      in case ospfs_mk_linux_inode m3 new_inode_ok entry_ino of None \<Rightarrow> None
                         | Some None \<Rightarrow> Some (Inl ENOMEM, m3)
                         | Some (Some i) \<Rightarrow> Some (Inr i, m3))"

text \<open>The assignments of \<open>ospfs_symlink\<close>: \<open>symname\<close> is the C string's characters.\<close>

definition init_symlink :: "mem \<Rightarrow> nat \<Rightarrow> u8 list \<Rightarrow> mem" where
  "init_symlink m oi symname =
     (let len = length symname;
          m1 = set_oi_ftype (set_oi_nlink (set_oi_size m oi (of_nat len)) oi 1) oi OSPFS_FTYPE_SYMLINK
      in (write_bytes m1 (oi + 12) (strncpy_bytes symname len))(oi + 12 + len := 0))"

definition ospfs_symlink ::
  "mem \<Rightarrow> bool \<Rightarrow> u32 \<Rightarrow> u8 list \<Rightarrow> u8 list \<Rightarrow> ((errno + linux_inode) \<times> mem) option" where
  "ospfs_symlink m new_inode_ok dir_ino name symname =
     (if length name > OSPFS_MAXNAMELEN \<or> length symname > OSPFS_MAXSYMLINKLEN
      then Some (Inl ENAMETOOLONG, m)
      else case ospfs_inode m dir_ino of None \<Rightarrow> None
      | Some dir_oi \<Rightarrow>
          case find_direntry m dir_oi name of None \<Rightarrow> None
          | Some (Some _) \<Rightarrow> Some (Inl EEXIST, m)
          | Some None \<Rightarrow>
              let entry_ino = free_inode m 0 in
              if entry_ino = os_ninodes (super m) then Some (Inl ENOSPC, m)
              else case ospfs_inode m entry_ino of None \<Rightarrow> None
              | Some sym_node \<Rightarrow>
                  case create_blank_direntry m dir_oi of None \<Rightarrow> None
                  | Some (Inl e, m1) \<Rightarrow> Some (Inl e, m1)
                  | Some (Inr od, m1) \<Rightarrow>
                      let m2 = init_symlink m1 sym_node symname;
                          m3 = set_od_name (store32 m2 od entry_ino) od name
                      in case ospfs_mk_linux_inode m3 new_inode_ok entry_ino of None \<Rightarrow> None
                         | Some None \<Rightarrow> Some (Inl ENOMEM, m3)
                         | Some (Some i) \<Rightarrow> Some (Inr i, m3))"

section \<open>Following a symbolic link\<close>

text \<open>The result is the address given to \<open>nd_set_link\<close> and the disk. \<open>None\<close>: \<open>strchr\<close> found no colon.\<close>

definition ospfs_follow_link :: "mem \<Rightarrow> u32 \<Rightarrow> u32 \<Rightarrow> (nat \<times> mem) option" where
  "ospfs_follow_link m uid ino =
     (case ospfs_inode m ino of None \<Rightarrow> None
      | Some oi \<Rightarrow>
          if read_bytes m (oi + 12) 5 = [114, 111, 111, 116, 63] then
            case strchr_mem m (oi + 12) 58 of None \<Rightarrow> None
            | Some None \<Rightarrow> None
            | Some (Some p) \<Rightarrow> Some (if uid = 0 then oi + 12 + 5 else p + 1, m(p := 0))
          else Some (oi + 12, m))"


section \<open>A directory as a list of entries\<close>

definition entry_addr :: "mem \<Rightarrow> nat \<Rightarrow> nat \<Rightarrow> nat" where
  "entry_addr m oi k = slot_addr (inode_at m oi) (128 * k)"

definition entry_name :: "mem \<Rightarrow> nat \<Rightarrow> u8 list" where
  "entry_name m od = takeWhile (\<lambda>c. c \<noteq> 0) (read_bytes m (od + 4) 124)"

definition entry_at :: "mem \<Rightarrow> nat \<Rightarrow> u32 \<times> u8 list" where
  "entry_at m od = (load32 m od, entry_name m od)"

definition n_entries :: "mem \<Rightarrow> nat \<Rightarrow> nat" where
  "n_entries m oi = unat (oi_size (inode_at m oi)) div 128"

definition dir_entries :: "mem \<Rightarrow> nat \<Rightarrow> (u32 \<times> u8 list) list" where
  "dir_entries m oi = map (\<lambda>k. entry_at m (entry_addr m oi k)) [0..<n_entries m oi]"

definition dir_ok :: "mem \<Rightarrow> nat \<Rightarrow> bool" where
  "dir_ok m oi \<longleftrightarrow> small_reg m oi \<and> oi_ftype (inode_at m oi) = OSPFS_FTYPE_DIR \<and>
     unat (oi_size (inode_at m oi)) mod 128 = 0 \<and>
     (\<forall>k < n_entries m oi. \<exists>i < 124. m (entry_addr m oi k + 4 + i) = 0) \<and>
     (\<forall>off. unat (oi_size (inode_at m oi)) \<le> off \<and> off < 1024 * nblk (inode_at m oi) \<longrightarrow>
        m (slot_addr (inode_at m oi) off) = 0)"

fun dir_find :: "(u32 \<times> u8 list) list \<Rightarrow> u8 list \<Rightarrow> nat option" where
  "dir_find [] name = None"
| "dir_find ((ino, n) # es) name =
     (if ino \<noteq> 0 \<and> n = name then Some 0 else map_option Suc (dir_find es name))"

fun dir_blank :: "(u32 \<times> u8 list) list \<Rightarrow> nat option" where
  "dir_blank [] = None"
| "dir_blank ((ino, n) # es) = (if ino = 0 then Some 0 else map_option Suc (dir_blank es))"

lemma name_eq_iff:
  assumes "\<exists>i < 124. m (a + i) = 0" "0 \<notin> set name"
  shows "name_eq m a name \<longleftrightarrow> takeWhile (\<lambda>c. c \<noteq> 0) (read_bytes m a 124) = name"
proof
  assume *: "name_eq m a name"
  obtain i where i: "i < 124" "m (a + i) = 0" using assms(1) by blast
  have nz: "\<And>j. j < length name \<Longrightarrow> m (a + j) \<noteq> 0"
    using * by (auto simp: name_eq_def list_all_iff)
  have len: "length name < 124" using nz i by (metis le_trans linorder_not_less less_imp_le_nat order.strict_trans1 order.strict_trans2)
  have "takeWhile (\<lambda>c. c \<noteq> 0) (read_bytes m a 124) = take (length name) (read_bytes m a 124)"
    using nz * len by (intro takeWhile_eq_take_P_nth) (auto simp: read_bytes_def name_eq_def)
  also have "\<dots> = read_bytes m a (length name)"
    using len by (simp add: read_bytes_def take_map)
  finally show "takeWhile (\<lambda>c. c \<noteq> 0) (read_bytes m a 124) = name" using * by (simp add: name_eq_def)
next
  let ?xs = "read_bytes m a 124"
  assume *: "takeWhile (\<lambda>c. c \<noteq> 0) ?xs = name"
  have nth: "?xs ! i = m (a + i)" if "i < 124" for i using that by (simp add: read_bytes_def)
  have "0 \<in> set ?xs" using assms(1) nth by (auto simp: in_set_conv_nth)
  then have len: "length name < 124"
  proof -
    have "name \<noteq> ?xs" using \<open>0 \<in> set ?xs\<close> assms(2) by metis
    moreover have "length name \<le> 124" using length_takeWhile_le [of "\<lambda>c. c \<noteq> 0" ?xs] by (simp add: *)
    ultimately show ?thesis using takeWhile_eq_take [of "\<lambda>c. c \<noteq> 0" ?xs] by (cases "length name = 124") (simp_all add: *)
  qed
  have name: "name = take (length name) ?xs" using * by (metis takeWhile_eq_take)
  have "m (a + length name) = 0"
    using nth_length_takeWhile [of "\<lambda>c. c \<noteq> 0" ?xs] len nth by (simp add: *)
  moreover have "read_bytes m a (length name) = name"
    using name len by (simp add: read_bytes_def take_map)
  moreover have "m (a + i) \<noteq> 0" if "i < length name" for i
    using calculation(2) that assms(2) by (metis (no_types, lifting) length_read_bytes nth_mem read_bytes_def nth_map nth_upt add_0 diff_zero length_upt)
  ultimately show "name_eq m a name" by (simp add: name_eq_def list_all_iff)
qed

lemma length_dir_entries [simp]: "length (dir_entries m oi) = n_entries m oi"
  by (simp add: dir_entries_def)

lemma nth_dir_entries: "k < n_entries m oi \<Longrightarrow> dir_entries m oi ! k = entry_at m (entry_addr m oi k)"
  by (simp add: dir_entries_def)

text \<open>One step of the loops: the entry at offset \<open>128 * k\<close>.\<close>

lemma dir_size:
  "dir_ok m oi \<Longrightarrow> unat (oi_size (inode_at m oi)) = 128 * n_entries m oi \<and> 128 * n_entries m oi \<le> 10240"
  by (auto simp: dir_ok_def small_reg_def n_entries_def word_le_nat_alt)

lemma dir_step:
  assumes "dir_ok m oi" "k \<le> n_entries m oi"
  shows "of_nat (128 * k) < oi_size (inode_at m oi) \<longleftrightarrow> k < n_entries m oi"
    "of_nat (128 * k) + 128 = (of_nat (128 * Suc k) :: u32)"
    "k < n_entries m oi \<Longrightarrow> ospfs_inode_data m oi (of_nat (128 * k)) = entry_addr m oi k"
proof -
  have "unat (of_nat (128 * k) :: u32) = 128 * k"
    using dir_size [OF assms(1)] assms(2) by (simp add: unat_of_nat take_bit_eq_mod del: of_nat_mult)
  then show "of_nat (128 * k) < oi_size (inode_at m oi) \<longleftrightarrow> k < n_entries m oi"
    using dir_size [OF assms(1)] by (simp add: word_less_nat_alt)
  show "of_nat (128 * k) + 128 = (of_nat (128 * Suc k) :: u32)" by simp
  show "ospfs_inode_data m oi (of_nat (128 * k)) = entry_addr m oi k" if "k < n_entries m oi"
    unfolding entry_addr_def
    using assms(1) dir_size [OF assms(1)] that by (intro small_blockno) (simp_all add: dir_ok_def)
qed

lemma entry_name_eq:
  assumes "dir_ok m oi" "k < n_entries m oi" "0 \<notin> set name"
  shows "name_eq m (entry_addr m oi k + 4) name \<longleftrightarrow> entry_name m (entry_addr m oi k) = name"
  using name_eq_iff [of m "entry_addr m oi k + 4" name] assms by (simp add: dir_ok_def entry_name_def)

lemma find_loop_entries:
  assumes "dir_ok m oi" "0 \<notin> set name" "k \<le> n_entries m oi"
  shows "find_loop m oi name (of_nat (128 * k)) =
    Some (map_option (\<lambda>j. entry_addr m oi (k + j)) (dir_find (drop k (dir_entries m oi)) name))"
  using assms(3)
proof (induction k rule: inc_induct)
  case base
  then show ?case using dir_step(1) [OF assms(1), of "n_entries m oi"]
    by (subst find_loop.simps) simp
next
  case (step k)
  note s = dir_step [OF assms(1) less_imp_le [OF step.hyps(2)]]
  have d: "drop k (dir_entries m oi) = entry_at m (entry_addr m oi k) # drop (Suc k) (dir_entries m oi)"
    using step.hyps(2) by (simp add: Cons_nth_drop_Suc [symmetric] nth_dir_entries)
  show ?case
    using step s(1) s(3) [OF step.hyps(2)] entry_name_eq [OF assms(1) step.hyps(2) assms(2)]
    by (subst find_loop.simps)
      (simp add: d Let_def s(2) entry_at_def direntry_at_fields option.map_comp comp_def del: of_nat_mult mult_Suc_right)
qed


lemmas dir_loop_simps = Let_def entry_at_def direntry_at_fields option.map_comp comp_def

lemma drop_entries:
  "k < n_entries m oi \<Longrightarrow>
   drop k (dir_entries m oi) = entry_at m (entry_addr m oi k) # drop (Suc k) (dir_entries m oi)"
  by (simp add: Cons_nth_drop_Suc [symmetric] nth_dir_entries)

lemma blank_loop_entries:
  assumes "dir_ok m oi" "k \<le> n_entries m oi"
  shows "blank_loop m oi (of_nat (128 * k)) =
    Some (case dir_blank (drop k (dir_entries m oi)) of
      Some j \<Rightarrow> Inl (entry_addr m oi (k + j)) | None \<Rightarrow> Inr (of_nat (128 * n_entries m oi)))"
  using assms(2)
proof (induction k rule: inc_induct)
  case base
  then show ?case using dir_step(1) [OF assms(1), of "n_entries m oi"]
    by (subst blank_loop.simps) simp
next
  case (step k)
  note s = dir_step [OF assms(1) less_imp_le [OF step.hyps(2)]]
  show ?case
    using step s(1) s(3) [OF step.hyps(2)]
    by (subst blank_loop.simps)
      (auto simp add: drop_entries s(2) dir_loop_simps split: option.splits simp del: of_nat_mult mult_Suc_right)
qed

lemma unlink_loop_entries:
  assumes "dir_ok m oi" "0 \<notin> set name" "k \<le> n_entries m oi"
  shows "\<exists>off od'. unlink_loop m oi name (of_nat (128 * k)) od = Some (off, od') \<and>
    (case dir_find (drop k (dir_entries m oi)) name of
       None \<Rightarrow> off = oi_size (inode_at m oi)
     | Some j \<Rightarrow> off < oi_size (inode_at m oi) \<and> od' = entry_addr m oi (k + j))"
  using assms(3)
proof (induction k arbitrary: od rule: inc_induct)
  case base
  have "oi_size (inode_at m oi) = of_nat (128 * n_entries m oi)"
    using dir_size [OF assms(1)] by (simp add: unat_eq_iff_u32 unat_of_nat take_bit_eq_mod del: of_nat_mult)
  then show ?case using dir_step(1) [OF assms(1), of "n_entries m oi"]
    by (subst unlink_loop.simps) simp
next
  case (step k)
  note s = dir_step [OF assms(1) less_imp_le [OF step.hyps(2)]]
  show ?case
    using step.IH [of "entry_addr m oi k"] step.hyps s(1) s(3) [OF step.hyps(2)]
      entry_name_eq [OF assms(1) step.hyps(2) assms(2)]
    by (subst unlink_loop.simps)
      (auto simp add: drop_entries s(2) dir_loop_simps word_neq_0_conv [symmetric] split: option.splits
        simp del: of_nat_mult mult_Suc_right)
qed

lemma lookup_loop_entries:
  assumes "dir_ok m oi" "0 \<notin> set name" "k \<le> n_entries m oi"
  shows "lookup_loop m new_ok oi name (of_nat (128 * k)) =
    (case dir_find (drop k (dir_entries m oi)) name of
       None \<Rightarrow> Some (Inr None)
     | Some j \<Rightarrow> (case ospfs_mk_linux_inode m new_ok (fst (dir_entries m oi ! (k + j))) of
         None \<Rightarrow> None | Some None \<Rightarrow> Some (Inl EINVAL) | Some (Some inode) \<Rightarrow> Some (Inr (Some inode))))"
  using assms(3)
proof (induction k rule: inc_induct)
  case base
  then show ?case using dir_step(1) [OF assms(1), of "n_entries m oi"]
    by (subst lookup_loop.simps) simp
next
  case (step k)
  note s = dir_step [OF assms(1) less_imp_le [OF step.hyps(2)]]
  show ?case
    using step s(1) s(3) [OF step.hyps(2)] entry_name_eq [OF assms(1) step.hyps(2) assms(2)]
    by (subst lookup_loop.simps)
      (auto simp add: drop_entries s(2) dir_loop_simps word_neq_0_conv [symmetric] nth_dir_entries
        split: option.splits simp del: of_nat_mult mult_Suc_right)
qed

section \<open>Writing one entry\<close>

lemma entry_byte:
  "x < 128 \<Longrightarrow> slot_addr i (128 * k + x) = slot_addr i (128 * k) + x"
proof -
  assume x: "x < 128"
  have "(128 * k) mod 1024 = 128 * (k mod 8)" by (simp add: mult_mod_right)
  then have "(128 * k) mod 1024 + x < 1024" using x by simp
  then show ?thesis using block_div_mod [of "128 * k" x] by (simp add: slot_addr_def)
qed

lemma entries_apart:
  assumes "dir_ok m oi" "j < n_entries m oi" "k < n_entries m oi" "j \<noteq> k" "x < 128"
  shows "entry_addr m oi j + x < entry_addr m oi k \<or> entry_addr m oi k + 128 \<le> entry_addr m oi j + x"
proof (rule ccontr)
  assume "\<not> ?thesis"
  then have n: "entry_addr m oi k \<le> entry_addr m oi j + x" "entry_addr m oi j + x < entry_addr m oi k + 128"
    by simp_all
  define y where "y = entry_addr m oi j + x - entry_addr m oi k"
  have y: "y < 128" "entry_addr m oi j + x = entry_addr m oi k + y"
    using n by (simp_all add: y_def)
  have eq: "slot_addr (inode_at m oi) (128 * j + x) = slot_addr (inode_at m oi) (128 * k + y)"
    by (simp only: entry_byte [OF assms(5)] entry_byte [OF y(1)] y(2) [unfolded entry_addr_def])
  have lt: "128 * j + x < unat (oi_size (inode_at m oi))" "128 * k + y < unat (oi_size (inode_at m oi))"
    using dir_size [OF assms(1)] assms(2,3,5) y(1) by linarith+
  have "small_reg m oi" using assms(1) by (simp add: dir_ok_def)
  then have "128 * j + x = 128 * k + y" by (rule slot_addr_inj [OF _ lt eq])
  moreover have "a = b" if "128 * a + x = 128 * b + y" for a b
  proof -
    have "(128 * a + x) div 128 = a" "(128 * b + y) div 128 = b" using y(1) assms(5) by simp_all
    then show ?thesis using that by simp
  qed
  ultimately show False using assms(4) by blast
qed

lemma data_frame:
  assumes "fs_ok m" "inode_addr m oi" "\<And>y. y < 1024 * data_start m \<Longrightarrow> m' y = m y"
  shows "view m' oi = view m oi" "fs_ok m'" "super m' = super m"
proof -
  have lay: "fs_layout m" using assms(1) by (simp add: fs_ok_def)
  have lo: "inode_lo m \<le> 1024 * data_start m" using assms(2) by (simp add: inode_addr_def)
  have meta: "same_meta m m'" using assms(3) lo by (auto simp: same_meta_def)
  show "fs_ok m'" by (rule same_meta_fs_ok [OF assms(1) meta])
  show "super m' = super m" by (rule same_meta_super [OF lay meta])
  have "inode_at m' oi = inode_at m oi"
    using assms(2,3) by (intro inode_at_cong) (auto simp: inode_addr_def)
  then show "view m' oi = view m oi" by (simp add: view_def same_meta_free_set [OF lay meta])
qed

lemma entry_at_cong:
  "(\<And>x. x < 128 \<Longrightarrow> m' (od + x) = m (od + x)) \<Longrightarrow> entry_at m' od = entry_at m od"
proof -
  assume *: "\<And>x. x < 128 \<Longrightarrow> m' (od + x) = m (od + x)"
  have "load32 m' od = load32 m od"
    using * [of 0] * [of 1] * [of 2] * [of 3] by (simp add: load32_def)
  moreover have "read_bytes m' (od + 4) 124 = read_bytes m (od + 4) 124"
    using *[of "4 + i" for i] by (simp add: read_bytes_def add.assoc)
  ultimately show ?thesis by (simp add: entry_at_def entry_name_def)
qed

lemma write_entry:
  assumes ok: "dir_ok m oi" and k: "k < n_entries m oi"
    and frame: "\<And>y. y < entry_addr m oi k \<or> entry_addr m oi k + 128 \<le> y \<Longrightarrow> m' y = m y"
    and nul: "i < 124" "m' (entry_addr m oi k + 4 + i) = 0"
  shows "dir_ok m' oi" "inode_at m' oi = inode_at m oi" "super m' = super m"
    "free_set m' = free_set m" "fs_ok m'"
    "dir_entries m' oi = (dir_entries m oi)[k := entry_at m' (entry_addr m oi k)]"
proof -
  have reg: "small_reg m oi" and fs: "fs_ok m" "inode_addr m oi" using ok by (simp_all add: dir_ok_def small_reg_def)
  note size = dir_size [OF ok]
  have lo: "1024 * data_start m \<le> entry_addr m oi k"
    unfolding entry_addr_def using slot_addr_lo [OF reg] size k by simp
  have f: "m' y = m y" if "y < 1024 * data_start m" for y using frame [of y] lo that by simp
  note meta = data_frame [OF fs f]
  show i: "inode_at m' oi = inode_at m oi" and free: "free_set m' = free_set m"
    and sup: "super m' = super m" and fs': "fs_ok m'"
    using meta by (simp_all add: view_def)
  have n: "n_entries m' oi = n_entries m oi" and a: "entry_addr m' oi j = entry_addr m oi j" for j
    by (simp_all add: n_entries_def entry_addr_def i)
  have other: "m' (entry_addr m oi j + x) = m (entry_addr m oi j + x)" if "j < n_entries m oi" "j \<noteq> k" "x < 128" for j x
    using entries_apart [OF ok that(1) k that(2,3)] by (intro frame) auto
  have e: "entry_at m' (entry_addr m oi j) = entry_at m (entry_addr m oi j)" if "j < n_entries m oi" "j \<noteq> k" for j
    using other that by (intro entry_at_cong) auto
  show "dir_entries m' oi = (dir_entries m oi)[k := entry_at m' (entry_addr m oi k)]"
  proof (rule nth_equalityI)
    fix j assume "j < length (dir_entries m' oi)"
    then have j: "j < n_entries m oi" by (simp add: n)
    then show "dir_entries m' oi ! j = (dir_entries m oi)[k := entry_at m' (entry_addr m oi k)] ! j"
      using e [OF j] by (cases "j = k") (simp_all add: nth_dir_entries n a nth_list_update)
  qed (simp add: n)
  have nul': "\<exists>i < 124. m' (entry_addr m oi j + 4 + i) = 0" if j: "j < n_entries m oi" for j
  proof (cases "j = k")
    case True
    then show ?thesis using nul by blast
  next
    case False
    obtain i where "i < 124" "m (entry_addr m oi j + 4 + i) = 0" using ok j by (auto simp: dir_ok_def)
    then show ?thesis using other [OF j False, of "4 + i"] by (intro exI [of _ i]) (simp add: add.assoc)
  qed
  have tail: "m' (slot_addr (inode_at m oi) off) = 0"
    if off: "unat (oi_size (inode_at m oi)) \<le> off" "off < 1024 * nblk (inode_at m oi)" for off
  proof -
    have "\<not> (entry_addr m oi k \<le> slot_addr (inode_at m oi) off \<and> slot_addr (inode_at m oi) off < entry_addr m oi k + 128)"
    proof
      assume *: "entry_addr m oi k \<le> slot_addr (inode_at m oi) off \<and> slot_addr (inode_at m oi) off < entry_addr m oi k + 128"
      define x where "x = slot_addr (inode_at m oi) off - entry_addr m oi k"
      have x1: "x < 128" "slot_addr (inode_at m oi) off = entry_addr m oi k + x"
        using * by (auto simp: x_def)
      then have x: "x < 128" "slot_addr (inode_at m oi) off = slot_addr (inode_at m oi) (128 * k + x)"
        by (simp_all add: entry_byte entry_addr_def)
      have "128 * k + x < unat (oi_size (inode_at m oi))" using x k size by simp
      then have "(128 * k + x) div 1024 < nblk (inode_at m oi)"
        using reg by (intro small_slot) (simp_all add: small_reg_def)
      then have "off = 128 * k + x"
        using off by (intro slot_addr_inj_blocks [OF reg _ _ x(2)]) (simp_all add: less_mult_imp_div_less mult.commute)
      with x k size off show False by simp
    qed
    then have "m' (slot_addr (inode_at m oi) off) = m (slot_addr (inode_at m oi) off)"
      by (intro frame) auto
    then show ?thesis using ok off by (simp add: dir_ok_def)
  qed
  have "small_reg m' oi" by (rule small_reg_cong [OF meta(1) fs' sup reg])
  then show "dir_ok m' oi"
    using ok nul' tail by (simp add: dir_ok_def n a i)
qed

section \<open>Writing inodes\<close>

lemma inode_addrs_apart:
  assumes "fs_layout m" "ospfs_inode m i = Some oi" "ospfs_inode m j = Some rf" "i \<noteq> j"
  shows "oi + 64 \<le> rf \<or> rf + 64 \<le> oi"
proof -
  have "unat i \<noteq> unat j" using assms(4) by (simp add: word_unat_eq_iff)
  then show ?thesis using assms(2,3) by (auto simp: ospfs_inode_def split: if_splits)
qed

definition file_blocks :: "mem \<Rightarrow> nat \<Rightarrow> u32 set" where
  "file_blocks m oi = set (take (nblk (inode_at m oi)) (oi_direct (inode_at m oi)))"

lemma dir_cong_free:
  assumes "dir_ok m oi" "inode_at m' oi = inode_at m oi" "super m' = super m"
    and free: "file_blocks m oi \<inter> free_set m' = {}" and "fs_ok m'"
    and "\<And>y. 1024 * data_start m \<le> y \<Longrightarrow> m' y = m y"
  shows "dir_ok m' oi" "dir_entries m' oi = dir_entries m oi"
proof -
  have reg: "small_reg m oi" using assms(1) by (simp add: dir_ok_def)
  have n: "n_entries m' oi = n_entries m oi" and a: "entry_addr m' oi k = entry_addr m oi k" for k
    by (simp_all add: n_entries_def entry_addr_def assms(2))
  have lo: "1024 * data_start m \<le> entry_addr m oi k" if "k < n_entries m oi" for k
    unfolding entry_addr_def using slot_addr_lo [OF reg] dir_size [OF assms(1)] that by simp
  show "dir_entries m' oi = dir_entries m oi"
    unfolding dir_entries_def n a
  proof (rule map_cong [OF refl])
    fix k assume "k \<in> set [0..<n_entries m oi]"
    then show "entry_at m' (entry_addr m oi k) = entry_at m (entry_addr m oi k)"
      using lo [of k] by (intro entry_at_cong assms(6)) simp
  qed
  have "small_file (data_block m') (view m' oi)"
    using reg free free_data_block [OF assms(5)]
    unfolding small_reg_def small_file_def view_def file_blocks_def data_block_cong [OF assms(3)] assms(2) by auto
  then have reg': "small_reg m' oi"
    using reg assms(2,3,5) inode_addr_cong [OF assms(3)] by (simp add: small_reg_def)
  have nul: "\<exists>i < 124. m' (entry_addr m oi k + 4 + i) = 0" if k: "k < n_entries m oi" for k
  proof -
    obtain i where "i < 124" "m (entry_addr m oi k + 4 + i) = 0" using assms(1) k by (auto simp: dir_ok_def)
    then show ?thesis using lo [OF k] by (intro exI [of _ i]) (simp add: assms(6))
  qed
  have tail: "m' (slot_addr (inode_at m oi) off) = 0"
    if "unat (oi_size (inode_at m oi)) \<le> off" "off < 1024 * nblk (inode_at m oi)" for off
  proof -
    have "off div 1024 < nblk (inode_at m oi)" using that by (simp add: less_mult_imp_div_less mult.commute)
    then have "1024 * data_start m \<le> slot_addr (inode_at m oi) off"
      using small_block(5) [OF reg] by (fastforce simp: slot_addr_def)
    then show ?thesis using assms(1) that by (simp add: dir_ok_def assms(6))
  qed
  show "dir_ok m' oi"
    using assms(1) reg' nul tail by (simp add: dir_ok_def n a assms(2))
qed

lemma dir_blocks_used: "dir_ok m oi \<Longrightarrow> file_blocks m oi \<inter> free_set m = {}"
  by (auto simp: dir_ok_def small_reg_def small_file_def view_def file_blocks_def)

lemma dir_cong:
  assumes "dir_ok m oi" "inode_at m' oi = inode_at m oi" "super m' = super m" "free_set m' = free_set m" "fs_ok m'"
    "\<And>y. 1024 * data_start m \<le> y \<Longrightarrow> m' y = m y"
  shows "dir_ok m' oi" "dir_entries m' oi = dir_entries m oi"
  using dir_cong_free [OF assms(1-3) _ assms(5,6)] dir_blocks_used [OF assms(1)] assms(4) by simp_all

lemma inode_write:
  assumes "fs_ok m" "ospfs_inode m j = Some rf"
    "\<And>y. y < rf \<or> rf + 64 \<le> y \<Longrightarrow> m' y = m y"
  shows "fs_ok m'" "super m' = super m" "free_set m' = free_set m"
    "\<And>i oi. ospfs_inode m i = Some oi \<Longrightarrow> i \<noteq> j \<Longrightarrow> inode_at m' oi = inode_at m oi"
    "\<And>i oi. ospfs_inode m i = Some oi \<Longrightarrow> i \<noteq> j \<Longrightarrow> dir_ok m oi \<Longrightarrow>
       dir_ok m' oi \<and> dir_entries m' oi = dir_entries m oi"
proof -
  have lay: "fs_layout m" using assms(1) by (simp add: fs_ok_def)
  note b = inode_bounds [OF lay assms(2)]
  have meta: "same_meta m m'" using b assms(3) by (auto simp: same_meta_def)
  show ok: "fs_ok m'" and sup: "super m' = super m" and free: "free_set m' = free_set m"
    by (fact same_meta_fs_ok [OF assms(1) meta] same_meta_super [OF lay meta] same_meta_free_set [OF lay meta])+
  fix i oi assume i: "ospfs_inode m i = Some oi" "i \<noteq> j"
  show same: "inode_at m' oi = inode_at m oi"
    using inode_addrs_apart [OF lay i(1) assms(2) i(2)] by (intro inode_at_cong assms(3)) auto
  assume "dir_ok m oi"
  then show "dir_ok m' oi \<and> dir_entries m' oi = dir_entries m oi"
    using dir_cong [OF _ same sup free ok] b(2) assms(3) by simp
qed

section \<open>Growing a directory\<close>

lemma slot_addr_direct:
  "oi_direct i ! (off div 1024) = oi_direct i' ! (off div 1024) \<Longrightarrow> slot_addr i off = slot_addr i' off"
  by (simp add: slot_addr_def)

lemma extends_slot:
  assumes "extends m oi m'" "small_reg m oi" "off < 1024 * nblk (inode_at m oi)"
  shows "m' (slot_addr (inode_at m oi) off) = m (slot_addr (inode_at m oi) off)"
proof -
  let ?b = "oi_direct (inode_at m oi) ! (off div 1024)"
  have k: "off div 1024 < nblk (inode_at m oi)" using assms(3) by (simp add: less_mult_imp_div_less mult.commute)
  note b = small_block [OF assms(2) k]
  have "slot_addr (inode_at m oi) off div 1024 = unat ?b" by (simp add: slot_addr_def)
  moreover have "data_start m \<le> unat ?b" using b(1) by (simp add: data_block_def)
  ultimately show ?thesis using assms(1) b(2) unfolding extends_def by blast
qed

lemma dir_grow:
  assumes ok: "dir_ok m oi" and new: "128 * Suc (n_entries m oi) \<le> 10240"
    and room: "(128 * Suc (n_entries m oi) + 1023) div 1024 - nblk (inode_at m oi) \<le> card (free_set m)"
  shows "\<exists>m1. change_size m oi (oi_size (inode_at m oi) + OSPFS_DIRENTRY_SIZE) = Some (Inr (), m1) \<and>
    extends m oi m1 \<and> dir_ok m1 oi \<and> dir_entries m1 oi = dir_entries m oi @ [(0, [])] \<and>
    oi_nlink (inode_at m1 oi) = oi_nlink (inode_at m oi)"
proof -
  let ?i = "inode_at m oi" and ?s = "unat (oi_size (inode_at m oi))"
  define new where "new = oi_size ?i + OSPFS_DIRENTRY_SIZE"
  have reg: "small_reg m oi" using ok by (simp add: dir_ok_def)
  then have rs: "fs_ok m" "inode_addr m oi" "small_file (data_block m) (view m oi)" "oi_size ?i \<le> 10240"
    "oi_ftype ?i \<noteq> 2" by (simp_all add: small_reg_def)
  note size = dir_size [OF ok]
  have un: "unat new = 128 * Suc (n_entries m oi)" using size new by (simp add: new_def unat_plus_u32)
  let ?w = "unat (ospfs_size2nblocks new)" and ?k = "nblk ?i"
  have w: "?w = (unat new + 1023) div 1024" using un new by (simp add: unat_size2nblocks)
  have k: "?k = (?s + 1023) div 1024" by (rule small_nblk [OF rs(4)])
  have kw: "?k \<le> ?w" "?w \<le> 10" "?w - ?k \<le> card (free_set m)" "?w - ?k \<le> 1"
    using un new size room by (simp_all add: w k)
  obtain m1 where m1: "change_size m oi new = Some (Inr (), m1)"
      "view m1 oi = snd (spec_change (view m oi) new)" "fs_ok m1" "super m1 = super m" "extends m oi m1"
    using change_size_grow [OF rs(1-3) kw(1-3)] by blast
  let ?i1 = "inode_at m1 oi"
  have reg1: "small_reg m1 oi" and s1: "oi_size ?i1 = new"
    using write_grow [OF reg, of new] m1(1) un new size kw(3) by auto
  have n1: "nblk ?i1 = ?w" using s1 by (simp add: nblk_def)
  have v1: "view m1 oi = (fst ((spec_add ^^ (?w - ?k)) (view m oi))\<lparr>oi_size := new\<rparr>,
      snd ((spec_add ^^ (?w - ?k)) (view m oi)))"
    using m1(2) kw by (simp add: spec_change_def Let_def)
  then have i1: "?i1 = fst ((spec_add ^^ (?w - ?k)) (view m oi))\<lparr>oi_size := new\<rparr>"
    by (simp add: view_def)
  have d: "?w - ?k = 0 \<or> ?w - ?k = 1" using kw(4) by linarith
  have fields: "oi_nlink ?i1 = oi_nlink ?i" "oi_ftype ?i1 = oi_ftype ?i"
    using d by (auto simp: i1 spec_add_fields)
  have direct: "oi_direct ?i1 ! j = oi_direct ?i ! j" if "j < ?k" for j
    using spec_add_direct [OF rs(3), of "?w - ?k" j] that kw by (simp add: i1)
  have addr: "slot_addr ?i1 off = slot_addr ?i off" if "off < 1024 * ?k" for off
    using that by (intro slot_addr_direct direct) (simp add: less_mult_imp_div_less mult.commute)
  have bytes: "m1 (slot_addr ?i1 off) = (if off < 1024 * ?k then m (slot_addr ?i off) else 0)"
    if off: "off < 1024 * ?w" for off
  proof (cases "off < 1024 * ?k")
    case True
    then show ?thesis using addr extends_slot [OF m1(5) reg] by simp
  next
    case False
    then have d1: "?w - ?k = 1" and q: "off div 1024 = ?k" using off d by auto
    let ?b = "oi_direct ?i1 ! ?k"
    have "?b = Min (free_set m)"
      using d1 kw by (simp add: i1 spec_add_fields)
    moreover have "free_set m \<noteq> {}" using d1 kw(3) by auto
    ultimately have free: "?b \<in> free_set m" using Min_in_free by simp
    have "?b \<notin> free_set m1" using small_block(2) [OF reg1, of ?k] n1 d1 by simp
    moreover have "data_start m \<le> unat ?b" using free_data_block [OF rs(1) free] by (simp add: data_block_def)
    moreover have "slot_addr ?i1 off div 1024 = unat ?b" by (simp add: slot_addr_def q)
    ultimately have "m1 (slot_addr ?i1 off) = 0" using m1(5) free unfolding extends_def by blast
    then show ?thesis using False by simp
  qed
  have ne1: "n_entries m1 oi = Suc (n_entries m oi)" by (simp add: n_entries_def s1 un)
  have cover: "128 * n_entries m oi \<le> 1024 * ?k" "128 * Suc (n_entries m oi) \<le> 1024 * ?w"
    using size un by (auto simp: k w)
  have ea: "entry_addr m1 oi j + x = slot_addr ?i1 (128 * j + x)" if "x < 128" for j x
    using that by (simp add: entry_addr_def entry_byte)
  have old: "m1 (entry_addr m oi j + x) = m (entry_addr m oi j + x)" "entry_addr m1 oi j = entry_addr m oi j"
    if "j < n_entries m oi" "x < 128" for j x
  proof -
    have lt: "128 * j + x < 1024 * ?k" "128 * j < 1024 * ?k" using that cover(1) by linarith+
    show e: "entry_addr m1 oi j = entry_addr m oi j" by (simp add: entry_addr_def addr [OF lt(2)])
    have "m1 (slot_addr ?i (128 * j + x)) = m (slot_addr ?i (128 * j + x))"
      using bytes [of "128 * j + x"] lt kw(1) by (simp add: addr [OF lt(1)])
    then show "m1 (entry_addr m oi j + x) = m (entry_addr m oi j + x)"
      by (simp add: entry_addr_def entry_byte [OF that(2)])
  qed
  have fresh: "m1 (entry_addr m1 oi (n_entries m oi) + x) = 0" if "x < 128" for x
    using bytes [of "128 * n_entries m oi + x"] that cover(2) ok size
    by (simp add: ea dir_ok_def)
  have "entry_at m1 (entry_addr m1 oi (n_entries m oi)) = (0, [])"
  proof -
    have "load32 m1 (entry_addr m1 oi (n_entries m oi)) = 0"
      using fresh [of 0] fresh [of 1] fresh [of 2] fresh [of 3] by (simp add: load32_def)
    moreover have "read_bytes m1 (entry_addr m1 oi (n_entries m oi) + 4) 124 = 0 # replicate 123 0"
      using fresh by (auto intro!: nth_equalityI simp: read_bytes_def nth_Cons add.assoc split: nat.splits)
    ultimately show ?thesis by (simp add: entry_at_def entry_name_def)
  qed
  moreover have "entry_at m1 (entry_addr m1 oi j) = entry_at m (entry_addr m oi j)" if "j < n_entries m oi" for j
    unfolding old(2) [OF that zero_less_numeral] using old(1) [OF that] by (rule entry_at_cong)
  ultimately have ents: "dir_entries m1 oi = dir_entries m oi @ [(0, [])]"
    by (simp add: dir_entries_def ne1)
  have nul: "\<exists>i < 124. m1 (entry_addr m1 oi j + 4 + i) = 0" if "j < n_entries m1 oi" for j
  proof (cases "j = n_entries m oi")
    case True
    then show ?thesis using fresh [of 4] by (intro exI [of _ 0]) simp
  next
    case False
    then have j: "j < n_entries m oi" using that ne1 by simp
    obtain i where "i < 124" "m (entry_addr m oi j + 4 + i) = 0" using ok j by (auto simp: dir_ok_def)
    then show ?thesis using old [OF j, of "4 + i"] by (intro exI [of _ i]) (simp add: add.assoc)
  qed
  have tail: "m1 (slot_addr ?i1 off) = 0" if "unat (oi_size ?i1) \<le> off" "off < 1024 * nblk ?i1" for off
    using bytes [of off] that ok size un by (simp add: s1 n1 dir_ok_def)
  have "dir_ok m1 oi"
    using reg1 fields(2) nul tail ok by (simp add: dir_ok_def s1 un)
  then show ?thesis using m1(1,5) ents fields(1) by (auto simp: new_def)
qed


section \<open>Adding an entry\<close>

fun dir_add :: "(u32 \<times> u8 list) list \<Rightarrow> u32 \<times> u8 list \<Rightarrow> (u32 \<times> u8 list) list" where
  "dir_add [] e = [e]"
| "dir_add ((ino, n) # es) e = (if ino = 0 then e # es else (ino, n) # dir_add es e)"

lemma dir_add_blank:
  "dir_add es e = (case dir_blank es of Some k \<Rightarrow> es[k := e] | None \<Rightarrow> es @ [e])"
  by (induction es) (auto split: option.splits)

lemma dir_blank_length: "dir_blank es = Some k \<Longrightarrow> k < length es"
  by (induction es arbitrary: k) (auto split: if_splits)

lemma dir_find_add:
  "dir_find es name = None \<Longrightarrow> ino \<noteq> 0 \<Longrightarrow>
   \<exists>k. dir_find (dir_add es (ino, name)) name = Some k \<and> k < length (dir_add es (ino, name)) \<and>
     dir_add es (ino, name) ! k = (ino, name)"
proof (induction es)
  case (Cons e es)
  then show ?case by (cases e) (auto split: if_splits)
qed simp

definition dir_room :: "mem \<Rightarrow> nat \<Rightarrow> bool" where
  "dir_room m oi \<longleftrightarrow> dir_blank (dir_entries m oi) \<noteq> None \<or>
     128 * Suc (n_entries m oi) \<le> 10240 \<and>
     (128 * Suc (n_entries m oi) + 1023) div 1024 - nblk (inode_at m oi) \<le> card (free_set m)"

lemma create_blank_direntry_entries:
  assumes ok: "dir_ok m oi" and room: "dir_room m oi"
  shows "\<exists>m1 k. create_blank_direntry m oi = Some (Inr (entry_addr m1 oi k), m1) \<and>
    k < n_entries m1 oi \<and> dir_ok m1 oi \<and> extends m oi m1 \<and>
    oi_nlink (inode_at m1 oi) = oi_nlink (inode_at m oi) \<and>
    (\<forall>e. (dir_entries m1 oi)[k := e] = dir_add (dir_entries m oi) e)"
proof -
  have loop: "blank_loop m oi 0 = Some (case dir_blank (dir_entries m oi) of
      Some j \<Rightarrow> Inl (entry_addr m oi j) | None \<Rightarrow> Inr (of_nat (128 * n_entries m oi)))"
    using blank_loop_entries [OF ok, of 0] by (simp split: option.splits)
  show ?thesis
  proof (cases "dir_blank (dir_entries m oi)")
    case (Some k)
    then have "create_blank_direntry m oi = Some (Inr (entry_addr m oi k), m)"
      by (simp add: create_blank_direntry_def loop)
    then show ?thesis
      using Some dir_blank_length [OF Some] ok by (intro exI [of _ m] exI [of _ k]) (simp add: dir_add_blank)
  next
    case None
    then obtain m1 where m1: "change_size m oi (oi_size (inode_at m oi) + OSPFS_DIRENTRY_SIZE) = Some (Inr (), m1)"
        "extends m oi m1" "dir_ok m1 oi" "dir_entries m1 oi = dir_entries m oi @ [(0, [])]"
        "oi_nlink (inode_at m1 oi) = oi_nlink (inode_at m oi)"
      using dir_grow [OF ok] room by (auto simp: dir_room_def)
    have n: "n_entries m1 oi = Suc (n_entries m oi)"
      using arg_cong [OF m1(4), of length] by simp
    have "ospfs_inode_data m1 oi (of_nat (128 * n_entries m oi)) = entry_addr m1 oi (n_entries m oi)"
      using dir_step(3) [OF m1(3), of "n_entries m oi"] n by simp
    then have "create_blank_direntry m oi = Some (Inr (entry_addr m1 oi (n_entries m oi)), m1)"
      using m1(1) None by (simp add: create_blank_direntry_def loop)
    then show ?thesis
      using m1 n None by (intro exI [of _ m1] exI [of _ "n_entries m oi"]) (simp add: dir_add_blank list_update_append)
  qed
qed

lemma strncpy_bytes_id: "0 \<notin> set name \<Longrightarrow> strncpy_bytes name (length name) = name"
proof -
  assume "0 \<notin> set name"
  then have tw: "takeWhile (\<lambda>c. c \<noteq> 0) name = name" by (subst takeWhile_eq_all_conv) metis
  show ?thesis unfolding strncpy_bytes_def Let_def take_all [OF order_refl] tw by simp
qed

text \<open>Storing number and name in either order gives the entry.\<close>

lemma set_entry_swap:
  "length name \<le> 123 \<Longrightarrow> store32 (set_od_name m od name) od ino = set_od_name (store32 m od ino) od name"
  by (auto simp: set_od_name_def store32_def write_bytes_def fun_eq_iff)

lemma set_entry:
  fixes m :: mem and od :: nat and ino :: u32
  assumes "length name \<le> 123" "0 \<notin> set name"
  defines "m' \<equiv> set_od_name (store32 m od ino) od name"
  shows "entry_at m' od = (ino, name)" "m' (od + 4 + length name) = 0"
    "y < od \<or> od + 128 \<le> y \<Longrightarrow> m' y = m y"
proof -
  show nul: "m' (od + 4 + length name) = 0" by (simp add: m'_def set_od_name_def)
  show "m' y = m y" if "y < od \<or> od + 128 \<le> y"
    using that assms(1) by (auto simp: m'_def set_od_name_def write_bytes_def store32_def strncpy_bytes_id [OF assms(2)])
  have "load32 m' od = load32 (store32 m od ino) od"
    by (rule load32_cong) (auto simp: m'_def set_od_name_def write_bytes_def)
  moreover have "entry_name m' od = name"
  proof -
    have "name_eq m' (od + 4) name"
    proof -
      have "m' (od + 4 + i) = name ! i" if "i < length name" for i
        using that by (simp add: m'_def set_od_name_def write_bytes_def strncpy_bytes_id [OF assms(2)])
      then show ?thesis
        using nul assms(2) by (auto simp: name_eq_def list_all_iff read_bytes_def in_set_conv_nth intro: nth_equalityI)
    qed
    then show ?thesis
    proof -
      have "\<exists>i < 124. m' (od + 4 + i) = 0" using nul assms(1) by (intro exI [of _ "length name"]) simp
      with \<open>name_eq m' (od + 4) name\<close> show ?thesis
        using name_eq_iff [of m' "od + 4" name] assms(2) by (simp add: entry_name_def)
    qed
  qed
  ultimately show "entry_at m' od = (ino, name)" by (simp add: entry_at_def mem_simps)
qed

text \<open>The steps \<open>create\<close>, \<open>symlink\<close> and \<open>link\<close> share: a new entry in a found slot.\<close>

lemma add_entry:
  fixes m1 :: mem and ino :: u32
  assumes ok: "dir_ok m1 oi" and k: "k < n_entries m1 oi"
    and name: "length name \<le> 123" "0 \<notin> set name"
  defines "m' \<equiv> set_od_name (store32 m1 (entry_addr m1 oi k) ino) (entry_addr m1 oi k) name"
  shows "dir_ok m' oi" "dir_entries m' oi = (dir_entries m1 oi)[k := (ino, name)]"
    "super m' = super m1" "fs_ok m'" "free_set m' = free_set m1"
    "y < 1024 * data_start m1 \<Longrightarrow> m' y = m1 y"
proof -
  note e = set_entry [OF name, where m = m1 and od = "entry_addr m1 oi k" and ino = ino, folded m'_def]
  have l: "length name < 124" using name by simp
  note w = write_entry [OF ok k e(3) l e(2)]
  show "dir_ok m' oi" "super m' = super m1" "fs_ok m'" "free_set m' = free_set m1" by (simp_all only: w)
  show "dir_entries m' oi = (dir_entries m1 oi)[k := (ino, name)]" by (simp add: w(6) e(1))
  have "1024 * data_start m1 \<le> entry_addr m1 oi k"
    unfolding entry_addr_def using slot_addr_lo [of m1 oi] dir_size [OF ok] ok k by (simp add: dir_ok_def)
  then show "y < 1024 * data_start m1 \<Longrightarrow> m' y = m1 y" by (intro e(3)) simp
qed


lemma free_inode_found:
  assumes "free_inode m i = j" "j < os_ninodes (super m)"
  shows "\<exists>oi. ospfs_inode m j = Some oi \<and> oi_nlink (inode_at m oi) = 0"
  using assms
proof (induction m i rule: free_inode.induct)
  case (1 m i)
  show ?case
  proof (cases "i < os_ninodes (super m)")
    case True
    then obtain oi where oi: "ospfs_inode m i = Some oi"
      by (simp add: ospfs_inode_def not_le [symmetric])
    then show ?thesis
      using 1 True by (cases "oi_nlink (inode_at m oi) = 0") (auto simp: free_inode.simps [of m i])
  next
    case False
    then show ?thesis using 1(2,3) by (simp add: free_inode.simps [of m i])
  qed
qed

lemma ospfs_inode_cong: "super m' = super m \<Longrightarrow> ospfs_inode m' i = ospfs_inode m i"
  by (simp add: ospfs_inode_def)

lemma extends_inode:
  assumes "extends m oi m1" "fs_layout m" "ospfs_inode m i = Some oi" "ospfs_inode m j = Some rf" "i \<noteq> j"
  shows "inode_at m1 rf = inode_at m rf"
  using assms(1) inode_addrs_apart [OF assms(2-5)] inode_bounds [OF assms(2,4)]
  by (intro inode_at_cong) (auto simp: extends_def)

text \<open>The new inode of \<open>ospfs_create\<close>.\<close>

lemma clear_direct_inode:
  "n \<le> 10 \<Longrightarrow> inode_at (clear_direct m oi n) oi =
   (inode_at m oi)\<lparr>oi_direct := replicate n 0 @ drop n (oi_direct (inode_at m oi))\<rparr>"
proof (induction n)
  case (Suc n)
  have "(replicate n 0 @ drop n (oi_direct (inode_at m oi)))[n := 0] =
      replicate (Suc n) 0 @ drop (Suc n) (oi_direct (inode_at m oi))"
    using Suc.prems by (simp add: list_update_append replicate_append_same [symmetric] Cons_nth_drop_Suc [symmetric])
  then show ?case using Suc by (simp add: mem_simps)
qed simp

lemma clear_direct_frame:
  "n \<le> 10 \<Longrightarrow> y < oi \<or> oi + 64 \<le> y \<Longrightarrow> clear_direct m oi n y = m y"
  by (induction n) (auto simp: set_oi_direct_def mem_simps)

lemma init_reg_inode:
  "inode_at (init_reg_inode m oi mode) oi = \<lparr>oi_size = 0, oi_ftype = OSPFS_FTYPE_REG, oi_nlink = 1,
     oi_mode = mode, oi_direct = replicate 10 0, oi_indirect = 0, oi_indirect2 = 0\<rparr>"
  "y < oi \<or> oi + 64 \<le> y \<Longrightarrow> init_reg_inode m oi mode y = m y"
  by (simp_all add: init_reg_inode_def clear_direct_inode clear_direct_frame mem_simps)
    (auto simp: set_oi_defs mem_simps)

text \<open>C3: creating a file under a new name in a well-formed directory with room succeeds: the
directory gets the entry in its first blank slot (or at its end), the chosen inode is an
empty regular file with one link, and a lookup of the name finds it.\<close>

theorem ospfs_create_entry:
  assumes ok: "dir_ok m oi" "ospfs_inode m dir_ino = Some oi" "oi_nlink (inode_at m oi) \<noteq> 0"
    and name: "length name \<le> 123" "0 \<notin> set name" "dir_find (dir_entries m oi) name = None"
    and ino: "free_inode m 0 = ino" "ino < os_ninodes (super m)" "ino \<noteq> 0"
    and room: "dir_room m oi"
  shows "\<exists>m' i rf. ospfs_create m True dir_ino name mode = Some (Inr i, m') \<and>
    dir_ok m' oi \<and> dir_entries m' oi = dir_add (dir_entries m oi) (ino, name) \<and>
    ospfs_inode m' ino = Some rf \<and>
    inode_at m' rf = \<lparr>oi_size = 0, oi_ftype = OSPFS_FTYPE_REG, oi_nlink = 1, oi_mode = mode,
      oi_direct = replicate 10 0, oi_indirect = 0, oi_indirect2 = 0\<rparr> \<and>
    ospfs_dir_lookup m' True dir_ino name = Some (Inr (Some i))"
proof -
  have fs: "fs_ok m" "fs_layout m" using ok(1) by (simp_all add: dir_ok_def small_reg_def fs_ok_def)
  obtain rf where rf: "ospfs_inode m ino = Some rf" "oi_nlink (inode_at m rf) = 0"
    using free_inode_found [OF ino(1,2)] by blast
  have ne: "dir_ino \<noteq> ino" using rf ok(2,3) by auto
  have find: "find_direntry m oi name = Some None"
    using find_loop_entries [OF ok(1) name(2), of 0] name(3) by (simp add: find_direntry_def)
  obtain m1 k where m1: "create_blank_direntry m oi = Some (Inr (entry_addr m1 oi k), m1)"
      "k < n_entries m1 oi" "dir_ok m1 oi" "extends m oi m1"
      "\<forall>e. (dir_entries m1 oi)[k := e] = dir_add (dir_entries m oi) e"
    using create_blank_direntry_entries [OF ok(1) room] by blast
  have sup1: "super m1 = super m" using m1(4) by (simp add: extends_def)
  have fs1: "fs_ok m1" "fs_layout m1" using m1(3) by (simp_all add: dir_ok_def small_reg_def fs_ok_def)
  have in1: "ospfs_inode m1 i = ospfs_inode m i" for i by (rule ospfs_inode_cong [OF sup1])
  define m2 where "m2 = init_reg_inode m1 rf mode"
  have rf1: "ospfs_inode m1 ino = Some rf" using rf by (simp add: in1)
  have fr: "m2 y = m1 y" if "y < rf \<or> rf + 64 \<le> y" for y
    using that by (simp add: m2_def init_reg_inode(2))
  note w = inode_write [OF fs1(1) rf1 fr]
  have dir2: "dir_ok m2 oi" "dir_entries m2 oi = dir_entries m1 oi" "inode_at m2 oi = inode_at m1 oi"
    using w(4,5) [of dir_ino oi] ok(2) ne m1(3) by (simp_all add: in1)
  have k2: "k < n_entries m2 oi" "entry_addr m2 oi k = entry_addr m1 oi k"
    using m1(2) dir2(3) by (simp_all add: n_entries_def entry_addr_def)
  define m3 where "m3 = set_od_name (store32 m2 (entry_addr m1 oi k) ino) (entry_addr m1 oi k) name"
  note a = add_entry [OF dir2(1) k2(1) name(1,2), where ino = ino, unfolded k2(2), folded m3_def]
  have sup3: "super m3 = super m" using a(3) w(2) sup1 by simp
  have rf3: "inode_at m3 rf = inode_at m2 rf"
    using inode_bounds [OF fs(2) rf(1)] layout_cong [of m2 m] w(2) sup1
    by (intro inode_at_cong a(6)) auto
  then have new: "inode_at m3 rf = \<lparr>oi_size = 0, oi_ftype = OSPFS_FTYPE_REG, oi_nlink = 1, oi_mode = mode,
      oi_direct = replicate 10 0, oi_indirect = 0, oi_indirect2 = 0\<rparr>"
    by (simp add: m2_def init_reg_inode)
  have in3: "ospfs_inode m3 i = ospfs_inode m i" for i by (rule ospfs_inode_cong [OF sup3])
  obtain i where i: "ospfs_mk_linux_inode m3 True ino = Some (Some i)"
    by (simp add: ospfs_mk_linux_inode_def in3 rf(1) new Let_def)
  have ents: "dir_entries m3 oi = dir_add (dir_entries m oi) (ino, name)"
    using a(2) dir2(2) m1(5) by simp
  have "ospfs_create m True dir_ino name mode = Some (Inr i, m3)"
    using name(1) ok(2) find ino m1(1) rf(1) i
    by (simp add: ospfs_create_def Let_def m2_def [symmetric] m3_def [symmetric])
  moreover have "ospfs_dir_lookup m3 True dir_ino name = Some (Inr (Some i))"
    using lookup_loop_entries [OF a(1) name(2), of 0 True] dir_find_add [OF name(3) ino(3)] name(1) ok(2) i
    by (auto simp: ospfs_dir_lookup_def in3 ents)
  moreover have "ospfs_inode m3 ino = Some rf" by (simp add: in3 rf(1))
  ultimately show ?thesis using a(1) ents new by blast
qed


text \<open>C7: a hard link under a new name adds the entry of the source's inode to the directory and
adds one to that inode's link count, and changes nothing else of the inode.\<close>

theorem ospfs_link_entry:
  assumes ok: "dir_ok m oi" "ospfs_inode m dir_ino = Some oi"
    and name: "length name \<le> 123" "0 \<notin> set name" "dir_find (dir_entries m oi) name = None"
    and src: "ospfs_inode m src_ino = Some soi" "src_ino \<noteq> dir_ino"
    and room: "dir_room m oi"
  shows "\<exists>m'. ospfs_link m src_ino dir_ino name = Some (Inr (), m') \<and>
    dir_ok m' oi \<and> dir_entries m' oi = dir_add (dir_entries m oi) (src_ino, name) \<and>
    inode_at m' soi = (inode_at m soi)\<lparr>oi_nlink := oi_nlink (inode_at m soi) + 1\<rparr>"
proof -
  have fs: "fs_ok m" "fs_layout m" using ok(1) by (simp_all add: dir_ok_def small_reg_def fs_ok_def)
  have find: "find_direntry m oi name = Some None"
    using find_loop_entries [OF ok(1) name(2), of 0] name(3) by (simp add: find_direntry_def)
  obtain m1 k where m1: "create_blank_direntry m oi = Some (Inr (entry_addr m1 oi k), m1)"
      "k < n_entries m1 oi" "dir_ok m1 oi" "extends m oi m1"
      "\<forall>e. (dir_entries m1 oi)[k := e] = dir_add (dir_entries m oi) e"
    using create_blank_direntry_entries [OF ok(1) room] by blast
  have sup1: "super m1 = super m" using m1(4) by (simp add: extends_def)
  define m2 where "m2 = set_od_name (store32 m1 (entry_addr m1 oi k) src_ino) (entry_addr m1 oi k) name"
  note a = add_entry [OF m1(3,2) name(1,2), where ino = src_ino, folded m2_def]
  have sup2: "super m2 = super m" using a(3) sup1 by simp
  have in2: "ospfs_inode m2 i = ospfs_inode m i" for i by (rule ospfs_inode_cong [OF sup2])
  have s2: "inode_at m2 soi = inode_at m soi"
  proof -
    have "inode_at m2 soi = inode_at m1 soi"
      using inode_bounds [OF fs(2) src(1)] layout_cong [OF sup1]
      by (intro inode_at_cong a(6)) auto
    also have "\<dots> = inode_at m soi"
      by (rule extends_inode [OF m1(4) fs(2) ok(2) src(1)]) (use src(2) in simp)
    finally show ?thesis .
  qed
  define m3 where "m3 = set_oi_nlink m2 soi (oi_nlink (inode_at m2 soi) + 1)"
  have src2: "ospfs_inode m2 src_ino = Some soi" using src(1) by (simp add: in2)
  have fr: "m3 y = m2 y" if "y < soi \<or> soi + 64 \<le> y" for y
    using that by (auto simp: m3_def set_oi_nlink_def mem_simps)
  have "dir_ok m3 oi \<and> dir_entries m3 oi = dir_entries m2 oi"
    using inode_write(5) [OF a(4) src2 fr, of dir_ino oi] ok(2) src(2) a(1) by (simp add: in2)
  moreover have "ospfs_link m src_ino dir_ino name = Some (Inr (), m3)"
    using name(1) ok(2) find m1(1) src2
    by (simp add: ospfs_link_def Let_def set_entry_swap m2_def [symmetric] m3_def)
  moreover have "inode_at m3 soi = (inode_at m soi)\<lparr>oi_nlink := oi_nlink (inode_at m soi) + 1\<rparr>"
    by (simp add: m3_def mem_simps s2)
  ultimately show ?thesis using a(2) m1(5) by auto
qed

lemma dir_find_some:
  "dir_find es name = Some k \<Longrightarrow> k < length es \<and> snd (es ! k) = name \<and> fst (es ! k) \<noteq> 0"
  by (induction es name arbitrary: k rule: dir_find.induct) (auto split: if_splits)

text \<open>Emptying another file leaves a directory as it is.\<close>

lemma dir_change_size_zero:
  assumes "dir_ok m doi" "ospfs_inode m dir_ino = Some doi" "ospfs_inode m ino = Some oi" "ino \<noteq> dir_ino"
    and small: "small_file (data_block m) (view m oi)" "file_blocks m oi \<inter> file_blocks m doi = {}"
  shows "\<exists>m'. change_size m oi 0 = Some (Inr (), m') \<and> dir_ok m' doi \<and> dir_entries m' doi = dir_entries m doi \<and>
    inode_at m' oi = (inode_at m oi)\<lparr>oi_size := 0, oi_direct := replicate 10 0\<rparr> \<and>
    free_set m' = free_set m \<union> file_blocks m oi"
proof -
  have fs: "fs_ok m" "fs_layout m" using assms(1) by (simp_all add: dir_ok_def small_reg_def fs_ok_def)
  note b = inode_bounds [OF fs(2) assms(3)] inode_bounds [OF fs(2) assms(2)]
  obtain m' where m': "change_size m oi 0 = Some (Inr (), m')"
      "inode_at m' oi = (inode_at m oi)\<lparr>oi_size := 0, oi_direct := replicate 10 0\<rparr>"
      "free_set m' = free_set m \<union> file_blocks m oi" "fs_ok m'" "only_inode m oi m'"
    using change_size_zero [OF fs(1) inode_addr_ospfs_inode [OF fs(2) assms(3)] small(1)]
    by (auto simp: file_blocks_def)
  have fr: "m' y = m y" if "inode_lo m \<le> y" "y < oi \<or> oi + 64 \<le> y" for y
    using m'(5) that unfolding only_inode_def by (metis not_le)
  have "inode_at m' doi = inode_at m doi"
    using inode_addrs_apart [OF fs(2) assms(2,3) assms(4) [symmetric]] b by (intro inode_at_cong fr) auto
  moreover have "file_blocks m doi \<inter> free_set m' = {}"
    using dir_blocks_used [OF assms(1)] small(2) m'(3) by blast
  moreover have "super m' = super m" using m'(5) by (simp add: only_inode_def)
  moreover have "m' y = m y" if "1024 * data_start m \<le> y" for y using b that by (intro fr) auto
  ultimately show ?thesis using m' dir_cong_free [OF assms(1) _ _ _ m'(4)] by blast
qed

lemma ospfs_unlink_last:
  assumes "ospfs_inode m ino = Some oi" "ospfs_inode m dir_ino = Some doi"
    "unlink_loop m doi name 0 0 = Some (off, od)" "off \<noteq> oi_size (inode_at m doi)"
    "m1 = (if oi_ftype (inode_at m oi) = OSPFS_FTYPE_SYMLINK then (store32 m oi 0)(oi + 12 := 0) else m)"
    "m2 = store32 m1 od 0" "m3 = set_oi_nlink m2 oi (oi_nlink (inode_at m2 oi) - 1)"
    "oi_nlink (inode_at m3 oi) = 0" "change_size m3 oi 0 = Some (r, m4)"
  shows "ospfs_unlink m ino dir_ino name = Some (Inr (), m4)"
  using assms(1-4,8,9) unfolding ospfs_unlink_def Let_def assms(7) assms(6) assms(5)
  by (simp only: prod.case option.case if_False if_True simp_thms)

lemma ospfs_unlink_keeps:
  assumes "ospfs_inode m ino = Some oi" "ospfs_inode m dir_ino = Some doi"
    "unlink_loop m doi name 0 0 = Some (off, od)" "off \<noteq> oi_size (inode_at m doi)"
    "m1 = (if oi_ftype (inode_at m oi) = OSPFS_FTYPE_SYMLINK then (store32 m oi 0)(oi + 12 := 0) else m)"
    "m2 = store32 m1 od 0" "m3 = set_oi_nlink m2 oi (oi_nlink (inode_at m2 oi) - 1)"
    "oi_nlink (inode_at m3 oi) \<noteq> 0"
  shows "ospfs_unlink m ino dir_ino name = Some (Inr (), m3)"
  using assms(1-4,8) unfolding ospfs_unlink_def Let_def assms(7) assms(6) assms(5)
  by (simp only: prod.case option.case if_False)

text \<open>C15: unlinking blanks the entry and takes one link away. When other links remain, the file stays;
a symbolic link, however, loses its text although other names still lead to it. With the last link
gone, a file of at most ten blocks, none of them the directory's, is emptied and its blocks are free.
The directory is intact otherwise.\<close>

theorem ospfs_unlink_entry:
  assumes ok: "dir_ok m doi" "ospfs_inode m dir_ino = Some doi"
    and name: "0 \<notin> set name" "dir_find (dir_entries m doi) name = Some k"
    and ino: "ospfs_inode m ino = Some oi" "ino \<noteq> dir_ino"
    and final: "final = (oi_nlink (inode_at m oi) = 1 \<and> oi_ftype (inode_at m oi) \<noteq> OSPFS_FTYPE_SYMLINK)"
      "final \<longrightarrow> small_file (data_block m) (view m oi) \<and> file_blocks m oi \<inter> file_blocks m doi = {}"
  shows "\<exists>m'. ospfs_unlink m ino dir_ino name = Some (Inr (), m') \<and>
    dir_ok m' doi \<and> dir_entries m' doi = (dir_entries m doi)[k := (0, name)] \<and>
    oi_nlink (inode_at m' oi) = oi_nlink (inode_at m oi) - 1 \<and>
    (if oi_ftype (inode_at m oi) = OSPFS_FTYPE_SYMLINK
     then si_size (symlink_at m' oi) = 0 \<and> hd (si_symlink (symlink_at m' oi)) = 0
     else if final then inode_at m' oi = (inode_at m oi)\<lparr>oi_nlink := 0, oi_size := 0, oi_direct := replicate 10 0\<rparr>
     else inode_at m' oi = (inode_at m oi)\<lparr>oi_nlink := oi_nlink (inode_at m oi) - 1\<rparr>) \<and>
    free_set m' = (if final then free_set m \<union> file_blocks m oi else free_set m)"
proof -
  have fs: "fs_ok m" "fs_layout m" using ok(1) by (simp_all add: dir_ok_def small_reg_def fs_ok_def)
  note k = dir_find_some [OF name(2)]
  obtain off where loop: "unlink_loop m doi name 0 0 = Some (off, entry_addr m doi k)"
      "off < oi_size (inode_at m doi)"
    using unlink_loop_entries [OF ok(1) name(1), of 0 0] name(2) by auto
  define m1 where "m1 = (if oi_ftype (inode_at m oi) = OSPFS_FTYPE_SYMLINK
      then (store32 m oi 0)(oi + 12 := 0) else m)"
  have fr1: "m1 y = m y" if "y < oi \<or> oi + 64 \<le> y" for y
    using that by (auto simp: m1_def mem_simps)
  note w1 = inode_write [OF fs(1) ino(1) fr1]
  have dir1: "dir_ok m1 doi" "dir_entries m1 doi = dir_entries m doi" "inode_at m1 doi = inode_at m doi"
    using w1(4,5) [of dir_ino doi] ok ino(2) by auto
  have e1: "entry_addr m1 doi k = entry_addr m doi k" "n_entries m1 doi = n_entries m doi"
    by (simp_all add: entry_addr_def n_entries_def dir1(3))
  define od where "od = entry_addr m doi k"
  define m2 where "m2 = store32 m1 od 0"
  have k1: "k < n_entries m1 doi" using k by (simp add: e1)
  obtain i where i: "i < 124" "m1 (od + 4 + i) = 0"
    using dir1(1) k1 e1(1) by (auto simp: dir_ok_def od_def)
  have fr2: "m2 y = m1 y" if "y < entry_addr m1 doi k \<or> entry_addr m1 doi k + 128 \<le> y" for y
    using that by (auto simp: m2_def mem_simps e1 od_def)
  have nul2: "m2 (entry_addr m1 doi k + 4 + i) = 0"
    using i by (simp add: m2_def mem_simps e1 od_def)
  note w2 = write_entry [OF dir1(1) k1 fr2 i(1) nul2]
  have ent: "entry_at m2 od = (0, name)"
  proof -
    have "entry_name m2 od = entry_name m1 od"
      by (simp add: entry_name_def m2_def read_bytes_def mem_simps)
    also have "\<dots> = snd (dir_entries m1 doi ! k)"
      using k1 by (simp add: nth_dir_entries entry_at_def od_def e1)
    finally show ?thesis using k dir1(2) by (simp add: entry_at_def m2_def mem_simps)
  qed
  have in2: "ospfs_inode m2 j = ospfs_inode m j" for j
    using w2(3) w1(2) by (intro ospfs_inode_cong) simp
  have oi2: "m2 y = m1 y" if "oi \<le> y" "y < oi + 64" for y
  proof -
    have "1024 * data_start m \<le> od"
      unfolding od_def entry_addr_def using slot_addr_lo [of m doi] dir_size [OF ok(1)] ok(1) k by (simp add: dir_ok_def)
    then show ?thesis using inode_bounds [OF fs(2) ino(1)] that by (auto simp: m2_def mem_simps)
  qed
  have i2: "inode_at m2 oi = inode_at m1 oi" by (rule inode_at_cong) (simp add: oi2)
  define m3 where "m3 = set_oi_nlink m2 oi (oi_nlink (inode_at m2 oi) - 1)"
  have nl: "oi_nlink (inode_at m2 oi) = oi_nlink (inode_at m oi)"
    by (simp add: i2 m1_def inode_at_fields load32_def store32_def)
  have oi2': "ospfs_inode m2 ino = Some oi" using ino(1) by (simp add: in2)
  have fr3: "m3 y = m2 y" if "y < oi \<or> oi + 64 \<le> y" for y
    using that by (auto simp: m3_def set_oi_nlink_def mem_simps)
  have fs2: "fs_ok m2" by (rule w2(5))
  note w3 = inode_write [OF fs2 oi2' fr3]
  have dir3: "dir_ok m3 doi" "dir_entries m3 doi = dir_entries m2 doi"
    using w3(5) [of dir_ino doi] ok(2) ino(2) w2(1) by (simp_all add: in2)
  have free3: "free_set m3 = free_set m" using w3(3) w2(4) w1(3) by simp
  have ent3: "dir_entries m3 doi = (dir_entries m doi)[k := (0, name)]"
    using dir3(2) w2(6) dir1(2) ent e1(1) by (simp add: od_def)
  have i3: "inode_at m3 oi = (inode_at m1 oi)\<lparr>oi_nlink := oi_nlink (inode_at m oi) - 1\<rparr>"
    by (simp add: m3_def mem_simps nl [unfolded i2] i2)
  have sym3: "load32 m3 oi = 0 \<and> m3 (oi + 12) = 0"
    if "oi_ftype (inode_at m oi) = OSPFS_FTYPE_SYMLINK"
  proof -
    have "m3 y = m1 y" if "oi \<le> y" "y < oi + 64" "y < oi + 8 \<or> oi + 12 \<le> y" for y
      using that oi2 by (auto simp: m3_def set_oi_nlink_def mem_simps)
    then have "load32 m3 oi = load32 m1 oi" "m3 (oi + 12) = m1 (oi + 12)"
      by (auto intro: load32_cong)
    moreover have "load32 m1 oi = 0" "m1 (oi + 12) = 0"
      using that by (simp_all add: m1_def load32_def store32_def)
    ultimately show ?thesis by simp
  qed
  have sym: "si_size (symlink_at m' oi) = 0 \<and> hd (si_symlink (symlink_at m' oi)) = 0"
    if "load32 m' oi = 0" "m' (oi + 12) = 0" for m'
    using that by (simp add: symlink_at_fields read_bytes_def hd_map)
  have off: "off \<noteq> oi_size (inode_at m doi)" using loop(2) by simp
  have m2': "m2 = store32 m1 (entry_addr m doi k) 0" by (simp add: m2_def od_def)
  show ?thesis
  proof (cases "oi_nlink (inode_at m oi) = 1")
    case False
    have "oi_nlink (inode_at m3 oi) \<noteq> 0" using False by (simp add: m3_def mem_simps nl)
    then have res: "ospfs_unlink m ino dir_ino name = Some (Inr (), m3)"
      by (rule ospfs_unlink_keeps [OF ino(1) ok(2) loop(1) off m1_def m2' m3_def])
    show ?thesis
      using res dir3 ent3 i3 sym3 sym [of m3] free3 False final(1) nl
      by (intro exI [of _ m3]) (auto simp: m1_def m3_def mem_simps)
  next
    case True
    have z3: "oi_nlink (inode_at m3 oi) = 0" using True by (simp add: m3_def mem_simps nl)
    have in3: "ospfs_inode m3 j = ospfs_inode m j" for j
      using w3(2) w2(3) w1(2) by (intro ospfs_inode_cong) simp
    note last = ospfs_unlink_last [OF ino(1) ok(2) loop(1) off m1_def m2' m3_def z3]
    show ?thesis
    proof (cases "oi_ftype (inode_at m oi) = OSPFS_FTYPE_SYMLINK")
      case link: True
      have z: "oi_size (inode_at m3 oi) = 0" using sym3 [OF link] by (simp add: inode_at_fields)
      have "grow_loop m3 oi 0 0 = Some (Inr (), 0, m3)" "shrink_loop m3 oi 0 (Inr ()) = Some (Inr (), m3)"
        by (subst grow_loop.simps, simp add: z) (subst shrink_loop.simps, simp add: z)
      then have "change_size m3 oi 0 = Some (Inr (), set_oi_size m3 oi 0)"
        by (intro change_size_stages) simp_all
      note res = last [OF this]
      have fr4: "set_oi_size m3 oi 0 y = m3 y" if "y < oi \<or> oi + 64 \<le> y" for y
        using that by (auto simp: set_oi_size_def mem_simps)
      have oi3: "ospfs_inode m3 ino = Some oi" using ino(1) by (simp add: in3)
      note w4 = inode_write [OF w3(1) oi3 fr4]
      have "load32 (set_oi_size m3 oi 0) oi = 0" "set_oi_size m3 oi 0 (oi + 12) = 0"
        using sym3 [OF link] by (simp_all add: set_oi_size_def mem_simps)
      then show ?thesis
        using res w4(3) w4(5) [of dir_ino doi] dir3(1) ok(2) ino(2) ent3 free3 final(1) link True z3 sym
        by (intro exI [of _ "set_oi_size m3 oi 0"]) (auto simp: in3 mem_simps)
    next
      case link: False
      have fin: "final" using final(1) True link by simp
      have i3': "inode_at m3 oi = (inode_at m oi)\<lparr>oi_nlink := 0\<rparr>"
        using i3 True link by (simp add: m1_def)
      have sup: "super m3 = super m" using w3(2) w2(3) w1(2) by simp
      have fb: "file_blocks m3 oi = file_blocks m oi"
        by (simp add: file_blocks_def i3' nblk_def)
      have fd: "file_blocks m3 doi = file_blocks m doi"
        using w3(4) [of dir_ino doi] w2(2) dir1(3) ok(2) ino(2) by (simp add: file_blocks_def in2)
      have "small_file (data_block m3) (view m3 oi)"
        using final(2) fin unfolding data_block_cong [OF sup] view_def i3' free3
        by (simp add: small_file_def nblk_def)
      then obtain m4 where m4: "change_size m3 oi 0 = Some (Inr (), m4)" "dir_ok m4 doi"
          "dir_entries m4 doi = dir_entries m3 doi"
          "inode_at m4 oi = (inode_at m3 oi)\<lparr>oi_size := 0, oi_direct := replicate 10 0\<rparr>"
          "free_set m4 = free_set m3 \<union> file_blocks m3 oi"
        using dir_change_size_zero [OF dir3(1), of dir_ino ino oi] ok(2) ino final(2) fin fb fd by (auto simp: in3)
      show ?thesis
        using last [OF m4(1)] m4(2-5) ent3 i3' fb free3 fin link True by (intro exI [of _ m4]) simp
    qed
  qed
qed

lemma two_le_u32: "k \<le> 80 \<Longrightarrow> (2 :: u32) \<le> of_nat (2 + k)"
  unfolding word_le_nat_alt by (subst unat_of_nat_lt [of _ 1000]) simp_all

lemma strlen_mem_name:
  assumes "name_eq m a name" "k \<le> length name"
  shows "strlen_from m a k = Some (length name)"
  using assms(2)
proof (induction k rule: inc_induct)
  case base
  show ?case using assms(1) by (subst strlen_from.simps) (simp add: name_eq_def)
next
  case (step k)
  then show ?case using assms(1) by (subst strlen_from.simps) (simp add: name_eq_def list_all_iff)
qed

lemma readdir_loop_entries:
  assumes ok: "dir_ok m oi" "k \<le> n_entries m oi"
    and valid: "\<forall>e \<in> set (dir_entries m oi). fst e \<noteq> 0 \<longrightarrow>
      (\<exists>eoi. ospfs_inode m (fst e) = Some eoi \<and> oi_ftype (inode_at m eoi) \<le> 2)"
  defines "collect \<equiv> (\<lambda>s name pos ino type. (0 :: int, s @ [(name, ino)]))"
  shows "readdir_loop m oi collect (of_nat (2 + k)) s =
    Some (Inr 1, of_nat (2 + n_entries m oi),
      s @ map prod.swap (filter (\<lambda>e. fst e \<noteq> 0) (drop k (dir_entries m oi))))"
  using ok(2)
proof (induction k arbitrary: s rule: inc_induct)
  case base
  let ?n = "n_entries m oi"
  have "?n \<le> 80" using dir_size [OF ok(1)] by simp
  then have "(2 :: u32) \<le> of_nat (2 + ?n)" by (rule two_le_u32)
  then show ?case using dir_step(1) [OF ok(1), of ?n] by (subst readdir_loop.simps) (simp add: not_less)
next
  case (step k)
  have "k \<le> 80" using dir_size [OF ok(1)] step.hyps(2) by simp
  then have two: "(2 :: u32) \<le> of_nat (2 + k)" by (rule two_le_u32)
  have pos: "of_nat (2 + k) - 2 = (of_nat k :: u32)" "of_nat (2 + k) + 1 = (of_nat (2 + Suc k) :: u32)" by simp_all
  note st = dir_step [OF ok(1) less_imp_le [OF step.hyps(2)]]
  let ?od = "entry_addr m oi k"
  have e: "dir_entries m oi ! k = (load32 m ?od, entry_name m ?od)"
    using step.hyps(2) by (simp add: nth_dir_entries entry_at_def)
  have mem: "(load32 m ?od, entry_name m ?od) \<in> set (dir_entries m oi)"
    using step.hyps(2) e by (metis length_dir_entries nth_mem)
  have nz: "0 \<notin> set (entry_name m ?od)" by (auto simp: entry_name_def dest: set_takeWhileD)
  then have ne: "name_eq m (?od + 4) (entry_name m ?od)"
    using entry_name_eq [OF ok(1) step.hyps(2)] by simp
  note len = strlen_mem_name [OF ne, of 0]
  have rd: "read_bytes m (?od + 4) (length (entry_name m ?od)) = entry_name m ?od"
    using ne by (simp add: name_eq_def)
  have unfold: "readdir_loop m oi collect (of_nat (2 + k)) s =
     (if load32 m ?od = 0 then readdir_loop m oi collect (of_nat (2 + Suc k)) s
      else readdir_loop m oi collect (of_nat (2 + Suc k)) (s @ [(entry_name m ?od, load32 m ?od)]))"
  proof -
    have ty: "\<exists>eoi t. ospfs_inode m (load32 m ?od) = Some eoi \<and> dtype_of (oi_ftype (inode_at m eoi)) = Some t"
      if nz: "load32 m ?od \<noteq> 0"
    proof -
      obtain eoi where eoi: "ospfs_inode m (load32 m ?od) = Some eoi" "oi_ftype (inode_at m eoi) \<le> 2"
        using valid mem nz by fastforce
      then have "unat (oi_ftype (inode_at m eoi)) \<in> {0, 1, 2}" by (auto simp: word_le_nat_alt)
      then have "oi_ftype (inode_at m eoi) \<in> {0, 1, 2}" by (auto simp: unat_eq_iff_u32)
      then show ?thesis using eoi(1) by (auto simp: dtype_of_def)
    qed
    obtain w where w: "w = (of_nat (128 * k) :: u32)" by blast
    obtain p where p: "p = (of_nat (2 + k) :: u32)" by blast
    obtain p' where p': "p' = (of_nat (2 + Suc k) :: u32)" by blast
    have a: "128 * (p - 2) = w" "128 * p - 256 = w" "p + 1 = p'" "2 \<le> p" "\<not> p < 2" using two by (simp_all add: p p' w not_less)
    have data: "w < oi_size (inode_at m oi)" "ospfs_inode_data m oi w = ?od"
      using st(1) st(3) [OF step.hyps(2)] step.hyps(2) by (simp_all add: w del: of_nat_mult)
    have c: "collect s nm ps i t = (0, s @ [(nm, i)])" for s nm ps i t by (simp add: collect_def)
    have "readdir_loop m oi collect p s =
       (if load32 m ?od = 0 then readdir_loop m oi collect p' s
        else readdir_loop m oi collect p' (s @ [(entry_name m ?od, load32 m ?od)]))"
      using ty data(1) len rd
      by (subst readdir_loop.simps) (auto simp: a data Let_def direntry_at_fields c not_less [symmetric])
    then show ?thesis by (simp only: p p')
  qed
  show ?case
    unfolding unfold step.IH using e step.hyps(2)
    by (simp add: drop_entries entry_at_def del: of_nat_add)
qed

text \<open>C16: \<open>ospfs_dir_readdir\<close> hands to an accepting \<open>filldir\<close> the two dot entries and then every
entry in use exactly once, in order, and ends with 1 at the directory's end.\<close>

theorem ospfs_dir_readdir_lists:
  assumes "dir_ok m oi" "ospfs_inode m dir_ino = Some oi"
    and "\<forall>e \<in> set (dir_entries m oi). fst e \<noteq> 0 \<longrightarrow>
      (\<exists>eoi. ospfs_inode m (fst e) = Some eoi \<and> oi_ftype (inode_at m eoi) \<le> 2)"
  shows "ospfs_dir_readdir m dir_ino parent_ino (\<lambda>s name pos ino type. (0, s @ [(name, ino)])) 0 [] =
    Some (Inr 1, of_nat (2 + n_entries m oi),
      [([46], dir_ino), ([46, 46], parent_ino)] @
      map prod.swap (filter (\<lambda>e. fst e \<noteq> 0) (dir_entries m oi)))"
  using readdir_loop_entries [OF assms(1) _ assms(3), of 0 "[([46], dir_ino), ([46, 46], parent_ino)]"] assms(2)
  by (simp add: ospfs_dir_readdir_def)

text \<open>following a conditional link works once: root gets the text up to the colon, others the
text after it, but the colon is overwritten on disk and the next follow dereferences the
null pointer of a failed \<open>strchr\<close>.\<close>

theorem ospfs_follow_link_twice:
  assumes "fs_layout m" "ospfs_inode m ino = Some oi"
    "read_bytes m (oi + 12) (6 + length p1) = [114, 111, 111, 116, 63] @ p1 @ [58]"
    "0 \<notin> set p1" "58 \<notin> set p1" "length p1 \<le> 40"
  shows "\<exists>m'. ospfs_follow_link m uid ino =
      Some (if uid = 0 then oi + 17 else oi + 18 + length p1, m') \<and>
    read_bytes m' (oi + 17) (length p1) = p1 \<and> strlen_mem m' (oi + 17) = Some (length p1) \<and>
    ospfs_follow_link m' uid ino = None"
proof -
  let ?n = "5 + length p1"
  define str where "str = [114, 111, 111, 116, 63] @ p1 @ [58 :: u8]"
  have nth: "m (oi + 12 + i) = str ! i" if "i \<le> ?n" for i
  proof -
    have "read_bytes m (oi + 12) (6 + length p1) ! i = str ! i" by (simp only: assms(3) str_def)
    then show ?thesis using that by (simp add: read_bytes_def)
  qed
  have mid: "str ! i \<noteq> 0 \<and> str ! i \<noteq> 58" if "i < ?n" for i
  proof -
    let ?xs = "[114, 111, 111, 116, 63] @ p1"
    have "str = ?xs @ [58]" by (simp add: str_def)
    then have "str ! i = ?xs ! i" using that by (simp only: nth_append) simp
    also have "\<dots> \<in> set ?xs" using that by (intro nth_mem) simp
    finally have "str ! i \<in> set ?xs" .
    then show ?thesis using assms(4,5) by auto
  qed
  define m' where "m' = m(oi + 12 + ?n := 0)"
  have chr: "strchr_mem m (oi + 12 + i) 58 = Some (Some (oi + 12 + ?n))" if "i \<le> ?n" for i
    using that
  proof (induction i rule: inc_induct)
    case base
    have "m (oi + 12 + ?n) = 58" using nth [of ?n] by (simp add: str_def nth_append)
    then show ?case by (subst strchr_mem.simps) simp
  next
    case (step i)
    then show ?case using nth [of i] mid [of i] by (subst strchr_mem.simps) simp
  qed
  have chr': "strchr_mem m' (oi + 12 + i) 58 = Some None" if "i \<le> ?n" for i
    using that
  proof (induction i rule: inc_induct)
    case base
    then show ?case by (subst strchr_mem.simps) (simp add: m'_def)
  next
    case (step i)
    have "m' (oi + 12 + i) = str ! i" using nth [of i] step.hyps by (simp add: m'_def)
    then show ?case using step mid [of i] by (subst strchr_mem.simps) simp
  qed
  have five: "read_bytes m (oi + 12) 5 = [114, 111, 111, 116, 63]" "read_bytes m' (oi + 12) 5 = [114, 111, 111, 116, 63]"
    using nth [of 0] nth [of 1] nth [of 2] nth [of 3] nth [of 4]
    by (simp_all add: read_bytes_def upt_rec str_def m'_def)
  have "same_meta m m'"
    using inode_bounds [OF assms(1,2)] by (auto simp: same_meta_def m'_def)
  then have sup: "super m' = super m" by (rule same_meta_super [OF assms(1)])
  have in': "ospfs_inode m' ino = Some oi" using assms(2) ospfs_inode_cong [OF sup, of ino] by simp
  have path: "m' (oi + 17 + i) = p1 ! i" if "i < length p1" for i
    using nth [of "5 + i"] that by (simp add: m'_def str_def nth_append add.assoc)
  have "name_eq m' (oi + 17) p1"
    using path assms(4) by (auto simp: name_eq_def list_all_iff read_bytes_def m'_def in_set_conv_nth intro: nth_equalityI)
  moreover have "ospfs_follow_link m uid ino = Some (if uid = 0 then oi + 17 else oi + 18 + length p1, m')"
    using chr [of 0] by (simp add: ospfs_follow_link_def assms(2) five m'_def)
  moreover have "ospfs_follow_link m' uid ino = None"
    using chr' [of 0] by (simp add: ospfs_follow_link_def in' five)
  ultimately show ?thesis
    using strlen_mem_name [of m' "oi + 17" p1 0] by (auto simp: name_eq_def)
qed

section \<open>The demonstration disk's root directory\<close>

lemma demo_zero: "4104 \<le> y \<Longrightarrow> y < 5120 \<Longrightarrow> demo_disk y = 0"
  by (simp add: demo_disk_def store32_apply_other)

lemma demo_entry_addr: "k < 8 \<Longrightarrow> entry_addr demo_disk 3136 k = 4096 + 128 * k"
  by (simp add: entry_addr_def slot_addr_def inode_at_demo)

lemma demo_bytes: "demo_disk 4100 = 104" "demo_disk 4101 = 105" "demo_disk 4102 = 0" "load32 demo_disk 4096 = 2"
  by (simp_all add: demo_disk_def store32_def load32_def)

lemma dir_entries_demo: "dir_entries demo_disk 3136 = (2, [104, 105]) # replicate 7 (0, [])"
proof (rule nth_equalityI)
  have n: "n_entries demo_disk 3136 = 8" by (simp add: n_entries_def inode_at_demo)
  then show "length (dir_entries demo_disk 3136) = length ((2 :: u32, [104, 105 :: u8]) # replicate 7 (0, []))"
    by simp
  fix k assume "k < length (dir_entries demo_disk 3136)"
  then have k: "k < 8" by (simp add: n)
  show "dir_entries demo_disk 3136 ! k = ((2, [104, 105]) # replicate 7 (0, [])) ! k"
  proof (cases k)
    case 0
    have "name_eq demo_disk 4100 [104, 105]"
      by (simp add: name_eq_def read_bytes_def upt_rec demo_bytes)
    moreover have "\<exists>i < 124. demo_disk (4100 + i) = 0" by (intro exI [of _ 2]) (simp add: demo_bytes)
    ultimately have "entry_name demo_disk 4096 = [104, 105]"
      using name_eq_iff [of demo_disk 4100 "[104, 105]"] by (simp add: entry_name_def)
    then show ?thesis using n 0 by (simp add: nth_dir_entries entry_at_def demo_entry_addr demo_bytes)
  next
    case (Suc j)
    define a where "a = 4096 + 128 * k"
    have a: "entry_addr demo_disk 3136 k = a" "4104 \<le> a" "a + 128 \<le> 5120"
      using k Suc by (simp_all add: a_def demo_entry_addr)
    have "load32 demo_disk a = 0" using a by (simp add: load32_def demo_zero)
    moreover have "entry_name demo_disk a = []"
      using a by (simp add: entry_name_def read_bytes_def upt_rec demo_zero)
    ultimately show ?thesis using n k Suc a by (simp add: nth_dir_entries entry_at_def)
  qed
qed

lemma demo_replicate:
  "replicate 7 (0 :: u32, [] :: u8 list) = [(0, []), (0, []), (0, []), (0, []), (0, []), (0, []), (0, [])]"
  by (simp add: numeral_eq_Suc)

lemmas demo_entries = dir_entries_demo [unfolded demo_replicate]

lemma dir_ok_demo: "dir_ok demo_disk 3136"
proof -
  have nb: "nblk (inode_at demo_disk 3136) = 1" by (simp add: nblk_eq inode_at_demo)
  have r: "replicate 9 (0 :: u32) = [0, 0, 0, 0, 0, 0, 0, 0, 0]" by (simp add: numeral_eq_Suc)
  have "small_file (data_block demo_disk) (view demo_disk 3136)"
    by (simp add: small_file_def view_def nb [unfolded inode_at_demo] r inode_at_demo data_block_def demo_start free_set_demo)
  then have "small_reg demo_disk 3136"
    using fs_ok_demo demo_start by (simp add: small_reg_def inode_addr_def inode_at_demo)
  moreover have "\<exists>i < 124. demo_disk (entry_addr demo_disk 3136 k + 4 + i) = 0" if "k < 8" for k
    using that demo_zero [of "4096 + 128 * k + 4 + 10"] by (intro exI [of _ 10]) (simp add: demo_entry_addr)
  ultimately show ?thesis
    by (auto simp: dir_ok_def inode_at_demo n_entries_def nb [unfolded inode_at_demo])
qed

lemma dir_room_demo: "dir_room demo_disk 3136"
  by (simp add: dir_room_def demo_entries)

lemma demo_nlinks: "load32 demo_disk 3080 = 1" "load32 demo_disk 3144 = 1" "load32 demo_disk 3208 = 1"
  "load32 demo_disk 3272 = 0"
  by (simp_all add: demo_simps)

lemma free_inode_demo: "free_inode demo_disk 0 = 3"
proof -
  have i: "ospfs_inode demo_disk 0 = Some 3072" "ospfs_inode demo_disk 3 = Some 3264"
    by (simp_all add: ospfs_inode_def ospfs_block_def word_le_nat_alt)
  have "free_inode demo_disk 3 = 3"
    by (subst free_inode.simps) (simp add: i inode_at_fields demo_nlinks)
  then have "free_inode demo_disk 2 = 3"
    by (subst free_inode.simps) (simp add: inode_demo inode_at_fields demo_nlinks)
  then have "free_inode demo_disk 1 = 3"
    by (subst free_inode.simps) (simp add: inode_demo inode_at_fields demo_nlinks)
  then show ?thesis
    by (subst free_inode.simps) (simp add: i inode_at_fields demo_nlinks)
qed

lemma ospfs_create_entry_witness:
  "\<exists>m' i. ospfs_create demo_disk True 1 [120] 0x1A4 = Some (Inr i, m') \<and>
     dir_entries m' 3136 = [(2, [104, 105]), (3, [120]), (0, []), (0, []), (0, []), (0, []), (0, []), (0, [])] \<and>
     ospfs_dir_lookup m' True 1 [120] = Some (Inr (Some i))"
  using ospfs_create_entry [OF dir_ok_demo inode_demo(1), of "[120]" 3 "0x1A4"] dir_room_demo free_inode_demo
  by (auto simp: demo_entries inode_at_demo)

lemma ospfs_link_entry_witness:
  "\<exists>m'. ospfs_link demo_disk 2 1 [120] = Some (Inr (), m') \<and>
     dir_entries m' 3136 = [(2, [104, 105]), (2, [120]), (0, []), (0, []), (0, []), (0, []), (0, []), (0, [])] \<and>
     oi_nlink (inode_at m' 3200) = 2"
  using ospfs_link_entry [OF dir_ok_demo inode_demo(1), of "[120]" 2 3200] dir_room_demo inode_demo(2)
  by (auto simp: demo_entries inode_at_demo)

lemma ospfs_dir_readdir_lists_witness:
  "ospfs_dir_readdir demo_disk 1 1 (\<lambda>s name pos ino type. (0, s @ [(name, ino)])) 0 [] =
     Some (Inr 1, 10, [([46], 1), ([46, 46], 1), ([104, 105], 2)])"
proof -
  have n: "n_entries demo_disk 3136 = 8" by (simp add: n_entries_def inode_at_demo)
  show ?thesis
    using ospfs_dir_readdir_lists [OF dir_ok_demo inode_demo(1), of 1] inode_demo(2)
    by (simp add: demo_entries inode_at_demo n)
qed

text \<open>On the demonstration disk, with a second link to inode 2 and without.\<close>

lemma ospfs_unlink_entry_witness:
  "(\<exists>m'. ospfs_unlink (set_oi_nlink demo_disk 3200 2) 2 1 [104, 105] = Some (Inr (), m') \<and>
     dir_entries m' 3136 = [(0, [104, 105]), (0, []), (0, []), (0, []), (0, []), (0, []), (0, []), (0, [])] \<and>
     oi_nlink (inode_at m' 3200) = 1) \<and>
   (\<exists>m'. ospfs_unlink demo_disk 2 1 [104, 105] = Some (Inr (), m') \<and>
     dir_entries m' 3136 = [(0, [104, 105]), (0, []), (0, []), (0, []), (0, []), (0, []), (0, []), (0, [])] \<and>
     oi_size (inode_at m' 3200) = 0 \<and> free_set m' = {5, 6, 7})"
proof -
  let ?m = "set_oi_nlink demo_disk 3200 2"
  have fr: "?m y = demo_disk y" if "y < 3200 \<or> 3200 + 64 \<le> y" for y
    using that by (auto simp: set_oi_nlink_def mem_simps)
  note w = inode_write [OF fs_ok_demo inode_demo(2) fr]
  have d: "dir_ok ?m 3136" "dir_entries ?m 3136 = dir_entries demo_disk 3136"
    using w(5) [of 1 3136] inode_demo(1) dir_ok_demo by auto
  have i: "ospfs_inode ?m j = ospfs_inode demo_disk j" for j
    using w(2) by (intro ospfs_inode_cong) auto
  have n: "inode_at ?m 3200 = (inode_at demo_disk 3200)\<lparr>oi_nlink := 2\<rparr>" by (simp add: mem_simps)
  have nb: "nblk (inode_at demo_disk 3200) = 1" "nblk (inode_at demo_disk 3136) = 1"
    by (simp_all add: nblk_eq inode_at_demo)
  have fb: "file_blocks demo_disk 3200 = {5}" "file_blocks demo_disk 3136 = {4}"
    by (simp_all add: file_blocks_def nb) (simp_all add: inode_at_demo)
  have "\<exists>m'. ospfs_unlink ?m 2 1 [104, 105] = Some (Inr (), m') \<and>
     dir_entries m' 3136 = [(0, [104, 105]), (0, []), (0, []), (0, []), (0, []), (0, []), (0, []), (0, [])] \<and>
     oi_nlink (inode_at m' 3200) = 1"
    using ospfs_unlink_entry [OF d(1), of 1 "[104, 105]" 0 2 3200 False]
    by (auto simp: d(2) demo_entries i inode_demo n inode_at_demo)
  moreover have "\<exists>m'. ospfs_unlink demo_disk 2 1 [104, 105] = Some (Inr (), m') \<and>
     dir_entries m' 3136 = [(0, [104, 105]), (0, []), (0, []), (0, []), (0, []), (0, []), (0, []), (0, [])] \<and>
     oi_size (inode_at m' 3200) = 0 \<and> free_set m' = {5, 6, 7}"
    using ospfs_unlink_entry [OF dir_ok_demo, of 1 "[104, 105]" 0 2 3200 True] small_file_demo
    by (auto simp: demo_entries inode_demo fb inode_at_demo free_set_demo)
  ultimately show ?thesis by blast
qed

lemma ospfs_follow_link_twice_witness:
  "let m = write_bytes demo_disk 3212 [114, 111, 111, 116, 63, 97, 58, 98, 0] in
   (\<exists>m'. ospfs_follow_link m 0 2 = Some (3217, m') \<and> ospfs_follow_link m' 0 2 = None)"
proof -
  let ?m = "write_bytes demo_disk 3212 [114, 111, 111, 116, 63, 97, 58, 98, 0]"
  have meta: "same_meta demo_disk ?m" by (auto simp: same_meta_def mem_simps)
  have lay: "fs_layout demo_disk" using fs_ok_demo by (simp add: fs_ok_def)
  have sup: "super ?m = super demo_disk" by (rule same_meta_super [OF lay meta])
  have "fs_layout ?m" using lay layout_cong [OF sup] by simp
  moreover have "ospfs_inode ?m 2 = Some 3200" using inode_demo(2) ospfs_inode_cong [OF sup, of 2] by simp
  moreover have "read_bytes ?m 3212 7 = [114, 111, 111, 116, 63, 97, 58]"
    by (simp add: read_bytes_def upt_rec write_bytes_def)
  ultimately show ?thesis
    using ospfs_follow_link_twice [of ?m 2 3200 "[97]" 0] by auto
qed
end
