(* ===== verification/Osprd.thy ===== *)
theory Osprd
  imports Prelude
begin

text \<open>
  The ram disk of \<^verbatim>\<open>Lab2/osprd.c\<close> with its read/write lock, and the uniprocessor spin lock
  of \<^verbatim>\<open>Lab2/spinlock.h\<close>. The handlers are functions on the device record; where a process
  sleeps or yields the code is cut into atomic sections, and \<open>lock_step\<close> interleaves the
  sections of any number of processes, as the non-preemptive uniprocessor kernel the
  header \<^verbatim>\<open>spinlock.h\<close> is made for does.
\<close>

section \<open>The spin lock\<close>

text \<open>The returned flag says that the caller was reported (and, for a lock, killed).\<close>

definition osp_spin_lock_init :: int where
  "osp_spin_lock_init = 0"

definition osp_spin_lock :: "int \<Rightarrow> int \<times> bool" where
  "osp_spin_lock lock = (lock - 1, lock < 0)"

definition osp_spin_unlock :: "int \<Rightarrow> int \<times> bool" where
  "osp_spin_unlock lock = (lock + 1, lock + 1 > 0)"

section \<open>Device, files and requests\<close>

record osprd_info =
  ticket_head :: u32
  ticket_tail :: u32
  write_ids :: u32
  read_ids :: u32
  write_locks :: u32
  read_locks :: u32
  write_owner :: int

text \<open>An open file: whether it is a ram disk, open for writing, and marked \<open>F_OSPRD_LOCKED\<close>.\<close>

record ofile =
  is_osprd :: bool
  f_writable :: bool
  f_locked :: bool

record request =
  rq_fs :: bool
  rq_write :: bool
  rq_sector :: u32
  rq_nr_sectors :: u32
  rq_buffer :: "u8 list"

definition SECTOR_SIZE :: u32 where [simp, const_defs]: "SECTOR_SIZE = 512"
definition OSPRDIOCACQUIRE :: u32 where [simp, const_defs]: "OSPRDIOCACQUIRE = 42"
definition OSPRDIOCTRYACQUIRE :: u32 where [simp, const_defs]: "OSPRDIOCTRYACQUIRE = 43"
definition OSPRDIOCRELEASE :: u32 where [simp, const_defs]: "OSPRDIOCRELEASE = 44"

definition osprd_setup :: osprd_info where
  "osprd_setup = \<lparr>ticket_head = 0, ticket_tail = 0, write_ids = 0, read_ids = 0,
     write_locks = 0, read_locks = 0, write_owner = -1\<rparr>"

section \<open>Block requests\<close>

text \<open>
  \<open>base\<close> is the address of \<open>d->data\<close>. The result is the memory, the request with its
  buffer, and the \<open>uptodate\<close> arguments of the calls of \<open>end_request\<close>, in order.
\<close>

definition osprd_process_request ::
  "mem \<Rightarrow> nat \<Rightarrow> u32 \<Rightarrow> request \<Rightarrow> mem \<times> request \<times> int list" where
  "osprd_process_request m base nsectors req =
     (let offset = sint (rq_sector req * SECTOR_SIZE);
          num_bytes = sint (rq_nr_sectors req * SECTOR_SIZE);
          at = nat (int base + offset);
          ended = (if offset + num_bytes > sint (nsectors * SECTOR_SIZE) then [0] else [])
      in if \<not> rq_fs req then (m, req, [0])
         else if rq_write req
         then (write_bytes m at (take (nat num_bytes) (rq_buffer req)), req, ended @ [1])
         else (m, req\<lparr>rq_buffer := read_bytes m at (nat num_bytes)\<rparr>, ended @ [1]))"

fun osprd_process_request_queue ::
  "mem \<Rightarrow> nat \<Rightarrow> u32 \<Rightarrow> request list \<Rightarrow> mem \<times> request list" where
  "osprd_process_request_queue m base nsectors [] = (m, [])"
| "osprd_process_request_queue m base nsectors (req # q) =
     (case osprd_process_request m base nsectors req of
        (m1, req1, _) \<Rightarrow>
          case osprd_process_request_queue m1 base nsectors q of (m2, q2) \<Rightarrow> (m2, req1 # q2))"

section \<open>The lock operations\<close>

definition in_progress :: "osprd_info \<Rightarrow> ofile \<Rightarrow> osprd_info" where
  "in_progress d filp =
     (if is_osprd filp
      then if f_writable filp then d\<lparr>write_ids := 1\<rparr> else d\<lparr>read_ids := 1\<rparr>
      else d)"

fun for_each_open_file ::
  "ofile option list \<Rightarrow> (osprd_info \<Rightarrow> ofile \<Rightarrow> osprd_info) \<Rightarrow> osprd_info \<Rightarrow> osprd_info" where
  "for_each_open_file [] callback d = d"
| "for_each_open_file (fd # fds) callback d =
     for_each_open_file fds callback (case fd of None \<Rightarrow> d | Some filp \<Rightarrow> callback d filp)"

definition condition :: "osprd_info \<Rightarrow> u32 \<Rightarrow> bool \<Rightarrow> bool" where
  "condition d ticket_cur writable =
     (if writable then write_locks d = 0 \<and> read_locks d = 0 \<and> ticket_cur = ticket_tail d
      else write_locks d = 0 \<and> ticket_cur = ticket_tail d)"

text \<open>\<open>OSPRDIOCACQUIRE\<close> up to the test for waiting: the ticket, or \<open>EDEADLK\<close>.\<close>

definition acquire_start ::
  "osprd_info \<Rightarrow> int \<Rightarrow> ofile \<Rightarrow> ofile option list \<Rightarrow> (errno + u32) \<times> osprd_info" where
  "acquire_start d pid filp fds =
     (let ticket_cur = ticket_head d;
          d1 = d\<lparr>ticket_head := ticket_head d + 1, read_ids := 0, write_ids := 0\<rparr>;
          d2 = for_each_open_file fds in_progress d1
      in if read_ids d2 \<noteq> 0 \<and> f_writable filp \<or> write_ids d2 \<noteq> 0 \<and> \<not> f_writable filp \<or>
            pid = write_owner d2 \<and> f_writable filp
         then (Inl EDEADLK, d2) else (Inr ticket_cur, d2))"

definition must_wait :: "osprd_info \<Rightarrow> u32 \<Rightarrow> bool \<Rightarrow> bool" where
  "must_wait d ticket_cur writable =
     (if writable then write_locks d > 0 \<or> read_locks d > 0 \<or> ticket_cur \<noteq> ticket_tail d
      else write_locks d > 0 \<or> ticket_cur \<noteq> ticket_tail d)"

definition acquire_interrupted :: "osprd_info \<Rightarrow> u32 \<Rightarrow> osprd_info" where
  "acquire_interrupted d ticket_cur =
     (if ticket_cur = ticket_tail d then d\<lparr>ticket_tail := ticket_tail d + 1\<rparr> else d)"

definition acquire_grant :: "osprd_info \<Rightarrow> int \<Rightarrow> ofile \<Rightarrow> osprd_info \<times> ofile" where
  "acquire_grant d pid filp =
     (if f_writable filp
      then (d\<lparr>ticket_tail := ticket_tail d + 1, write_owner := pid,
              write_locks := write_locks d + 1\<rparr>, filp\<lparr>f_locked := True\<rparr>)
      else (d\<lparr>ticket_tail := ticket_tail d + 1, read_locks := read_locks d + 1\<rparr>,
            filp\<lparr>f_locked := True\<rparr>))"

definition try_acquire :: "osprd_info \<Rightarrow> int \<Rightarrow> ofile \<Rightarrow> (errno + unit) \<times> osprd_info \<times> ofile" where
  "try_acquire d pid filp =
     (if f_writable filp
      then if write_locks d > 0 \<or> read_locks d > 0 \<or> ticket_head d \<noteq> ticket_tail d
           then (Inl EBUSY, d, filp)
           else (Inr (), d\<lparr>write_owner := pid, write_locks := write_locks d + 1\<rparr>,
                 filp\<lparr>f_locked := True\<rparr>)
      else if write_locks d > 0 \<or> ticket_head d \<noteq> ticket_tail d
           then (Inl EBUSY, d, filp)
           else (Inr (), d\<lparr>read_locks := read_locks d + 1\<rparr>, filp\<lparr>f_locked := True\<rparr>))"

definition release :: "osprd_info \<Rightarrow> ofile \<Rightarrow> (errno + unit) \<times> osprd_info \<times> ofile" where
  "release d filp =
     (if \<not> f_locked filp then (Inl EINVAL, d, filp)
      else (Inr (),
            if f_writable filp then d\<lparr>write_owner := -1, write_locks := write_locks d - 1\<rparr>
            else d\<lparr>read_locks := read_locks d - 1\<rparr>,
            filp\<lparr>f_locked := False\<rparr>))"

definition osprd_close_last :: "osprd_info \<Rightarrow> ofile \<Rightarrow> osprd_info \<times> ofile" where
  "osprd_close_last d filp =
     (if f_writable filp then d\<lparr>write_owner := -1, write_locks := 0\<rparr>
      else if read_locks d > 0 \<and> f_locked filp then d\<lparr>read_locks := read_locks d - 1\<rparr>
      else d,
      filp\<lparr>f_locked := False\<rparr>)"

text \<open>
  The whole \<open>osprd_ioctl\<close>. What other processes do while this one sleeps in
  \<open>wait_event_interruptible\<close> or yields in \<open>schedule\<close> are the parameters \<open>wait\<close> (the device
  afterwards, and whether a signal ended the wait) and \<open>yields\<close>.
\<close>

definition osprd_ioctl ::
  "osprd_info \<Rightarrow> int \<Rightarrow> ofile \<Rightarrow> ofile option list \<Rightarrow> u32 \<Rightarrow>
   (osprd_info \<Rightarrow> osprd_info \<times> bool) \<Rightarrow> (osprd_info \<Rightarrow> osprd_info)
     \<Rightarrow> (errno + unit) \<times> osprd_info \<times> ofile" where
  "osprd_ioctl d pid filp fds cmd wait yields =
     (if cmd = OSPRDIOCACQUIRE then
        case acquire_start d pid filp fds of
          (Inl e, d1) \<Rightarrow> (Inl e, d1, filp)
        | (Inr ticket_cur, d1) \<Rightarrow>
            if must_wait d1 ticket_cur (f_writable filp) then
              case wait d1 of
                (d2, True) \<Rightarrow> (Inl ERESTARTSYS, acquire_interrupted d2 ticket_cur, filp)
              | (d2, False) \<Rightarrow>
                  (case acquire_grant (yields d2) pid filp of (d3, filp1) \<Rightarrow> (Inr (), d3, filp1))
            else (case acquire_grant d1 pid filp of (d3, filp1) \<Rightarrow> (Inr (), d3, filp1))
      else if cmd = OSPRDIOCTRYACQUIRE then try_acquire d pid filp
      else if cmd = OSPRDIOCRELEASE then release d filp
      else (Inl ENOTTY, d, filp))"

section \<open>Interleaved processes\<close>

text \<open>A process is outside the lock code, asleep with a ticket, or woken and yielding.\<close>

datatype pstate = Idle | Waiting u32 nat | Waking u32 nat

record osys =
  odev :: osprd_info
  ofiles :: "nat \<Rightarrow> ofile"
  oprocs :: "int \<Rightarrow> pstate"

text \<open>
  One atomic section: a section of \<open>osprd_ioctl\<close>, with the number of tickets and locks it may
  take, or the close of a file, any file at any time.
\<close>

datatype osp_section = Ioctl nat | Close nat

primrec cost :: "osp_section \<Rightarrow> nat" where
  "cost (Ioctl k) = k"
| "cost (Close f) = 0"

inductive lock_step :: "osp_section \<Rightarrow> osys \<Rightarrow> osys \<Rightarrow> bool" where
  deadlk: "oprocs s p = Idle \<Longrightarrow> acquire_start (odev s) p (ofiles s f) fds = (Inl e, d) \<Longrightarrow>
    lock_step (Ioctl 1) s (s\<lparr>odev := d\<rparr>)"
| now: "oprocs s p = Idle \<Longrightarrow> acquire_start (odev s) p (ofiles s f) fds = (Inr t, d) \<Longrightarrow>
    \<not> must_wait d t (f_writable (ofiles s f)) \<Longrightarrow> acquire_grant d p (ofiles s f) = (d1, fl) \<Longrightarrow>
    lock_step (Ioctl 1) s (s\<lparr>odev := d1, ofiles := (ofiles s)(f := fl)\<rparr>)"
| sleep: "oprocs s p = Idle \<Longrightarrow> acquire_start (odev s) p (ofiles s f) fds = (Inr t, d) \<Longrightarrow>
    must_wait d t (f_writable (ofiles s f)) \<Longrightarrow>
    lock_step (Ioctl 1) s (s\<lparr>odev := d, oprocs := (oprocs s)(p := Waiting t f)\<rparr>)"
| wake: "oprocs s p = Waiting t f \<Longrightarrow> condition (odev s) t (f_writable (ofiles s f)) \<Longrightarrow>
    lock_step (Ioctl 0) s (s\<lparr>oprocs := (oprocs s)(p := Waking t f)\<rparr>)"
| intr: "oprocs s p = Waiting t f \<Longrightarrow>
    lock_step (Ioctl 0) s (s\<lparr>odev := acquire_interrupted (odev s) t, oprocs := (oprocs s)(p := Idle)\<rparr>)"
| grant: "oprocs s p = Waking t f \<Longrightarrow> acquire_grant (odev s) p (ofiles s f) = (d1, fl) \<Longrightarrow>
    lock_step (Ioctl 1) s (s\<lparr>odev := d1, ofiles := (ofiles s)(f := fl), oprocs := (oprocs s)(p := Idle)\<rparr>)"
| attempt: "oprocs s p = Idle \<Longrightarrow> try_acquire (odev s) p (ofiles s f) = (r, d, fl) \<Longrightarrow>
    lock_step (Ioctl 1) s (s\<lparr>odev := d, ofiles := (ofiles s)(f := fl)\<rparr>)"
| unlock: "oprocs s p = Idle \<Longrightarrow> release (odev s) (ofiles s f) = (r, d, fl) \<Longrightarrow>
    lock_step (Ioctl 0) s (s\<lparr>odev := d, ofiles := (ofiles s)(f := fl)\<rparr>)"
| close: "osprd_close_last (odev s) (ofiles s f) = (d, fl) \<Longrightarrow>
    lock_step (Close f) s (s\<lparr>odev := d, ofiles := (ofiles s)(f := fl)\<rparr>)"

inductive lock_run :: "nat \<Rightarrow> osys \<Rightarrow> bool" where
  start: "odev s = osprd_setup \<Longrightarrow> (\<forall>f. \<not> f_locked (ofiles s f)) \<Longrightarrow> (\<forall>p. oprocs s p = Idle) \<Longrightarrow>
    lock_run 0 s"
| step: "lock_run n s \<Longrightarrow> lock_step a s s' \<Longrightarrow> lock_run (n + cost a) s'"

text \<open>
  A close of a writable file resets the count of write locks. \<open>spares s a\<close>: the section \<open>a\<close> is not
  such a close while another file is write-locked; \<open>sparing_run\<close> has only such sections.
\<close>

definition write_held :: "osys \<Rightarrow> nat \<Rightarrow> bool" where
  "write_held s f \<longleftrightarrow> f_locked (ofiles s f) \<and> f_writable (ofiles s f)"

definition spares :: "osys \<Rightarrow> osp_section \<Rightarrow> bool" where
  "spares s a \<longleftrightarrow> (\<forall>f g. a = Close f \<and> f_writable (ofiles s f) \<and> write_held s g \<longrightarrow> g = f)"

inductive sparing_run :: "nat \<Rightarrow> osys \<Rightarrow> bool" where
  start: "odev s = osprd_setup \<Longrightarrow> (\<forall>f. \<not> f_locked (ofiles s f)) \<Longrightarrow> (\<forall>p. oprocs s p = Idle) \<Longrightarrow>
    sparing_run 0 s"
| step: "sparing_run n s \<Longrightarrow> lock_step a s s' \<Longrightarrow> spares s a \<Longrightarrow> sparing_run (n + cost a) s'"

inductive_cases lock_stepE: "lock_step a s s'"

section \<open>The invariant\<close>

lemma for_each_open_file_fields:
  "ticket_head (for_each_open_file fds in_progress d) = ticket_head d \<and>
   ticket_tail (for_each_open_file fds in_progress d) = ticket_tail d \<and>
   write_locks (for_each_open_file fds in_progress d) = write_locks d \<and>
   read_locks (for_each_open_file fds in_progress d) = read_locks d \<and>
   write_owner (for_each_open_file fds in_progress d) = write_owner d"
  by (induction fds arbitrary: d) (auto simp: in_progress_def split: option.splits)

lemma acquire_start_fields:
  assumes "acquire_start d p fl fds = (r, d')"
  shows "ticket_head d' = ticket_head d + 1" "ticket_tail d' = ticket_tail d"
    "write_locks d' = write_locks d" "read_locks d' = read_locks d" "write_owner d' = write_owner d"
    "r = Inr t \<Longrightarrow> t = ticket_head d"
  using assms by (auto simp: acquire_start_def Let_def for_each_open_file_fields split: if_splits)

text \<open>\<open>holds s p t f\<close>: process \<open>p\<close> is in \<open>ACQUIRE\<close> on file \<open>f\<close> with ticket \<open>t\<close>.\<close>

definition holds :: "osys \<Rightarrow> int \<Rightarrow> u32 \<Rightarrow> nat \<Rightarrow> bool" where
  "holds s p t f \<longleftrightarrow> oprocs s p = Waiting t f \<or> oprocs s p = Waking t f"

text \<open>
  \<open>tickets_ok\<close> is kept by every section; \<open>locks_ok\<close> and \<open>woken_ok\<close> (what a process was woken for
  still holds when it runs) by those that spare the other files' write locks.
\<close>

definition readers :: "osys \<Rightarrow> nat set" where
  "readers s = {f. f_locked (ofiles s f) \<and> \<not> f_writable (ofiles s f)}"

definition tickets_ok :: "nat \<Rightarrow> osys \<Rightarrow> bool" where
  "tickets_ok n s \<longleftrightarrow>
     unat (ticket_head (odev s)) \<le> n \<and> unat (ticket_tail (odev s)) \<le> unat (ticket_head (odev s)) \<and>
     (\<forall>p t f. holds s p t f \<longrightarrow>
        unat (ticket_tail (odev s)) \<le> unat t \<and> unat t < unat (ticket_head (odev s))) \<and>
     (\<forall>p q t f g. holds s p t f \<and> holds s q t g \<longrightarrow> p = q) \<and>
     (\<forall>p t f. oprocs s p = Waking t f \<longrightarrow> t = ticket_tail (odev s))"

definition woken_ok :: "osys \<Rightarrow> bool" where
  "woken_ok s \<longleftrightarrow>
     (\<forall>p t f. oprocs s p = Waking t f \<longrightarrow> condition (odev s) t (f_writable (ofiles s f)))"

definition locks_ok :: "nat \<Rightarrow> osys \<Rightarrow> bool" where
  "locks_ok n s \<longleftrightarrow>
     write_locks (odev s) \<le> 1 \<and> unat (read_locks (odev s)) \<le> n \<and>
     (write_locks (odev s) \<noteq> 0 \<longrightarrow> read_locks (odev s) = 0) \<and>
     (\<forall>f. f_locked (ofiles s f) \<and> f_writable (ofiles s f) \<longrightarrow> write_locks (odev s) \<noteq> 0) \<and>
     (\<forall>f g. f_locked (ofiles s f) \<and> f_writable (ofiles s f) \<and>
        f_locked (ofiles s g) \<and> f_writable (ofiles s g) \<longrightarrow> f = g) \<and>
     finite (readers s) \<and> card (readers s) \<le> unat (read_locks (odev s))"

text \<open>Granting a lock whose conditions hold.\<close>

lemma locks_ok_grant:
  assumes "locks_ok n s" "Suc n < 2 ^ 32" "write_locks (odev s) = 0"
    "f_writable (ofiles s f) \<Longrightarrow> read_locks (odev s) = 0"
    "write_locks d' = (if f_writable (ofiles s f) then 1 else 0)"
    "read_locks d' = (if f_writable (ofiles s f) then 0 else read_locks (odev s) + 1)"
    "ofiles s' = (ofiles s)(f := (ofiles s f)\<lparr>f_locked := True\<rparr>)" "odev s' = d'"
  shows "locks_ok (Suc n) s'"
proof (cases "f_writable (ofiles s f)")
  case True
  then have "readers s' = readers s" by (auto simp: readers_def assms(7))
  moreover have "readers s = {}"
    using assms(1) assms(4) [OF True] by (auto simp: locks_ok_def)
  ultimately show ?thesis
    using assms(1,3,5-8) True by (auto simp: locks_ok_def)
next
  case False
  have "readers s' = insert f (readers s)" using False by (auto simp: readers_def assms(7))
  moreover have "unat (read_locks (odev s) + 1) = unat (read_locks (odev s)) + 1"
    using assms(1,2) by (simp add: locks_ok_def unat_plus_u32)
  ultimately show ?thesis
    using assms(1,3,5-8) False by (auto simp: locks_ok_def card_insert_if)
qed

lemma locks_ok_drop:
  assumes "locks_ok n s" "f_locked (ofiles s f)"
    "f_writable (ofiles s f) \<Longrightarrow> write_locks d' = 0 \<and> read_locks d' = read_locks (odev s)"
    "\<not> f_writable (ofiles s f) \<Longrightarrow> write_locks d' = write_locks (odev s) \<and> read_locks d' = read_locks (odev s) - 1"
    "ofiles s' = (ofiles s)(f := (ofiles s f)\<lparr>f_locked := False\<rparr>)" "odev s' = d'"
  shows "locks_ok n s'"
proof (cases "f_writable (ofiles s f)")
  case True
  then have "readers s' = readers s" by (auto simp: readers_def assms(5))
  then show ?thesis
    using assms True by (auto simp: locks_ok_def)
next
  case False
  have r: "readers s' = readers s - {f}" using False by (auto simp: readers_def assms(5))
  have f: "f \<in> readers s" "finite (readers s)" using assms(1,2) False by (auto simp: readers_def locks_ok_def)
  then have "1 \<le> card (readers s)" by (metis One_nat_def Suc_leI card_gt_0_iff empty_iff)
  then have "1 \<le> read_locks (odev s)" using assms(1) by (simp add: locks_ok_def word_le_nat_alt)
  then have "unat (read_locks (odev s) - 1) = unat (read_locks (odev s)) - 1" by (simp add: unat_minus_u32)
  moreover have "card (readers s') = card (readers s) - 1"
    unfolding r using f(1) by (rule card_Diff_singleton)
  ultimately show ?thesis
    using assms False f r by (auto simp: locks_ok_def)
qed

lemma locks_ok_cong:
  "locks_ok n s \<Longrightarrow> n \<le> n' \<Longrightarrow> write_locks (odev s') = write_locks (odev s) \<Longrightarrow>
   read_locks (odev s') = read_locks (odev s) \<Longrightarrow> ofiles s' = ofiles s \<Longrightarrow> locks_ok n' s'"
  by (simp add: locks_ok_def readers_def)


lemma tickets_ok_head:
  assumes "tickets_ok n s" "Suc n < 2 ^ 32"
  shows "unat (ticket_head (odev s) + 1) = unat (ticket_head (odev s)) + 1"
  using assms by (simp add: tickets_ok_def unat_plus_u32)

text \<open>Taking a ticket.\<close>

lemma tickets_ok_take:
  assumes ok: "tickets_ok n s" "Suc n < 2 ^ 32"
    and d: "ticket_head d' = ticket_head (odev s) + 1" "ticket_tail d' = ticket_tail (odev s)"
    and s': "odev s' = d'"
      "oprocs s' = oprocs s \<or> (\<exists>p f. oprocs s p = Idle \<and> oprocs s' = (oprocs s)(p := Waiting (ticket_head (odev s)) f))"
  shows "tickets_ok (Suc n) s'"
proof -
  note h = tickets_ok_head [OF ok]
  have lt: "unat t < unat (ticket_head (odev s))" "unat (ticket_tail (odev s)) \<le> unat t" if "holds s p t f" for p t f
    using ok(1) that by (auto simp: tickets_ok_def)
  have le: "unat (ticket_tail (odev s)) \<le> unat (ticket_head (odev s))" using ok(1) by (simp add: tickets_ok_def)
  show ?thesis
    using s'(2)
  proof
    assume "oprocs s' = oprocs s"
    then show ?thesis using ok(1) h by (fastforce simp: tickets_ok_def holds_def s' d)
  next
    assume "\<exists>p f. oprocs s p = Idle \<and> oprocs s' = (oprocs s)(p := Waiting (ticket_head (odev s)) f)"
    then obtain p f where p: "oprocs s p = Idle" "oprocs s' = (oprocs s)(p := Waiting (ticket_head (odev s)) f)" by blast
    have holds: "holds s' q t g \<longleftrightarrow> (if q = p then t = ticket_head (odev s) \<and> g = f else holds s q t g)" for q t g
      by (auto simp: holds_def p)
    have uniq: "holds s q t g \<Longrightarrow> holds s r t g' \<Longrightarrow> q = r" for q r t g g'
      using ok(1) unfolding tickets_ok_def by blast
    have "\<forall>q r t f g. holds s' q t f \<and> holds s' r t g \<longrightarrow> q = r"
      unfolding holds using lt uniq by (metis less_irrefl)
    moreover have "\<forall>q t g. holds s' q t g \<longrightarrow> unat (ticket_tail d') \<le> unat t \<and> unat t < unat (ticket_head d')"
      unfolding holds d h using lt le by (metis Suc_eq_plus1 less_Suc_eq)
    moreover have "\<forall>q t g. oprocs s' q = Waking t g \<longrightarrow> t = ticket_tail d'"
      using ok(1) by (auto simp: tickets_ok_def p d)
    moreover have "unat (ticket_head d') \<le> Suc n" "unat (ticket_tail d') \<le> unat (ticket_head d')"
      using ok(1) h by (auto simp: tickets_ok_def d)
    ultimately show ?thesis unfolding tickets_ok_def s'(1) by blast
  qed
qed

text \<open>The served ticket \<open>tail\<close> is given up by its holder (who goes idle) or by nobody.\<close>

lemma tickets_ok_serve:
  assumes ok: "tickets_ok n s"
    and served: "\<exists>f. holds s p (ticket_tail (odev s)) f" and n: "n < 2 ^ 32"
    and d: "ticket_head d' = ticket_head (odev s)" "ticket_tail d' = ticket_tail (odev s) + 1"
    and s': "odev s' = d'" "oprocs s' = (oprocs s)(p := Idle)"
  shows "tickets_ok n s'"
proof -
  obtain f where f: "holds s p (ticket_tail (odev s)) f" using served by blast
  have lt: "unat (ticket_tail (odev s)) \<le> unat t \<and> unat t < unat (ticket_head (odev s))" if "holds s q t g" for q t g
    using ok that by (auto simp: tickets_ok_def)
  have uniq: "holds s q t g \<Longrightarrow> holds s r t g' \<Longrightarrow> q = r" for q r t g g'
    using ok unfolding tickets_ok_def by blast
  have tail: "unat (ticket_tail (odev s) + 1) = unat (ticket_tail (odev s)) + 1"
    using lt [OF f] by (intro unat_plus_one_u32 [of _ "ticket_head (odev s)"]) (simp add: word_less_nat_alt)
  have holds: "holds s' q t g \<longleftrightarrow> q \<noteq> p \<and> holds s q t g" for q t g by (auto simp: holds_def s')
  have other: "t \<noteq> ticket_tail (odev s)" if "q \<noteq> p" "holds s q t g" for q t g
    using uniq [OF that(2)] f that(1) by blast
  have "unat (ticket_tail (odev s)) + 1 \<le> unat t" if "q \<noteq> p" "holds s q t g" for q t g
    using other [OF that] lt [OF that(2)] by (auto simp: word_unat_eq_iff)
  then have "\<forall>q t g. holds s' q t g \<longrightarrow> unat (ticket_tail d') \<le> unat t \<and> unat t < unat (ticket_head d')"
    unfolding holds d tail using lt by blast
  moreover have "oprocs s' q \<noteq> Waking t g" for q t g
  proof
    assume "oprocs s' q = Waking t g"
    then have "q \<noteq> p" "oprocs s q = Waking t g" by (auto simp: s' split: if_splits)
    then have "holds s q t g" "t = ticket_tail (odev s)"
      using ok unfolding tickets_ok_def holds_def by blast+
    then show False using other \<open>q \<noteq> p\<close> by blast
  qed
  moreover have "\<forall>q r t f g. holds s' q t f \<and> holds s' r t g \<longrightarrow> q = r"
    unfolding holds using uniq by blast
  moreover have "unat (ticket_head d') \<le> n" "unat (ticket_tail d') \<le> unat (ticket_head d')"
    using ok lt [OF f] by (auto simp: tickets_ok_def d tail)
  ultimately show ?thesis unfolding tickets_ok_def s'(1) by blast
qed

lemma tickets_ok_mono: "tickets_ok n s \<Longrightarrow> n \<le> n' \<Longrightarrow> tickets_ok n' s"
  unfolding tickets_ok_def by (meson order_trans)


lemma tickets_ok_cong:
  assumes "tickets_ok n s" "ticket_head (odev s') = ticket_head (odev s)" "ticket_tail (odev s') = ticket_tail (odev s)"
    "\<And>p t f. holds s' p t f \<longleftrightarrow> holds s p t f"
    "\<And>p t f. oprocs s' p = Waking t f \<Longrightarrow> t = ticket_tail (odev s)"
  shows "tickets_ok n s'"
  using assms unfolding tickets_ok_def by simp

lemma no_holder: "tickets_ok n s \<Longrightarrow> ticket_head (odev s) = ticket_tail (odev s) \<Longrightarrow> \<not> holds s p t f"
  unfolding tickets_ok_def by (metis leD)

lemma locks_ok_excl:
  assumes "locks_ok n s" "f_locked (ofiles s f)"
  shows "f_writable (ofiles s f) \<Longrightarrow> write_locks (odev s) \<noteq> 0"
    "\<not> f_writable (ofiles s f) \<Longrightarrow> read_locks (odev s) \<noteq> 0"
proof -
  show "write_locks (odev s) \<noteq> 0" if "f_writable (ofiles s f)" using assms that by (auto simp: locks_ok_def)
  assume "\<not> f_writable (ofiles s f)"
  then have "f \<in> readers s" "finite (readers s)" "card (readers s) \<le> unat (read_locks (odev s))"
    using assms by (auto simp: readers_def locks_ok_def)
  then show "read_locks (odev s) \<noteq> 0" by (auto simp: card_gt_0_iff)
qed

lemma woken_turn: "tickets_ok n s \<Longrightarrow> oprocs s p = Waking t f \<Longrightarrow> t = ticket_tail (odev s)"
  unfolding tickets_ok_def by metis

lemma lock_step_tickets:
  assumes "lock_step a s s'" "tickets_ok n s" "n + cost a < 2 ^ 32"
  shows "tickets_ok (n + cost a) s'"
  using assms(1)
proof (cases rule: lock_stepE [consumes 1, case_names deadlk now sleep wake intr grant attempt unlock close])
  case (deadlk p f fds e d)
  note a = acquire_start_fields [OF deadlk(4)]
  show ?thesis using tickets_ok_take [OF assms(2), of d s'] a deadlk assms(3) by simp
next
  case (now p f fds t d d1 fl)
  note a = acquire_start_fields [OF now(4)]
  have tail: "t = ticket_tail (odev s)" "t = ticket_head (odev s)"
    using now(5) a by (auto simp: must_wait_def split: if_splits)
  note none = no_holder [OF assms(2) tail(2) [symmetric, unfolded tail(1)]]
  have d1: "d1 = (fst (acquire_grant d p (ofiles s f)))"
    using now(6) by (auto simp: acquire_grant_def split: if_splits)
  have h: "unat (ticket_head (odev s) + 1) = unat (ticket_head (odev s)) + 1"
    using tickets_ok_head [OF assms(2)] assms(3) now(1) by simp
  have none': "\<not> holds s' q u g" for q u g using none now(2) by (simp add: holds_def)
  then have wak: "oprocs s' q \<noteq> Waking u g" for q u g by (auto simp: holds_def)
  have dev: "ticket_head (odev s') = ticket_head (odev s) + 1" "ticket_tail (odev s') = ticket_head (odev s) + 1"
    using a(1,2) tail by (simp_all add: now(2) d1 acquire_grant_def)
  have "unat (ticket_head (odev s)) \<le> n" using assms(2) by (simp add: tickets_ok_def)
  then have "tickets_ok (Suc n) s'"
    unfolding tickets_ok_def dev h using none' wak by simp
  then show ?thesis by (simp add: now(1))
next
  case (sleep p f fds t d)
  note a = acquire_start_fields [OF sleep(4)]
  show ?thesis using tickets_ok_take [OF assms(2), of d s'] a sleep assms(3) by auto
next
  case (wake p t f)
  have "t = ticket_tail (odev s)" using wake(4) by (auto simp: condition_def split: if_splits)
  then have "tickets_ok n s'"
    using wake woken_turn [OF assms(2)] by (intro tickets_ok_cong [OF assms(2)])
      (auto simp: holds_def split: if_splits)
  then show ?thesis using wake by simp
next
  case (intr p t f)
  have "tickets_ok n s'"
  proof (cases "t = ticket_tail (odev s)")
    case True
    then show ?thesis
      using intr assms(3) by (intro tickets_ok_serve [OF assms(2), of p "acquire_interrupted (odev s) t"])
        (auto simp: holds_def acquire_interrupted_def)
  next
    case False
    then have s': "odev s' = odev s" "oprocs s' = (oprocs s)(p := Idle)"
      using intr by (simp_all add: acquire_interrupted_def)
    have "holds s' q u g \<Longrightarrow> holds s q u g" for q u g by (auto simp: holds_def s' split: if_splits)
    moreover have "oprocs s' q = Waking u g \<Longrightarrow> oprocs s q = Waking u g" for q u g by (auto simp: s' split: if_splits)
    ultimately show ?thesis using assms(2) unfolding tickets_ok_def s'(1) by blast
  qed
  then show ?thesis by (simp add: intr(1))
next
  case (grant p t f d1 fl)
  have "t = ticket_tail (odev s)" by (rule woken_turn [OF assms(2) grant(3)])
  moreover have "d1 = fst (acquire_grant (odev s) p (ofiles s f))" using grant(4) by simp
  ultimately have "tickets_ok n s'"
    using grant assms(3) by (intro tickets_ok_serve [OF assms(2), of p d1])
      (auto simp: holds_def acquire_grant_def)
  then show ?thesis using tickets_ok_mono [of n s' "Suc n"] by (simp add: grant(1))
next
  case (attempt p f r d fl)
  have "ticket_head d = ticket_head (odev s)" "ticket_tail d = ticket_tail (odev s)"
    using attempt(4) by (auto simp: try_acquire_def split: if_splits)
  then have "tickets_ok n s'"
    using woken_turn [OF assms(2)] by (intro tickets_ok_cong [OF assms(2)]) (auto simp: attempt(2) holds_def)
  then show ?thesis using tickets_ok_mono [of n s' "Suc n"] by (simp add: attempt(1))
next
  case (unlock p f r d fl)
  have "ticket_head d = ticket_head (odev s)" "ticket_tail d = ticket_tail (odev s)"
    using unlock(4) by (auto simp: release_def split: if_splits)
  then have "tickets_ok n s'"
    using woken_turn [OF assms(2)] by (intro tickets_ok_cong [OF assms(2)]) (auto simp: unlock(2) holds_def)
  then show ?thesis by (simp add: unlock(1))
next
  case (close f d fl)
  have "ticket_head d = ticket_head (odev s)" "ticket_tail d = ticket_tail (odev s)"
    using close(3) by (auto simp: osprd_close_last_def split: if_splits)
  then have "tickets_ok n s'"
    using woken_turn [OF assms(2)] by (intro tickets_ok_cong [OF assms(2)]) (auto simp: close(2) holds_def)
  then show ?thesis by (simp add: close(1))
qed

text \<open>Dropping a lock leaves the processes that were woken with their condition true.\<close>

lemma drop_ok:
  assumes t: "woken_ok s" and l: "locks_ok n s" and f: "f_locked (ofiles s f)"
    and d: "ticket_tail d' = ticket_tail (odev s)"
      "f_writable (ofiles s f) \<Longrightarrow> write_locks d' = 0 \<and> read_locks d' = read_locks (odev s)"
      "\<not> f_writable (ofiles s f) \<Longrightarrow> write_locks d' = write_locks (odev s) \<and> read_locks d' = read_locks (odev s) - 1"
    and s': "s' = s\<lparr>odev := d', ofiles := (ofiles s)(f := (ofiles s f)\<lparr>f_locked := False\<rparr>)\<rparr>"
  shows "woken_ok s' \<and> locks_ok n s'"
proof
  show "locks_ok n s'" by (rule locks_ok_drop [OF l f d(2,3)]) (simp_all add: s')
  show "woken_ok s'"
    unfolding woken_ok_def
  proof (intro allI impI)
    fix p u g assume "oprocs s' p = Waking u g"
    then have c: "condition (odev s) u (f_writable (ofiles s g))" using t by (simp add: woken_ok_def s')
    have w: "f_writable (ofiles s' g) = f_writable (ofiles s g)" by (simp add: s')
    show "condition (odev s') u (f_writable (ofiles s' g))"
      using c locks_ok_excl [OF l f] d unfolding w by (auto simp: condition_def s' split: if_splits)
  qed
qed

text \<open>At most one process is woken, and none when the served ticket changes hands.\<close>

lemma woken_unique:
  "tickets_ok n s \<Longrightarrow> oprocs s p = Waking t f \<Longrightarrow> holds s q (ticket_tail (odev s)) g \<Longrightarrow> p = q"
  unfolding tickets_ok_def holds_def by metis

lemma woken_ok_cong:
  "woken_ok s \<Longrightarrow> (\<And>p t f. oprocs s' p = Waking t f \<Longrightarrow> oprocs s p = Waking t f) \<Longrightarrow>
   ticket_tail (odev s') = ticket_tail (odev s) \<Longrightarrow> write_locks (odev s') = write_locks (odev s) \<Longrightarrow>
   read_locks (odev s') = read_locks (odev s) \<Longrightarrow> ofiles s' = ofiles s \<Longrightarrow> woken_ok s'"
  unfolding woken_ok_def condition_def by metis

lemma lock_step_ok:
  assumes "lock_step a s s'" "spares s a" "tickets_ok n s" "woken_ok s" "locks_ok n s" "n + cost a < 2 ^ 32"
  shows "woken_ok s' \<and> locks_ok (n + cost a) s'"
  using assms(1)
proof (cases rule: lock_stepE [consumes 1, case_names deadlk now sleep wake intr grant attempt unlock close])
  case (deadlk p f fds e d)
  note a = acquire_start_fields [OF deadlk(4)]
  show ?thesis
    using woken_ok_cong [OF assms(4), of s'] locks_ok_cong [OF assms(5), of "Suc n" s'] a deadlk by simp
next
  case (now p f fds t d d1 fl)
  note a = acquire_start_fields [OF now(4)]
  have tail: "ticket_head (odev s) = ticket_tail (odev s)" and free: "write_locks (odev s) = 0"
    "f_writable (ofiles s f) \<Longrightarrow> read_locks (odev s) = 0"
    using now(5) a by (auto simp: must_wait_def word_neq_0_conv [symmetric] split: if_splits)
  have d1: "d1 = (fst (acquire_grant d p (ofiles s f)))" "fl = (ofiles s f)\<lparr>f_locked := True\<rparr>"
    using now(6) by (auto simp: acquire_grant_def split: if_splits)
  have "locks_ok (Suc n) s'"
    by (rule locks_ok_grant [OF assms(5), of f d1])
      (use assms(6) now a d1 free in \<open>auto simp: acquire_grant_def\<close>)
  moreover have "woken_ok s'"
    using no_holder [OF assms(3) tail] by (auto simp: woken_ok_def now(2) holds_def)
  ultimately show ?thesis by (simp add: now(1))
next
  case (sleep p f fds t d)
  note a = acquire_start_fields [OF sleep(4)]
  have "oprocs s' q = Waking u g \<Longrightarrow> oprocs s q = Waking u g" for q u g
    by (simp add: sleep(2) split: if_splits)
  then have "woken_ok s'" by (rule woken_ok_cong [OF assms(4)]) (use a sleep(2) in \<open>auto split: if_splits\<close>)
  then show ?thesis using locks_ok_cong [OF assms(5), of "Suc n" s'] a sleep by simp
next
  case (wake p t f)
  have "woken_ok s'" using wake assms(4) by (auto simp: woken_ok_def)
  then show ?thesis using locks_ok_cong [OF assms(5), of n s'] wake by simp
next
  case (intr p t f)
  have "woken_ok s'"
  proof (cases "t = ticket_tail (odev s)")
    case True
    then have "holds s p (ticket_tail (odev s)) f" using intr(3) by (simp add: holds_def)
    then have "oprocs s' q \<noteq> Waking u g" for q u g
      using woken_unique [OF assms(3), of q u g p f] by (auto simp: intr(2))
    then show ?thesis by (simp add: woken_ok_def)
  next
    case False
    then show ?thesis
      by (intro woken_ok_cong [OF assms(4)]) (auto simp: intr(2) acquire_interrupted_def split: if_splits)
  qed
  then show ?thesis using locks_ok_cong [OF assms(5), of n s'] intr by (simp add: acquire_interrupted_def)
next
  case (grant p t f d1 fl)
  have c: "condition (odev s) t (f_writable (ofiles s f))" using assms(4) grant(3) by (simp add: woken_ok_def)
  have d1: "d1 = fst (acquire_grant (odev s) p (ofiles s f))" "fl = (ofiles s f)\<lparr>f_locked := True\<rparr>"
    using grant(4) by (auto simp: acquire_grant_def split: if_splits)
  have l: "locks_ok (Suc n) s'"
    by (rule locks_ok_grant [OF assms(5), of f d1])
      (use assms(6) grant(1,2) d1 c in \<open>auto simp: acquire_grant_def condition_def split: if_splits\<close>)
  have "holds s p (ticket_tail (odev s)) f" using grant(3) woken_turn [OF assms(3) grant(3)] by (simp add: holds_def)
  then have "oprocs s' q \<noteq> Waking u g" for q u g
    using woken_unique [OF assms(3), of q u g p f] by (auto simp: grant(2))
  with l show ?thesis by (simp add: grant(1) woken_ok_def)
next
  case (attempt p f r d fl)
  show ?thesis
  proof (cases r)
    case (Inl e)
    then have "s' = s" using attempt by (auto simp: try_acquire_def word_neq_0_conv [symmetric] split: if_splits)
    then show ?thesis using assms(4) locks_ok_cong [OF assms(5), of "Suc n" s] attempt(1) by simp
  next
    case (Inr u)
    then have h: "ticket_head (odev s) = ticket_tail (odev s)" and free: "write_locks (odev s) = 0"
      "f_writable (ofiles s f) \<Longrightarrow> read_locks (odev s) = 0"
      and fl: "fl = (ofiles s f)\<lparr>f_locked := True\<rparr>"
      and d: "write_locks d = (if f_writable (ofiles s f) then 1 else 0)"
        "read_locks d = (if f_writable (ofiles s f) then 0 else read_locks (odev s) + 1)"
      using attempt(4) by (auto simp: try_acquire_def word_neq_0_conv [symmetric] split: if_splits)
    have l: "locks_ok (Suc n) s'"
      by (rule locks_ok_grant [OF assms(5), of f d]) (use assms(6) attempt(1,2) d fl free in auto)
    have "woken_ok s'"
      using no_holder [OF assms(3) h] by (auto simp: woken_ok_def attempt(2) holds_def)
    with l show ?thesis by (simp add: attempt(1))
  qed
next
  case (unlock p f r d fl)
  show ?thesis
  proof (cases "f_locked (ofiles s f)")
    case False
    then have "s' = s" using unlock by (auto simp: release_def)
    then show ?thesis using assms(4,5) unlock(1) by simp
  next
    case True
    have one: "write_locks (odev s) - 1 = 0" if w: "f_writable (ofiles s f)"
    proof -
      have "unat (write_locks (odev s)) \<le> 1" using assms(5) by (simp add: locks_ok_def word_le_nat_alt)
      moreover have "unat (write_locks (odev s)) \<noteq> 0"
        using locks_ok_excl(1) [OF assms(5) True w] by (simp add: unat_eq_iff_u32)
      ultimately have "write_locks (odev s) = 1" by (simp add: unat_eq_iff_u32)
      then show ?thesis by simp
    qed
    show ?thesis
      using drop_ok [OF assms(4,5) True, of d s'] unlock True one by (auto simp: release_def split: if_splits)
  qed
next
  case (close f d fl)
  show ?thesis
  proof (cases "f_locked (ofiles s f)")
    case True
    show ?thesis
      using drop_ok [OF assms(4,5) True, of d s'] close True locks_ok_excl(2) [OF assms(5) True]
      by (auto simp: osprd_close_last_def word_neq_0_conv split: if_splits)
  next
    case False
    then have "(ofiles s f)\<lparr>f_locked := False\<rparr> = ofiles s f" by (cases "ofiles s f") simp
    then have fl: "ofiles s' = ofiles s" "oprocs s' = oprocs s"
      using close(2,3) by (auto simp: osprd_close_last_def)
    show ?thesis
    proof (cases "f_writable (ofiles s f)")
      case w: True
      have none: "\<not> (f_locked (ofiles s g) \<and> f_writable (ofiles s g))" for g
        using assms(2) False w by (auto simp: spares_def write_held_def close(1))
      have d: "odev s' = (odev s)\<lparr>write_owner := -1, write_locks := 0\<rparr>"
        using close(2,3) w by (simp add: osprd_close_last_def)
      have "woken_ok s'" using assms(4) by (auto simp: woken_ok_def condition_def d fl split: if_splits)
      moreover have "locks_ok n s'"
        using assms(5) none unfolding locks_ok_def readers_def fl by (auto simp: d)
      ultimately show ?thesis by (simp add: close(1))
    next
      case w: False
      have "odev s' = odev s" using close(2,3) w False by (simp add: osprd_close_last_def)
      then have "s' = s" using fl by (cases s; cases s') simp
      then show ?thesis using assms(4,5) close(1) by simp
    qed
  qed
qed

lemma lock_run_ok: "lock_run n s \<Longrightarrow> n < 2 ^ 32 \<Longrightarrow> tickets_ok n s"
proof (induction rule: lock_run.induct)
  case (start s)
  then show ?case by (simp add: tickets_ok_def holds_def osprd_setup_def)
next
  case (step n s a s')
  then show ?case using lock_step_tickets [of a s s' n] by simp
qed

lemma sparing_run_ok:
  "sparing_run n s \<Longrightarrow> n < 2 ^ 32 \<Longrightarrow> tickets_ok n s \<and> woken_ok s \<and> locks_ok n s"
proof (induction rule: sparing_run.induct)
  case (start s)
  then show ?case
    by (simp add: tickets_ok_def woken_ok_def locks_ok_def holds_def readers_def osprd_setup_def)
next
  case (step n s a s')
  then show ?case using lock_step_tickets [of a s s' n] lock_step_ok [of a s s' n] by simp
qed

section \<open>Properties\<close>

text \<open>C1: the lock excludes, up to the close defect: processes interleave acquiring, trying,
releasing, being interrupted and closing in any way, except that no writable file is closed
while another file is write-locked. Then, for fewer than \<open>2 ^ 32\<close> tickets and locks in all, a file
that holds a write lock is the only file that holds a lock.\<close>

theorem osprd_lock_excludes:
  assumes "sparing_run n s" "n < 2 ^ 32" "f_locked (ofiles s f)" "f_writable (ofiles s f)"
    "f_locked (ofiles s g)"
  shows "f = g"
proof -
  have l: "locks_ok n s" using sparing_run_ok [OF assms(1,2)] by simp
  show ?thesis
  proof (cases "f_writable (ofiles s g)")
    case True
    then show ?thesis using l assms(3-5) by (simp add: locks_ok_def)
  next
    case False
    then show ?thesis
      using l locks_ok_excl(1) [OF l assms(3,4)] locks_ok_excl(2) [OF l assms(5) False]
      by (simp add: locks_ok_def)
  qed
qed

text \<open>A process writes under the lock: processes 1 and 2, files 1 (writing) and 2 (reading).\<close>

abbreviation demo_ofiles :: "nat \<Rightarrow> ofile" where
  "demo_ofiles \<equiv> (\<lambda>f. \<lparr>is_osprd = True, f_writable = (f = 1), f_locked = False\<rparr>)"

abbreviation demo_osys :: osys where
  "demo_osys \<equiv> \<lparr>odev = osprd_setup, ofiles = demo_ofiles, oprocs = (\<lambda>_. Idle)\<rparr>"

definition demo_locked :: osys where
  "demo_locked = \<lparr>odev = \<lparr>ticket_head = 1, ticket_tail = 1, write_ids = 0, read_ids = 0,
       write_locks = 1, read_locks = 0, write_owner = 7\<rparr>,
     ofiles = demo_ofiles(1 := \<lparr>is_osprd = True, f_writable = True, f_locked = True\<rparr>),
     oprocs = (\<lambda>_. Idle)\<rparr>"

lemma demo_locked_step: "lock_step (Ioctl 1) demo_osys demo_locked"
  using lock_step.now [of demo_osys 7 1 "[]" 0
      "\<lparr>ticket_head = 1, ticket_tail = 0, write_ids = 0, read_ids = 0, write_locks = 0, read_locks = 0, write_owner = -1\<rparr>"]
  by (simp add: acquire_start_def Let_def osprd_setup_def must_wait_def acquire_grant_def demo_locked_def)

lemma demo_locked_run: "sparing_run 1 demo_locked"
proof -
  have "sparing_run 0 demo_osys" by (rule sparing_run.start) simp_all
  moreover have "spares demo_osys (Ioctl 1)" by (simp add: spares_def)
  ultimately have "sparing_run (0 + cost (Ioctl 1)) demo_locked"
    by (rule sparing_run.step [OF _ demo_locked_step])
  then show ?thesis by simp
qed

lemma osprd_lock_excludes_witness:
  "{g. f_locked (ofiles demo_locked g)} = {1}"
proof -
  have l: "f_locked (ofiles demo_locked 1)" "f_writable (ofiles demo_locked 1)"
    by (simp_all add: demo_locked_def)
  have "1 = g" if "f_locked (ofiles demo_locked g)" for g
    by (rule osprd_lock_excludes [OF demo_locked_run _ l that]) simp
  then show ?thesis using l(1) by blast
qed

text \<open>Some holder's ticket was lost: no process will ever be served again.\<close>

definition stuck :: "osys \<Rightarrow> bool" where
  "stuck s \<longleftrightarrow> unat (ticket_tail (odev s)) < unat (ticket_head (odev s)) \<and>
     (\<forall>p f. \<not> holds s p (ticket_tail (odev s)) f)"

inductive lock_star :: "nat \<Rightarrow> osys \<Rightarrow> osys \<Rightarrow> bool" where
  stop: "lock_star 0 s s"
| more: "lock_step a s s1 \<Longrightarrow> lock_star j s1 s' \<Longrightarrow> lock_star (cost a + j) s s'"

lemma stuck_step:
  assumes "lock_step a s s'" "stuck s" "tickets_ok n s" "n + cost a < 2 ^ 32"
  shows "stuck s' \<and> (\<forall>g. f_locked (ofiles s' g) \<longrightarrow> f_locked (ofiles s g))"
proof -
  have lt: "unat (ticket_tail (odev s)) < unat (ticket_head (odev s))"
    and none: "\<And>p f. \<not> holds s p (ticket_tail (odev s)) f"
    using assms(2) by (auto simp: stuck_def)
  have ne: "ticket_head (odev s) \<noteq> ticket_tail (odev s)" using lt by auto
  have h: "unat (ticket_head (odev s) + 1) = unat (ticket_head (odev s)) + 1" if "a = Ioctl 1"
    using tickets_ok_head [OF assms(3)] assms(4) that by simp
  show ?thesis
    using assms(1)
  proof (cases rule: lock_stepE [consumes 1, case_names deadlk now sleep wake intr grant attempt unlock close])
    case (deadlk p f fds e d)
    note a = acquire_start_fields [OF deadlk(4)]
    have "holds s' q t g \<longleftrightarrow> holds s q t g" for q t g by (simp add: holds_def deadlk(2))
    then show ?thesis using lt none h a deadlk(1,2) by (simp add: stuck_def)
  next
    case (now p f fds t d d1 fl)
    note a = acquire_start_fields [OF now(4)]
    then show ?thesis using now(5) ne by (simp add: must_wait_def split: if_splits)
  next
    case (sleep p f fds t d)
    note a = acquire_start_fields [OF sleep(4)]
    have "holds s' q u g \<Longrightarrow> holds s q u g \<or> u = ticket_head (odev s)" for q u g
      using a(6) by (auto simp: holds_def sleep(2) split: if_splits)
    then have "\<not> holds s' q (ticket_tail (odev s)) g" for q g using none ne by metis
    then show ?thesis using lt h a sleep(1,2) by (simp add: stuck_def)
  next
    case (wake p t f)
    have "holds s' q u g \<longleftrightarrow> holds s q u g" for q u g using wake by (auto simp: holds_def)
    then show ?thesis using assms(2) by (simp add: stuck_def wake(2))
  next
    case (intr p t f)
    then have "t \<noteq> ticket_tail (odev s)" using none [of p f] by (auto simp: holds_def)
    moreover have "holds s' q u g \<Longrightarrow> holds s q u g" for q u g by (auto simp: holds_def intr(2) split: if_splits)
    moreover have "odev s' = odev s" "ofiles s' = ofiles s"
      using calculation(1) by (simp_all add: intr(2) acquire_interrupted_def)
    ultimately show ?thesis using assms(2) unfolding stuck_def by metis
  next
    case (grant p t f d1 fl)
    have "holds s p (ticket_tail (odev s)) f" using grant(3) woken_turn [OF assms(3) grant(3)] by (simp add: holds_def)
    then show ?thesis using none by blast
  next
    case (attempt p f r d fl)
    then have "s' = s" using ne by (auto simp: try_acquire_def split: if_splits)
    then show ?thesis using assms(2) by simp
  next
    case (unlock p f r d fl)
    have "holds s' q u g \<longleftrightarrow> holds s q u g" for q u g by (simp add: holds_def unlock(2))
    then show ?thesis using unlock lt none by (auto simp: stuck_def release_def split: if_splits)
  next
    case (close f d fl)
    have "holds s' q u g \<longleftrightarrow> holds s q u g" for q u g by (simp add: holds_def close(2))
    then show ?thesis using close lt none by (auto simp: stuck_def osprd_close_last_def split: if_splits)
  qed
qed

lemma stuck_star:
  assumes "lock_star k s s'" "stuck s" "tickets_ok n s" "n + k < 2 ^ 32"
  shows "\<forall>g. f_locked (ofiles s' g) \<longrightarrow> f_locked (ofiles s g)"
  using assms
proof (induction arbitrary: n rule: lock_star.induct)
  case (more a s s1 j s')
  then have "stuck s1 \<and> (\<forall>g. f_locked (ofiles s1 g) \<longrightarrow> f_locked (ofiles s g))"
    using stuck_step [of a s s1 n] by simp
  moreover have "tickets_ok (n + cost a) s1" using lock_step_tickets [of a s s1 n] more by simp
  ultimately show ?case using more.IH [of "n + cost a"] more.prems(3) by simp
qed simp

text \<open>C2: a request refused with \<open>EDEADLK\<close> keeps its ticket: if no request was waiting, then while
fewer than \<open>2 ^ 32\<close> tickets and locks have been asked for in all, whatever the processes do
(acquire, try, release, close any file, be interrupted), no file that held no lock gets one.\<close>

theorem osprd_deadlk_blocks_all:
  assumes "lock_run n s" "ticket_head (odev s) = ticket_tail (odev s)" "oprocs s p = Idle"
    "acquire_start (odev s) p (ofiles s f) fds = (Inl e, d)"
    "lock_star k (s\<lparr>odev := d\<rparr>) s'" "n + 1 + k < 2 ^ 32" "f_locked (ofiles s' g)"
  shows "f_locked (ofiles s g)"
proof -
  have ok: "tickets_ok n s" using lock_run_ok [OF assms(1)] assms(6) by simp
  let ?s = "s\<lparr>odev := d\<rparr>"
  note step = lock_step.deadlk [OF assms(3,4)]
  have ok1: "tickets_ok (n + 1) ?s" using lock_step_tickets [OF step] ok assms(6) by simp
  note a = acquire_start_fields [OF assms(4)]
  have "unat (ticket_head (odev s) + 1) = unat (ticket_head (odev s)) + 1"
    using tickets_ok_head [of n s] ok assms(6) by simp
  moreover have "\<not> holds ?s q t h" for q t h
    using no_holder [of n s] ok assms(2,6) by (simp add: holds_def)
  ultimately have "stuck ?s" using a assms(2) by (simp add: stuck_def)
  then show ?thesis using stuck_star [OF assms(5), of "n + 1"] ok1 assms(6,7) by simp
qed

text \<open>Process 7 has the ram disk open for reading (file 2) and asks for a write lock on file 1; then
process 8 asks for a read lock on file 2 and sleeps.\<close>

lemma osprd_deadlk_blocks_all_witness:
  "\<exists>d s'. acquire_start osprd_setup 7 (demo_ofiles 1) [Some (demo_ofiles 2)] = (Inl EDEADLK, d) \<and>
     lock_star 1 (demo_osys\<lparr>odev := d\<rparr>) s' \<and> oprocs s' 8 = Waiting 1 2 \<and> (\<forall>g. \<not> f_locked (ofiles s' g))"
proof -
  define d where "d = osprd_setup\<lparr>ticket_head := 1, read_ids := 1\<rparr>"
  have a: "acquire_start (odev demo_osys) 7 (ofiles demo_osys 1) [Some (demo_ofiles 2)] = (Inl EDEADLK, d)"
    by (simp add: acquire_start_def Let_def osprd_setup_def d_def in_progress_def)
  define s' where "s' = demo_osys\<lparr>odev := d\<lparr>ticket_head := 2, read_ids := 0\<rparr>, oprocs := (\<lambda>_. Idle)(8 := Waiting 1 2)\<rparr>"
  have "lock_step (Ioctl 1) (demo_osys\<lparr>odev := d\<rparr>) s'"
    using lock_step.sleep [of "demo_osys\<lparr>odev := d\<rparr>" 8 2 "[]" 1 "d\<lparr>ticket_head := 2, read_ids := 0\<rparr>"]
    by (simp add: acquire_start_def Let_def osprd_setup_def d_def s'_def must_wait_def)
  then have "lock_star (cost (Ioctl 1) + 0) (demo_osys\<lparr>odev := d\<rparr>) s'" by (rule lock_star.more [OF _ lock_star.stop])
  then have star: "lock_star 1 (demo_osys\<lparr>odev := d\<rparr>) s'" by simp
  have run: "lock_run 0 demo_osys" by (rule lock_run.start) simp_all
  have "\<not> f_locked (ofiles s' g)" for g
    using osprd_deadlk_blocks_all [OF run _ _ a star, of g] by (auto simp: osprd_setup_def)
  then show ?thesis using a star by (auto simp: s'_def)
qed

text \<open>The restriction of the exclusion property to sparing runs is needed: process 7 holds the write
lock on file 1, the other writable file 3 is closed, and process 8 gets a write lock on file 3.\<close>

lemma close_breaks_exclusion:
  "\<exists>s. lock_run 2 s \<and> write_held s 1 \<and> write_held s 3"
proof -
  define fs where "fs = (\<lambda>f::nat. \<lparr>is_osprd = True, f_writable = True, f_locked = False\<rparr>)"
  define l where "l = \<lparr>is_osprd = True, f_writable = True, f_locked = True\<rparr>"
  define d where "d = \<lparr>ticket_head = 1, ticket_tail = 1, write_ids = 0, read_ids = 0,
    write_locks = 1, read_locks = 0, write_owner = 7\<rparr>"
  define s0 where "s0 = \<lparr>odev = osprd_setup, ofiles = fs, oprocs = (\<lambda>_. Idle)\<rparr>"
  define s1 where "s1 = s0\<lparr>odev := d, ofiles := fs(1 := l)\<rparr>"
  define s2 where "s2 = s1\<lparr>odev := d\<lparr>write_locks := 0, write_owner := -1\<rparr>, ofiles := fs(1 := l, 3 := fs 3)\<rparr>"
  define s3 where "s3 = s2\<lparr>odev := d\<lparr>write_owner := 8\<rparr>, ofiles := fs(1 := l, 3 := l)\<rparr>"
  note defs = s3_def s2_def s1_def s0_def d_def l_def fs_def
  have "lock_run 0 s0" by (rule lock_run.start) (simp_all add: defs)
  moreover have "lock_step (Ioctl 1) s0 s1"
    using lock_step.now [of s0 7 1 "[]" 0 "osprd_setup\<lparr>ticket_head := 1\<rparr>" d l]
    by (simp add: acquire_start_def Let_def osprd_setup_def must_wait_def acquire_grant_def defs)
  ultimately have "lock_run (0 + cost (Ioctl 1)) s1" by (rule lock_run.step)
  moreover have "lock_step (Close 3) s1 s2"
    using lock_step.close [of s1 3 "odev s2" "fs 3"]
    by (simp add: osprd_close_last_def defs)
  ultimately have "lock_run (0 + cost (Ioctl 1) + cost (Close 3)) s2" by (rule lock_run.step)
  moreover have "lock_step (Ioctl 1) s2 s3"
    using lock_step.attempt [of s2 8 3 "Inr ()" "odev s3" l]
    by (simp add: try_acquire_def defs)
  ultimately have "lock_run (0 + cost (Ioctl 1) + cost (Close 3) + cost (Ioctl 1)) s3" by (rule lock_run.step)
  moreover have "0 + cost (Ioctl 1) + cost (Close 3) + cost (Ioctl 1) = 2" by simp
  moreover have "write_held s3 1" "write_held s3 3" by (simp_all add: write_held_def defs)
  ultimately show ?thesis by metis
qed

text \<open>C17: closing a file that is open for writing but holds no lock drops the lock of whoever holds
it; when that holder then releases, the count of write locks wraps below zero and every later
request has to wait.\<close>

theorem osprd_close_drops_foreign_lock:
  assumes "f_writable stranger" "f_locked holder" "f_writable holder"
  shows "write_locks (fst (osprd_close_last d stranger)) = 0 \<and>
    (case release (fst (osprd_close_last d stranger)) holder of (r, d2, _) \<Rightarrow>
       r = Inr () \<and> write_locks d2 = 0xFFFFFFFF \<and> must_wait d2 t w)"
  using assms by (simp add: osprd_close_last_def release_def must_wait_def word_neq_0_conv [symmetric])

lemma osprd_close_drops_foreign_lock_witness:
  "write_locks (fst (osprd_close_last (odev demo_locked) \<lparr>is_osprd = True, f_writable = True, f_locked = False\<rparr>)) = 0"
  using osprd_close_drops_foreign_lock [of "\<lparr>is_osprd = True, f_writable = True, f_locked = False\<rparr>"
      "\<lparr>is_osprd = True, f_writable = True, f_locked = True\<rparr>" "odev demo_locked" 0 True] by simp

text \<open>Byte counts below \<open>2 ^ 31\<close> are not negative as C integers.\<close>

lemma sint_sectors:
  assumes "unat x * 512 = k" "k < 2 ^ 31"
  shows "sint (x * 512 :: u32) = int k"
proof -
  have "unat (x * 512) = k" using assms by (simp add: unat_mult_u32)
  then have "uint (x * 512) = int k" by (simp only: uint_nat)
  moreover have "signed_take_bit 31 (int k) = int k"
    using assms(2) by (intro signed_take_bit_int_eq_self) simp_all
  ultimately show ?thesis by (simp add: sint_uint)
qed

text \<open>C18: a write request inside the disk stores its buffer at the bytes of its sectors and changes no
other byte of memory; then any request to read sectors inside the disk returns, for these sectors the
buffer written, for the others what they held; every request ends successfully once.\<close>

theorem osprd_request_roundtrip:
  assumes "unat nsectors * 512 < 2 ^ 31" "unat sec + unat nr \<le> unat nsectors"
    "length buf = 512 * unat nr" "unat sec2 + unat nr2 \<le> unat nsectors"
  shows "case osprd_process_request m base nsectors
      \<lparr>rq_fs = True, rq_write = True, rq_sector = sec, rq_nr_sectors = nr, rq_buffer = buf\<rparr> of
    (m1, _, e1) \<Rightarrow> e1 = [1] \<and>
      (\<forall>x. m1 x = (if base + 512 * unat sec \<le> x \<and> x < base + 512 * (unat sec + unat nr)
                  then buf ! (x - (base + 512 * unat sec)) else m x)) \<and>
      (case osprd_process_request m1 base nsectors
          \<lparr>rq_fs = True, rq_write = False, rq_sector = sec2, rq_nr_sectors = nr2, rq_buffer = buf2\<rparr> of
        (m2, req, e2) \<Rightarrow> m2 = m1 \<and> e2 = [1] \<and> length (rq_buffer req) = 512 * unat nr2 \<and>
          (\<forall>i < 512 * unat nr2. rq_buffer req ! i =
             (let at = 512 * unat sec2 + i
              in if 512 * unat sec \<le> at \<and> at < 512 * (unat sec + unat nr) then buf ! (at - 512 * unat sec)
                 else m (base + at))))"
proof -
  obtain a b c where k: "unat sec * 512 = a" "unat nr * 512 = b" "unat nsectors * 512 = c" by blast
  obtain a2 b2 where k2: "unat sec2 * 512 = a2" "unat nr2 * 512 = b2" by blast
  have lt: "a < 2 ^ 31" "b < 2 ^ 31" "c < 2 ^ 31" "a + b \<le> c" "512 * unat nsectors = c" "512 * unat nr = b"
    "512 * unat sec = a" "512 * (unat sec + unat nr) = a + b"
    using assms(1,2) k by (simp_all add: distrib_left)
  have lt2: "a2 < 2 ^ 31" "b2 < 2 ^ 31" "a2 + b2 \<le> c" "512 * unat sec2 = a2" "512 * unat nr2 = b2"
    using assms(1,4) k k2 by linarith+
  note e = sint_sectors [OF k(1) lt(1)] sint_sectors [OF k(2) lt(2)] sint_sectors [OF k(3) lt(3)]
    sint_sectors [OF k2(1) lt2(1)] sint_sectors [OF k2(2) lt2(2)]
  show ?thesis
    using assms(3) lt(4) lt2(3) unfolding lt(5-8) lt2(4,5)
    by (auto simp: osprd_process_request_def Let_def e mem_simps nat_add_distrib write_bytes_def read_bytes_def add.assoc)
qed

lemma osprd_request_roundtrip_witness:
  "case osprd_process_request (\<lambda>_. 0) 4096 32
      \<lparr>rq_fs = True, rq_write = True, rq_sector = 31, rq_nr_sectors = 1, rq_buffer = replicate 512 7\<rparr> of
    (m1, _, e1) \<Rightarrow> e1 = [1] \<and> m1 19967 = 0 \<and> m1 19968 = 7 \<and> m1 20479 = 7 \<and> m1 20480 = 0 \<and>
      (let buf = rq_buffer (fst (snd (osprd_process_request m1 4096 32
        \<lparr>rq_fs = True, rq_write = False, rq_sector = 30, rq_nr_sectors = 2, rq_buffer = []\<rparr>)))
       in buf ! 0 = 0 \<and> buf ! 511 = 0 \<and> buf ! 512 = 7 \<and> buf ! 1023 = 7)"
  using osprd_request_roundtrip [of 32 31 1 "replicate 512 7" 30 2 4096 "\<lambda>_. 0" "[]"]
  by (simp add: split_beta)

text \<open>a request that runs past the end of the disk is reported as failed and carried out all the
same: the bytes after the disk are overwritten and the request is ended a second time, as done.\<close>

theorem osprd_request_overrun:
  assumes "unat nsectors * 512 < 2 ^ 31" "nr = 1" "length buf = 512"
  shows "case osprd_process_request m base nsectors
      \<lparr>rq_fs = True, rq_write = True, rq_sector = nsectors, rq_nr_sectors = nr, rq_buffer = buf\<rparr> of
    (m1, _, ended) \<Rightarrow> ended = [0, 1] \<and>
      read_bytes m1 (base + 512 * unat nsectors) 512 = buf"
proof -
  obtain c where c: "unat nsectors * 512 = c" by blast
  then have "512 * unat nsectors = c" by simp
  then show ?thesis
    using assms sint_sectors [OF c]
    by (simp add: osprd_process_request_def Let_def mem_simps nat_add_distrib c)
qed

lemma osprd_request_overrun_witness:
  "case osprd_process_request (\<lambda>_. 0) 4096 32
      \<lparr>rq_fs = True, rq_write = True, rq_sector = 32, rq_nr_sectors = 1, rq_buffer = replicate 512 7\<rparr> of
    (m1, _, ended) \<Rightarrow> ended = [0, 1] \<and> read_bytes m1 20480 512 = replicate 512 7"
  using osprd_request_overrun [of 32 1 "replicate 512 7" 4096 "\<lambda>_. 0"] by (simp add: split_beta)

end
