(* ===== verification/Weensy_Lib.thy ===== *)
theory Weensy_Lib
  imports Prelude
begin

text \<open>
  The kernel's C library, \<open>WeensyOS1/lib.c\<close> (\<open>WeensyOS2/lib.c\<close> is the same file).

  \<open>memcpy\<close>, \<open>memmove\<close> and \<open>memset\<close> are the byte loops of the source over the byte memory
  of the prelude; an address is a natural number, so a loop is a recursion over the byte count.
  The console is the CGA text memory: 80 * 25 cells of 16 bits, indexed from \<open>CONSOLE_BEGIN\<close>;
  a cursor is a cell index. \<open>console_vprintf\<close> is translated in the phases of the source's
  loop body: flags, width, precision, conversion, padding. A C string is its list of bytes
  without the terminating zero. The variable arguments are a typed list; reading an argument
  that is missing or has the other type is undefined in C and makes the result \<open>None\<close>.
  \<open>int\<close> widths and precisions are unbounded here: a literal width above 2^31 - 1 overflows in C.
\<close>

section \<open>Memory and strings\<close>

fun memcpy :: "mem \<Rightarrow> nat \<Rightarrow> nat \<Rightarrow> nat \<Rightarrow> mem" where
  "memcpy m d s 0 = m"
| "memcpy m d s (Suc n) = memcpy (m(d := m s)) (d + 1) (s + 1) n"

text \<open>The downward loop: both pointers start one past the end and are decremented first.\<close>

fun memcpy_down :: "mem \<Rightarrow> nat \<Rightarrow> nat \<Rightarrow> nat \<Rightarrow> mem" where
  "memcpy_down m d s 0 = m"
| "memcpy_down m d s (Suc n) = memcpy_down (m(d - 1 := m (s - 1))) (d - 1) (s - 1) n"

definition memmove :: "mem \<Rightarrow> nat \<Rightarrow> nat \<Rightarrow> nat \<Rightarrow> mem" where
  "memmove m d s n =
     (if s < d \<and> s + n > d then memcpy_down m (d + n) (s + n) n else memcpy m d s n)"

fun memset :: "mem \<Rightarrow> nat \<Rightarrow> u8 \<Rightarrow> nat \<Rightarrow> mem" where
  "memset m p c 0 = m"
| "memset m p c (Suc n) = memset (m(p := c)) (p + 1) c n"

text \<open>\<open>strlen\<close> runs until it reads a zero byte, so it may run for ever.\<close>

partial_function (option) strlen_from :: "mem \<Rightarrow> nat \<Rightarrow> nat \<Rightarrow> nat option" where
  "strlen_from m s n = (if m s = 0 then Some n else strlen_from m (s + 1) (n + 1))"

definition strlen :: "mem \<Rightarrow> nat \<Rightarrow> nat option" where
  "strlen m s = strlen_from m s 0"

function strnlen_from :: "mem \<Rightarrow> nat \<Rightarrow> nat \<Rightarrow> nat \<Rightarrow> nat" where
  "strnlen_from m s n maxlen =
     (if n < maxlen \<and> m s \<noteq> 0 then strnlen_from m (s + 1) (n + 1) maxlen else n)"
  by pat_completeness auto
termination by (relation "measure (\<lambda>(m, s, n, maxlen). maxlen - n)") auto

declare strnlen_from.simps [simp del]

definition strnlen :: "mem \<Rightarrow> nat \<Rightarrow> nat \<Rightarrow> nat" where
  "strnlen m s maxlen = strnlen_from m s 0 maxlen"

text \<open>
  Reading the source back after each write: the loops copy the bytes the source held before
  the call as long as no write comes before a read of the same byte.
\<close>

lemma memcpy_apply:
  "d \<le> s \<or> s + n \<le> d \<Longrightarrow>
   memcpy m d s n x = (if d \<le> x \<and> x < d + n then m (s + (x - d)) else m x)"
proof (induction n arbitrary: m d s)
  case (Suc n)
  let ?m = "m(d := m s)"
  have "d + 1 \<le> s + 1 \<or> s + 1 + n \<le> d + 1" using Suc.prems by auto
  from Suc.IH [OF this, of ?m]
  have "memcpy m d s (Suc n) x =
      (if d + 1 \<le> x \<and> x < d + 1 + n then ?m (s + 1 + (x - (d + 1))) else ?m x)"
    by (simp only: memcpy.simps)
  moreover have "s + 1 + (x - (d + 1)) = s + (x - d)" if "d + 1 \<le> x" using that by simp
  moreover have "s + (x - d) \<noteq> d" if "d + 1 \<le> x" "x < d + 1 + n" using Suc.prems that by arith
  ultimately show ?case by (cases "x = d") auto
qed auto

lemma memcpy_down_apply:
  "s \<le> d \<Longrightarrow>
   memcpy_down m (d + n) (s + n) n x = (if d \<le> x \<and> x < d + n then m (s + (x - d)) else m x)"
proof (induction n arbitrary: m)
  case (Suc n)
  then show ?case by (auto simp: le_less_Suc_eq)
qed auto

lemma memmove_apply:
  "memmove m d s n x = (if d \<le> x \<and> x < d + n then m (s + (x - d)) else m x)"
proof (cases "s < d \<and> s + n > d")
  case True
  then have "s \<le> d" by simp
  from memcpy_down_apply [OF this] True show ?thesis by (simp add: memmove_def)
next
  case False
  then have "d \<le> s \<or> s + n \<le> d" by auto
  then have "memcpy m d s n x = (if d \<le> x \<and> x < d + n then m (s + (x - d)) else m x)"
    by (rule memcpy_apply)
  moreover have "memmove m d s n = memcpy m d s n" using False by (auto simp: memmove_def)
  ultimately show ?thesis by simp
qed

lemma memset_fill: "memset m p c n = fill m p n c"
proof (induction n arbitrary: m p)
  case (Suc n)
  then show ?case by (auto simp: fill_def fun_eq_iff)
qed (auto simp: fill_def fun_eq_iff)

lemma memcpy_write_bytes:
  "d \<le> s \<or> s + n \<le> d \<Longrightarrow> memcpy m d s n = write_bytes m d (read_bytes m s n)"
  by (rule ext) (auto simp: memcpy_apply write_bytes_def read_bytes_def)

text \<open>C37: \<open>memmove\<close> behaves as if it read all of the source first: it stores the \<open>n\<close> bytes the
  source area held before the call at the destination and changes nothing else, whether or
  not the areas overlap and in whichever direction.
\<close>

theorem memmove_write_bytes: "memmove m d s n = write_bytes m d (read_bytes m s n)"
  by (rule ext) (auto simp: memmove_apply write_bytes_def read_bytes_def)

lemma strlen_from_nul:
  "(\<And>i. i < k \<Longrightarrow> m (s + i) \<noteq> 0) \<Longrightarrow> m (s + k) = 0 \<Longrightarrow> strlen_from m s n = Some (n + k)"
proof (induction k arbitrary: s n)
  case 0
  then show ?case by (subst strlen_from.simps) simp
next
  case (Suc k)
  have "m s \<noteq> 0" using Suc.prems(1) [of 0] by simp
  moreover have "strlen_from m (s + 1) (n + 1) = Some (n + 1 + k)"
  proof (rule Suc.IH)
    show "m (s + 1 + i) \<noteq> 0" if "i < k" for i using Suc.prems(1) [of "Suc i"] that by simp
    show "m (s + 1 + k) = 0" using Suc.prems(2) by simp
  qed
  ultimately show ?case by (subst strlen_from.simps) simp
qed

lemma strlen_nul:
  "(\<And>i. i < k \<Longrightarrow> m (s + i) \<noteq> 0) \<Longrightarrow> m (s + k) = 0 \<Longrightarrow> strlen m s = Some k"
  using strlen_from_nul [of k m s 0] by (simp add: strlen_def)

section \<open>The console\<close>

record console =
  cells :: "nat \<Rightarrow> u16"
  cursor :: nat

definition CONSOLE_END :: nat where [const_defs]: "CONSOLE_END = 2000"

fun blank_cells :: "console \<Rightarrow> nat \<Rightarrow> u32 \<Rightarrow> console" where
  "blank_cells k 0 color = k"
| "blank_cells k (Suc n) color =
     blank_cells (k\<lparr>cells := (cells k)(cursor k := ucast (0x20 OR color)), cursor := cursor k + 1\<rparr>)
       n color"

definition console_putc :: "console \<Rightarrow> u8 \<Rightarrow> u32 \<Rightarrow> console" where
  "console_putc k c color =
     (let k = (if cursor k \<ge> CONSOLE_END then k\<lparr>cursor := 0\<rparr> else k)
      in if c = 10 then blank_cells k (80 - cursor k mod 80) color
         else k\<lparr>cells := (cells k)(cursor k := ucast (ucast c OR color)), cursor := cursor k + 1\<rparr>)"

fun console_puts :: "console \<Rightarrow> u8 list \<Rightarrow> u32 \<Rightarrow> console" where
  "console_puts k [] color = k"
| "console_puts k (c # cs) color = console_puts (console_putc k c color) cs color"

section \<open>Numbers\<close>

definition upper_digits :: "u8 list" where
  "upper_digits = [48,49,50,51,52,53,54,55,56,57,65,66,67,68,69,70]"

definition lower_digits :: "u8 list" where
  "lower_digits = [48,49,50,51,52,53,54,55,56,57,97,98,99,100,101,102]"

text \<open>
  The digits are written from the end of the buffer down, so each one goes before those already
  there. The loop is a \<open>do while\<close>; for a base below two it does not end, and the source only
  passes 10 and 16, so a smaller base gives the empty list here.
\<close>

function fill_digits :: "nat \<Rightarrow> nat \<Rightarrow> u8 list \<Rightarrow> u8 list \<Rightarrow> u8 list" where
  "fill_digits val base digits buf =
     (if base < 2 then [] else
      (let buf' = digits ! (val mod base) # buf; val' = val div base
       in if val' \<noteq> 0 then fill_digits val' base digits buf' else buf'))"
  by pat_completeness auto
termination
  by (relation "measure (\<lambda>(val, base, digits, buf). val)") (auto intro!: div_less_dividend gr0I)

declare fill_digits.simps [simp del]

definition fill_numbuf :: "u32 \<Rightarrow> nat \<Rightarrow> u8 list \<Rightarrow> int \<Rightarrow> u8 list" where
  "fill_numbuf val base digits precision =
     (if precision \<noteq> 0 \<or> val \<noteq> 0 then fill_digits (unat val) base digits [] else [])"

section \<open>console_vprintf\<close>

datatype vaarg = VInt u32 | VStr "u8 list"

definition FLAG_ALT :: u32 where [const_defs]: "FLAG_ALT = push_bit 0 1"
definition FLAG_ZERO :: u32 where [const_defs]: "FLAG_ZERO = push_bit 1 1"
definition FLAG_LEFTJUSTIFY :: u32 where [const_defs]: "FLAG_LEFTJUSTIFY = push_bit 2 1"
definition FLAG_SPACEPOSITIVE :: u32 where [const_defs]: "FLAG_SPACEPOSITIVE = push_bit 3 1"
definition FLAG_PLUSPOSITIVE :: u32 where [const_defs]: "FLAG_PLUSPOSITIVE = push_bit 4 1"

definition flag_chars :: "u8 list" where
  "flag_chars = [35, 48, 45, 32, 43]"

fun flag_index :: "u8 list \<Rightarrow> u8 \<Rightarrow> nat option" where
  "flag_index [] c = None"
| "flag_index (f # fs) c = (if f = c then Some 0 else map_option Suc (flag_index fs c))"

fun vprintf_flags :: "u8 list \<Rightarrow> u32 \<Rightarrow> u32 \<times> u8 list" where
  "vprintf_flags [] flags = (flags, [])"
| "vprintf_flags (c # fmt) flags =
     (case flag_index flag_chars c of
        None \<Rightarrow> (flags, c # fmt)
      | Some i \<Rightarrow> vprintf_flags fmt (flags OR push_bit i 1))"

fun vprintf_number :: "u8 list \<Rightarrow> int \<Rightarrow> int \<times> u8 list" where
  "vprintf_number [] acc = (acc, [])"
| "vprintf_number (c # fmt) acc =
     (if 48 \<le> c \<and> c \<le> 57 then vprintf_number fmt (10 * acc + uint c - 48) else (acc, c # fmt))"

definition vprintf_width ::
  "u8 list \<Rightarrow> vaarg list \<Rightarrow> (int \<times> u8 list \<times> vaarg list) option" where
  "vprintf_width fmt val =
     (case fmt of
        [] \<Rightarrow> Some (-1, fmt, val)
      | c # fmt' \<Rightarrow>
          if 49 \<le> c \<and> c \<le> 57
          then (let (w, rest) = vprintf_number fmt 0 in Some (w, rest, val))
          else if c = 42
          then (case val of VInt x # val' \<Rightarrow> Some (sint x, fmt', val') | _ \<Rightarrow> None)
          else Some (-1, fmt, val))"

definition vprintf_precision ::
  "u8 list \<Rightarrow> vaarg list \<Rightarrow> (int \<times> u8 list \<times> vaarg list) option" where
  "vprintf_precision fmt val =
     (case fmt of
        [] \<Rightarrow> Some (-1, fmt, val)
      | c # fmt' \<Rightarrow>
          if c \<noteq> 46 then Some (-1, fmt, val)
          else (case fmt' of
                  [] \<Rightarrow> Some (0, fmt', val)
                | c' # fmt'' \<Rightarrow>
                    if 48 \<le> c' \<and> c' \<le> 57
                    then (let (p, rest) = vprintf_number fmt' 0 in Some (max 0 p, rest, val))
                    else if c' = 42
                    then (case val of VInt x # val' \<Rightarrow> Some (max 0 (sint x), fmt'', val') | _ \<Rightarrow> None)
                    else Some (0, fmt', val)))"

text \<open>The data of one conversion: the characters, whether they are a number, whether it is negative.\<close>

datatype conversion = Data "u8 list" bool bool | Colour u32

definition vprintf_convert ::
  "u8 list \<Rightarrow> int \<Rightarrow> vaarg list \<Rightarrow> (conversion \<times> u8 list \<times> vaarg list) option" where
  "vprintf_convert fmt precision val =
     (case fmt of
        [] \<Rightarrow> Some (Data [37] False False, [], val)
      | c # rest \<Rightarrow>
          if c = 100 then
            (case val of VInt x # val' \<Rightarrow>
               Some (Data (fill_numbuf (if sint x > 0 then x else - x) 10 upper_digits precision)
                       True (sint x < 0), rest, val') | _ \<Rightarrow> None)
          else if c = 117 then
            (case val of VInt x # val' \<Rightarrow>
               Some (Data (fill_numbuf x 10 upper_digits precision) True False, rest, val') | _ \<Rightarrow> None)
          else if c = 120 then
            (case val of VInt x # val' \<Rightarrow>
               Some (Data (fill_numbuf x 16 lower_digits precision) True False, rest, val') | _ \<Rightarrow> None)
          else if c = 88 then
            (case val of VInt x # val' \<Rightarrow>
               Some (Data (fill_numbuf x 16 upper_digits precision) True False, rest, val') | _ \<Rightarrow> None)
          else if c = 115 then
            (case val of VStr d # val' \<Rightarrow> Some (Data d False False, rest, val') | _ \<Rightarrow> None)
          else if c = 67 then
            (case val of VInt x # val' \<Rightarrow> Some (Colour x, rest, val') | _ \<Rightarrow> None)
          else if c = 99 then
            (case val of VInt x # val' \<Rightarrow>
               Some (Data (if (ucast x :: u8) = 0 then [] else [ucast x]) False False, rest, val') | _ \<Rightarrow> None)
          else Some (Data [c] False False, rest, val))"

text \<open>The sign, the zeros and the padding around the data: the characters of one field.\<close>

definition vprintf_field :: "u32 \<Rightarrow> int \<Rightarrow> int \<Rightarrow> u8 list \<Rightarrow> bool \<Rightarrow> bool \<Rightarrow> u8 list" where
  "vprintf_field flags width precision data numeric negative =
     (let len = (if precision \<ge> 0 then min (nat precision) (length data) else length data);
          sign = (if numeric \<and> negative then [45]
                  else if flags AND FLAG_PLUSPOSITIVE \<noteq> 0 then [43]
                  else if flags AND FLAG_SPACEPOSITIVE \<noteq> 0 then [32] else []);
          zeros = (if numeric \<and> precision > int len then precision - int len
                   else if flags AND (FLAG_ZERO OR FLAG_LEFTJUSTIFY) = FLAG_ZERO \<and> numeric
                     \<and> precision < 0 \<and> int len + int (length sign) < width
                   then width - int len - int (length sign) else 0);
          pad = width - (int len + zeros + int (length sign));
          left = (if flags AND FLAG_LEFTJUSTIFY \<noteq> 0 then 0 else nat pad);
          right = (if flags AND FLAG_LEFTJUSTIFY \<noteq> 0 then nat pad else 0)
      in replicate left 32 @ sign @ replicate (nat zeros) 48 @ take len data @ replicate right 32)"

lemma length_vprintf_flags: "length (snd (vprintf_flags fmt flags)) \<le> length fmt"
  by (induction fmt flags rule: vprintf_flags.induct) (auto split: option.splits)

lemma length_vprintf_number: "length (snd (vprintf_number fmt acc)) \<le> length fmt"
  by (induction fmt acc rule: vprintf_number.induct) auto

lemma length_vprintf_number': "vprintf_number fmt acc = (n, rest) \<Longrightarrow> length rest \<le> length fmt"
  using length_vprintf_number [of fmt acc] by simp

lemma length_vprintf_width:
  "vprintf_width fmt val = Some (w, rest, val') \<Longrightarrow> length rest \<le> length fmt"
  by (auto simp: vprintf_width_def dest: length_vprintf_number'
      split: list.splits if_splits vaarg.splits prod.splits)

lemma length_vprintf_precision:
  "vprintf_precision fmt val = Some (p, rest, val') \<Longrightarrow> length rest \<le> length fmt"
  by (fastforce simp: vprintf_precision_def dest: length_vprintf_number'
      split: list.splits if_splits vaarg.splits prod.splits)

lemma length_vprintf_convert:
  "vprintf_convert fmt p val = Some (d, rest, val') \<Longrightarrow> length rest \<le> length fmt"
  by (auto simp: vprintf_convert_def split: list.splits if_splits vaarg.splits)

definition vprintf_spec ::
  "u8 list \<Rightarrow> vaarg list \<Rightarrow> (u32 \<times> int \<times> int \<times> conversion \<times> u8 list \<times> vaarg list) option" where
  "vprintf_spec fmt val =
     (let (flags, fmt) = vprintf_flags fmt 0 in
      case vprintf_width fmt val of None \<Rightarrow> None | Some (width, fmt, val) \<Rightarrow>
      case vprintf_precision fmt val of None \<Rightarrow> None | Some (precision, fmt, val) \<Rightarrow>
      case vprintf_convert fmt precision val of None \<Rightarrow> None | Some (conv, fmt, val) \<Rightarrow>
      Some (flags, width, precision, conv, fmt, val))"

lemma length_vprintf_spec:
  "vprintf_spec fmt val = Some (fl, w, p, d, rest, val') \<Longrightarrow> length rest \<le> length fmt"
  using length_vprintf_flags [of fmt 0]
  by (auto simp: vprintf_spec_def split: prod.splits option.splits
      dest!: length_vprintf_width length_vprintf_precision length_vprintf_convert)

function console_vprintf ::
  "console \<Rightarrow> u32 \<Rightarrow> u8 list \<Rightarrow> vaarg list \<Rightarrow> console option" where
  "console_vprintf k color [] val = Some k"
| "console_vprintf k color (c # fmt) val =
     (if c \<noteq> 37 then console_vprintf (console_putc k c color) color fmt val
      else case vprintf_spec fmt val of
             None \<Rightarrow> None
           | Some (flags, width, precision, Colour color', rest, val') \<Rightarrow>
               console_vprintf k color' rest val'
           | Some (flags, width, precision, Data d numeric negative, rest, val') \<Rightarrow>
               console_vprintf
                 (console_puts k (vprintf_field flags width precision d numeric negative) color)
                 color rest val')"
  by pat_completeness auto
termination
  by (relation "measure (\<lambda>(k, color, fmt, val). length fmt)")
    (auto dest!: length_vprintf_spec)

section \<open>What is printed\<close>

text \<open>All writes of the console go to its own cells.\<close>

definition inside_console :: "console \<Rightarrow> console \<Rightarrow> bool" where
  "inside_console k k' \<longleftrightarrow>
     cursor k' \<le> CONSOLE_END \<and> (\<forall>i \<ge> CONSOLE_END. cells k' i = cells k i)"

lemma inside_console_trans:
  "inside_console k k1 \<Longrightarrow> inside_console k1 k2 \<Longrightarrow> inside_console k k2"
  by (simp add: inside_console_def)

lemma blank_cells_inside:
  "cursor k + n \<le> CONSOLE_END \<Longrightarrow> inside_console k (blank_cells k n color)"
proof (induction k n color rule: blank_cells.induct)
  case (2 k n color)
  then show ?case by (fastforce simp: inside_console_def)
qed (simp add: inside_console_def)

lemma row_end_inside: "(x :: nat) < 2000 \<Longrightarrow> x + (80 - x mod 80) \<le> 2000"
proof -
  assume "x < 2000"
  then have "x div 80 < 25" by (simp add: div_less_iff_less_mult)
  then have "80 * (x div 80) + 80 \<le> 2000" by simp
  moreover have "x = 80 * (x div 80) + x mod 80" "x mod 80 < 80" by simp_all
  ultimately show ?thesis by linarith
qed

lemma console_putc_inside: "inside_console k (console_putc k c color)"
proof -
  let ?k = "if cursor k \<ge> CONSOLE_END then k\<lparr>cursor := 0\<rparr> else k"
  have c: "cursor ?k < 2000" by (simp add: CONSOLE_END_def)
  have "inside_console ?k (console_putc k c color)"
  proof (cases "c = 10")
    case True
    then show ?thesis
      using blank_cells_inside [of ?k "80 - cursor ?k mod 80" color] row_end_inside [OF c]
      by (simp add: console_putc_def Let_def CONSOLE_END_def split del: if_split)
  next
    case False
    then show ?thesis
      using c by (auto simp: console_putc_def Let_def inside_console_def CONSOLE_END_def)
  qed
  then show ?thesis by (simp add: inside_console_def split: if_splits)
qed

lemma console_puts_inside:
  "cursor k \<le> CONSOLE_END \<Longrightarrow> inside_console k (console_puts k cs color)"
proof (induction cs arbitrary: k)
  case (Cons c cs)
  have "inside_console k (console_putc k c color)" by (rule console_putc_inside)
  moreover from this have "cursor (console_putc k c color) \<le> CONSOLE_END"
    by (simp add: inside_console_def)
  ultimately show ?case
    using Cons.IH [of "console_putc k c color"] by (simp add: inside_console_trans)
qed (simp add: inside_console_def)

text \<open>whatever the format string and the arguments are, \<open>console_vprintf\<close> started with the cursor
  inside the console (or just past its end, where it wraps) writes no cell outside the 80 * 25
  cells of the screen and returns a cursor with the same property.
\<close>

theorem console_vprintf_inside:
  "console_vprintf k color fmt val = Some k' \<Longrightarrow> cursor k \<le> CONSOLE_END \<Longrightarrow> inside_console k k'"
proof (induction k color fmt val rule: console_vprintf.induct)
  case (2 k color c fmt val)
  show ?case
  proof (cases "c = 37")
    case False
    have p: "inside_console k (console_putc k c color)" by (rule console_putc_inside)
    then have "cursor (console_putc k c color) \<le> CONSOLE_END" by (simp add: inside_console_def)
    with 2 False p show ?thesis by (auto intro: inside_console_trans)
  next
    case True
    then obtain fl w pr d rest val' where s: "vprintf_spec fmt val = Some (fl, w, pr, d, rest, val')"
      using "2.prems"(1) by (auto split: option.splits)
    show ?thesis
    proof (cases d)
      case (Data ds num neg)
      let ?k = "console_puts k (vprintf_field fl w pr ds num neg) color"
      have "inside_console k ?k" using "2.prems"(2) by (rule console_puts_inside)
      moreover from this have "cursor ?k \<le> CONSOLE_END" by (simp add: inside_console_def)
      ultimately show ?thesis
        using 2 True s Data by (auto intro: inside_console_trans)
    next
      case (Colour x)
      then show ?thesis using 2 True s by auto
    qed
  qed
qed (simp add: inside_console_def)

lemma console_vprintf_inside_witness:
  "inside_console \<lparr>cells = \<lambda>_. 0, cursor = 1999\<rparr>
     (the (console_vprintf \<lparr>cells = \<lambda>_. 0, cursor = 1999\<rparr> 0x0700 [37, 53, 120, 10] [VInt 48879]))"
  by (rule console_vprintf_inside [where color = "0x0700" and fmt = "[37, 53, 120, 10]"
        and val = "[VInt 48879]"])
    (simp_all add: vprintf_spec_def flag_chars_def vprintf_width_def vprintf_precision_def
      vprintf_convert_def CONSOLE_END_def)

text \<open>The value a list of digit characters denotes.\<close>

definition digits_value :: "nat \<Rightarrow> u8 list \<Rightarrow> u8 list \<Rightarrow> nat" where
  "digits_value base digits ds =
     foldl (\<lambda>a c. base * a + length (takeWhile (\<lambda>d. d \<noteq> c) digits)) 0 ds"

lemma digit_index:
  "distinct digits \<Longrightarrow> i < length digits \<Longrightarrow>
   length (takeWhile (\<lambda>d. d \<noteq> digits ! i) digits) = i"
proof (induction digits arbitrary: i)
  case (Cons d ds)
  then show ?case by (cases i) auto
qed simp

lemma digits_value_snoc:
  "digits_value base digits (ds @ [c]) =
   base * digits_value base digits ds + length (takeWhile (\<lambda>d. d \<noteq> c) digits)"
  by (simp add: digits_value_def)

lemma fill_digits_value:
  assumes "2 \<le> base" "base \<le> length digits" "distinct digits"
  shows "\<exists>ds. fill_digits v base digits buf = ds @ buf \<and> ds \<noteq> [] \<and>
    digits_value base digits ds = v \<and> base ^ (length ds - 1) \<le> max 1 v"
proof (induction v arbitrary: buf rule: less_induct)
  case (less v)
  let ?c = "digits ! (v mod base)"
  have idx: "length (takeWhile (\<lambda>d. d \<noteq> ?c) digits) = v mod base"
    using assms by (intro digit_index) (auto intro: less_le_trans [OF mod_less_divisor])
  have unfold1: "fill_digits v base digits buf =
      (if v div base \<noteq> 0 then fill_digits (v div base) base digits (?c # buf) else ?c # buf)"
    using assms(1) by (subst fill_digits.simps) (simp add: Let_def)
  show ?case
  proof (cases "v div base = 0")
    case True
    then have "v mod base = v" using assms(1) by (auto simp: div_eq_0_iff)
    then have "digits_value base digits [?c] = v" using idx by (simp add: digits_value_def)
    then show ?thesis using unfold1 True by (intro exI [of _ "[?c]"]) simp
  next
    case False
    then have "v div base < v" using assms(1) by (auto intro!: div_less_dividend gr0I)
    from less.IH [OF this, of "?c # buf"] obtain ds where
      ds: "fill_digits (v div base) base digits (?c # buf) = ds @ ?c # buf" "ds \<noteq> []"
        "digits_value base digits ds = v div base" "base ^ (length ds - 1) \<le> max 1 (v div base)"
      by blast
    have "base ^ (length (ds @ [?c]) - 1) = base * base ^ (length ds - 1)"
      using ds(2) by (cases ds) auto
    also have "\<dots> \<le> base * (v div base)" using ds(4) False by (auto simp: max_def split: if_splits)
    also have "\<dots> \<le> max 1 v" by (simp add: le_max_iff_disj)
    finally show ?thesis
      using unfold1 False ds idx
      by (intro exI [of _ "ds @ [?c]"]) (auto simp: digits_value_snoc)
  qed
qed

lemma unat_magnitude: "unat (if sint (x :: u32) > 0 then x else - x) = nat \<bar>sint x\<bar>"
proof (cases "sint x > 0")
  case True
  then show ?thesis using uint_sint_nonneg [of x] by (simp add: unat_eq_nat_uint)
next
  case False
  moreover have "- sint x \<le> 2 ^ 31" using sint_ge [of x] by simp
  ultimately show ?thesis using uint_minus_sint [of x] by (simp add: unat_eq_nat_uint)
qed

text \<open>C36: \<open>%d\<close> prints every 32-bit integer in decimal: a minus sign exactly for the negative
  ones, then digits whose value is the magnitude (of the least integer too, whose negation
  overflows), without leading zeros and short enough for the 20-byte number buffer.
\<close>

theorem vprintf_decimal:
  "\<exists>ds. console_vprintf k color [37, 100] [VInt x] =
      Some (console_puts k ((if sint x < 0 then [45] else []) @ ds) color) \<and>
    int (digits_value 10 upper_digits ds) = \<bar>sint x\<bar> \<and>
    10 ^ (length ds - 1) \<le> max 1 (nat \<bar>sint x\<bar>) \<and> ds \<noteq> [] \<and> length ds \<le> 10"
proof -
  let ?v = "if sint x > 0 then x else - x"
  obtain ds where ds: "fill_digits (unat ?v) 10 upper_digits [] = ds" "ds \<noteq> []"
      "digits_value 10 upper_digits ds = unat ?v" "10 ^ (length ds - 1) \<le> max 1 (unat ?v)"
    using fill_digits_value [of 10 upper_digits "unat ?v" "[]"] by (auto simp: upper_digits_def)
  have len: "length ds \<le> 10"
  proof (rule ccontr)
    assume "\<not> length ds \<le> 10"
    then have "(10 :: nat) ^ 10 \<le> 10 ^ (length ds - 1)" by (intro power_increasing) auto
    also have "\<dots> \<le> max 1 (unat ?v)" by (rule ds(4))
    also have "\<dots> < 10 ^ 10" using unat_u32_less [of ?v] by (simp add: max_def del: unat_u32_less)
    finally show False by simp
  qed
  have "console_vprintf k color [37, 100] [VInt x] =
      Some (console_puts k (vprintf_field 0 (-1) (-1) (fill_numbuf ?v 10 upper_digits (-1))
        True (sint x < 0)) color)"
    by (simp add: vprintf_spec_def flag_chars_def vprintf_width_def vprintf_precision_def
        vprintf_convert_def)
  also have "fill_numbuf ?v 10 upper_digits (-1) = ds"
    using ds(1) by (simp add: fill_numbuf_def)
  also have "vprintf_field 0 (-1) (-1) ds True (sint x < 0) = (if sint x < 0 then [45] else []) @ ds"
    by (simp add: vprintf_field_def FLAG_ZERO_def FLAG_PLUSPOSITIVE_def FLAG_SPACEPOSITIVE_def
        FLAG_LEFTJUSTIFY_def)
  finally show ?thesis
    using ds len by (intro exI [of _ ds]) (simp add: unat_magnitude split del: if_split)
qed

text \<open>
  A precision cuts a number's low digits off instead of being its least number of digits:
  \<open>%.2d\<close> prints 12345 as \<open>12\<close>.
\<close>

lemma vprintf_precision_truncates:
  "console_vprintf k color [37, 46, 50, 100] [VInt 12345] = Some (console_puts k [49, 50] color)"
  by (simp add: vprintf_spec_def flag_chars_def vprintf_width_def vprintf_precision_def
      vprintf_convert_def fill_numbuf_def fill_digits.simps upper_digits_def vprintf_field_def
      FLAG_ZERO_def FLAG_PLUSPOSITIVE_def FLAG_SPACEPOSITIVE_def FLAG_LEFTJUSTIFY_def)

end
