(* ===== verification/Weensy_X86.thy ===== *)
theory Weensy_X86
  imports Weensy_Lib
begin

text \<open>
  The x86 machine as both kernels of the repository see it (\<open>x86.h\<close>, \<open>mpos-x86.c\<close>,
  \<open>schedos-x86.c\<close>): the saved registers, the segment and gate descriptors with their split
  address fields, the interrupt table of each kernel, the keyboard, the console and the
  interrupt controller. A bit field is a number below 2 to its width in a wider word. Ports are a
  function from port to the byte read, writes a list of (port, byte) in order; the addresses of
  assembly handlers are parameters. \<open>EFLAGS_IF\<close> enables interrupts.

  The locale \<open>round_robin\<close> states what both schedulers promise when they scan the process
  table from the current process on; the kernels interpret it.
\<close>

section \<open>Registers and process states\<close>

record registers_t =
  reg_edi :: u32
  reg_esi :: u32
  reg_ebp :: u32
  reg_original_esp :: u32
  reg_ebx :: u32
  reg_edx :: u32
  reg_ecx :: u32
  reg_eax :: u32
  reg_es :: u16
  reg_ds :: u16
  reg_intno :: u32
  reg_err :: u32
  reg_eip :: u32
  reg_cs :: u16
  reg_eflags :: u32
  reg_esp :: u32
  reg_ss :: u16

definition zero_registers :: registers_t where
  "zero_registers =
     \<lparr>reg_edi = 0, reg_esi = 0, reg_ebp = 0, reg_original_esp = 0, reg_ebx = 0, reg_edx = 0,
      reg_ecx = 0, reg_eax = 0, reg_es = 0, reg_ds = 0, reg_intno = 0, reg_err = 0, reg_eip = 0,
      reg_cs = 0, reg_eflags = 0, reg_esp = 0, reg_ss = 0\<rparr>"

datatype procstate_t = P_EMPTY | P_RUNNABLE | P_BLOCKED | P_ZOMBIE

section \<open>Descriptors\<close>

definition STA_X :: u8 where [const_defs]: "STA_X = 0x8"
definition STA_W :: u8 where [const_defs]: "STA_W = 0x2"
definition STA_R :: u8 where [const_defs]: "STA_R = 0x2"
definition STS_T32A :: u8 where [const_defs]: "STS_T32A = 0x9"
definition STS_IG32 :: u8 where [const_defs]: "STS_IG32 = 0xE"
definition STS_TG32 :: u8 where [const_defs]: "STS_TG32 = 0xF"

record segmentdescriptor_t =
  sd_lim_15_0 :: u16
  sd_base_15_0 :: u16
  sd_base_23_16 :: u8
  sd_type :: u8
  sd_s :: u8
  sd_dpl :: u8
  sd_p :: u8
  sd_lim_19_16 :: u8
  sd_avl :: u8
  sd_rsv1 :: u8
  sd_db :: u8
  sd_g :: u8
  sd_base_31_24 :: u8

definition SEG_NULL :: segmentdescriptor_t where
  "SEG_NULL = \<lparr>sd_lim_15_0 = 0, sd_base_15_0 = 0, sd_base_23_16 = 0, sd_type = 0, sd_s = 0,
     sd_dpl = 0, sd_p = 0, sd_lim_19_16 = 0, sd_avl = 0, sd_rsv1 = 0, sd_db = 0, sd_g = 0,
     sd_base_31_24 = 0\<rparr>"

definition SEG :: "u8 \<Rightarrow> u32 \<Rightarrow> u32 \<Rightarrow> u8 \<Rightarrow> segmentdescriptor_t" where
  "SEG type base lim dpl =
     \<lparr>sd_lim_15_0 = ucast (drop_bit 12 lim AND 0xFFFF), sd_base_15_0 = ucast (base AND 0xFFFF),
      sd_base_23_16 = ucast (drop_bit 16 base AND 0xFF), sd_type = type, sd_s = 1, sd_dpl = dpl,
      sd_p = 1, sd_lim_19_16 = ucast (drop_bit 28 lim AND 0xF), sd_avl = 0, sd_rsv1 = 0,
      sd_db = 1, sd_g = 1, sd_base_31_24 = ucast (drop_bit 24 base AND 0xFF)\<rparr>"

definition SEG16 :: "u8 \<Rightarrow> u32 \<Rightarrow> u32 \<Rightarrow> u8 \<Rightarrow> segmentdescriptor_t" where
  "SEG16 type base lim dpl =
     \<lparr>sd_lim_15_0 = ucast (lim AND 0xFFFF), sd_base_15_0 = ucast (base AND 0xFFFF),
      sd_base_23_16 = ucast (drop_bit 16 base AND 0xFF), sd_type = type, sd_s = 1, sd_dpl = dpl,
      sd_p = 1, sd_lim_19_16 = ucast (drop_bit 16 lim AND 0xF), sd_avl = 0, sd_rsv1 = 0,
      sd_db = 1, sd_g = 0, sd_base_31_24 = ucast (drop_bit 24 base AND 0xFF)\<rparr>"

record gatedescriptor_t =
  gd_off_15_0 :: u16
  gd_ss :: u16
  gd_args :: u8
  gd_rsv1 :: u8
  gd_type :: u8
  gd_s :: u8
  gd_dpl :: u8
  gd_p :: u8
  gd_off_31_16 :: u16

definition SETGATE :: "bool \<Rightarrow> u16 \<Rightarrow> u32 \<Rightarrow> u8 \<Rightarrow> gatedescriptor_t" where
  "SETGATE istrap sel off dpl =
     \<lparr>gd_off_15_0 = ucast (off AND 0xFFFF), gd_ss = sel, gd_args = 0, gd_rsv1 = 0,
      gd_type = (if istrap then STS_TG32 else STS_IG32), gd_s = 0, gd_dpl = dpl, gd_p = 1,
      gd_off_31_16 = ucast (drop_bit 16 off)\<rparr>"

text \<open>What the processor reads out of the split fields.\<close>

definition gate_offset :: "gatedescriptor_t \<Rightarrow> u32" where
  "gate_offset g = push_bit 16 (ucast (gd_off_31_16 g)) OR ucast (gd_off_15_0 g)"

definition seg_base :: "segmentdescriptor_t \<Rightarrow> u32" where
  "seg_base s = push_bit 24 (ucast (sd_base_31_24 s)) OR push_bit 16 (ucast (sd_base_23_16 s))
     OR ucast (sd_base_15_0 s)"

definition seg_limit :: "segmentdescriptor_t \<Rightarrow> u32" where
  "seg_limit s = (let l = push_bit 16 (ucast (sd_lim_19_16 s)) OR ucast (sd_lim_15_0 s)
     in if sd_g s = 1 then push_bit 12 l OR 0xFFF else l)"

lemma gate_offset_SETGATE: "gate_offset (SETGATE istrap sel off dpl) = off"
proof (rule bit_word_eqI)
  fix n assume n: "n < LENGTH(32)"
  have ones: "(0xFFFF :: u32) = mask 16" by (simp add: mask_eq_exp_minus_1)
  show "bit (gate_offset (SETGATE istrap sel off dpl)) n = bit off n"
    unfolding gate_offset_def SETGATE_def ones
    using n by (cases "16 \<le> n") (auto simp: bit_simps)
qed

section \<open>Segment selectors and interrupt tables\<close>

definition SEGSEL_KERN_CODE :: u16 where [const_defs]: "SEGSEL_KERN_CODE = 0x8"
definition SEGSEL_KERN_DATA :: u16 where [const_defs]: "SEGSEL_KERN_DATA = 0x10"
definition SEGSEL_APP_CODE :: u16 where [const_defs]: "SEGSEL_APP_CODE = 0x18"
definition SEGSEL_APP_DATA :: u16 where [const_defs]: "SEGSEL_APP_DATA = 0x20"
definition SEGSEL_TASKSTATE :: u16 where [const_defs]: "SEGSEL_TASKSTATE = 0x28"

definition segments0 :: "segmentdescriptor_t list" where
  "segments0 = [SEG_NULL, SEG (STA_X OR STA_R) 0 0xFFFFFFFF 0, SEG STA_W 0 0xFFFFFFFF 0,
     SEG (STA_X OR STA_R) 0 0xFFFFFFFF 3, SEG STA_W 0 0xFFFFFFFF 3, SEG_NULL]"

record x86_tables =
  segments :: "segmentdescriptor_t list"
  ts_esp0 :: u32
  ts_ss0 :: u16
  idt :: "nat \<Rightarrow> gatedescriptor_t"

definition taskstate_segment :: "u32 \<Rightarrow> segmentdescriptor_t" where
  "taskstate_segment task_descriptor =
     (SEG16 STS_T32A task_descriptor 104 0)\<lparr>sd_s := 0\<rparr>"

text \<open>
  \<open>fill_gates\<close> is the loop that sets the gates \<open>i\<close> to \<open>i + n - 1\<close>; the handler may depend on
  the index.
\<close>

fun fill_gates ::
  "(nat \<Rightarrow> gatedescriptor_t) \<Rightarrow> nat \<Rightarrow> nat \<Rightarrow> (nat \<Rightarrow> u32) \<Rightarrow> u8 \<Rightarrow> nat \<Rightarrow> gatedescriptor_t" where
  "fill_gates t i 0 handler dpl = t"
| "fill_gates t i (Suc n) handler dpl =
     fill_gates (t(i := SETGATE False SEGSEL_KERN_CODE (handler i) dpl)) (i + 1) n handler dpl"

definition mpos_segments_init ::
  "x86_tables \<Rightarrow> u32 \<Rightarrow> u32 \<Rightarrow> (nat \<Rightarrow> u32) \<Rightarrow> x86_tables" where
  "mpos_segments_init t task_descriptor default_int_handler sys_int_handlers =
     t\<lparr>segments := segments0[unat (drop_bit 3 SEGSEL_TASKSTATE) := taskstate_segment task_descriptor],
       ts_esp0 := 0x80000, ts_ss0 := SEGSEL_KERN_DATA,
       idt := fill_gates (fill_gates (idt t) 0 256 (\<lambda>i. default_int_handler) 0)
                48 10 (\<lambda>i. sys_int_handlers (i - 48)) 3\<rparr>"

definition sched_segments_init ::
  "x86_tables \<Rightarrow> u32 \<Rightarrow> u32 \<Rightarrow> u32 \<Rightarrow> (nat \<Rightarrow> u32) \<Rightarrow> x86_tables" where
  "sched_segments_init t task_descriptor default_int_handler clock_int_handler sys_int_handlers =
     t\<lparr>segments := segments0[unat (drop_bit 3 SEGSEL_TASKSTATE) := taskstate_segment task_descriptor],
       ts_esp0 := 0x180000, ts_ss0 := SEGSEL_KERN_DATA,
       idt := fill_gates ((fill_gates (idt t) 0 256 (\<lambda>i. default_int_handler) 0)
                  (32 := SETGATE False SEGSEL_KERN_CODE clock_int_handler 0))
                48 10 (\<lambda>i. sys_int_handlers (i - 48)) 3\<rparr>"

lemma fill_gates_apply:
  "fill_gates t i n handler dpl j =
     (if i \<le> j \<and> j < i + n then SETGATE False SEGSEL_KERN_CODE (handler j) dpl else t j)"
proof (induction n arbitrary: t i)
  case (Suc n)
  then show ?case by (auto simp: Suc.IH)
qed auto

lemma mpos_idt:
  "i < 256 \<Longrightarrow> idt (mpos_segments_init t td dflt sys) i =
     (if 48 \<le> i \<and> i < 58 then SETGATE False SEGSEL_KERN_CODE (sys (i - 48)) 3
      else SETGATE False SEGSEL_KERN_CODE dflt 0)"
  by (simp add: mpos_segments_init_def fill_gates_apply)

lemma sched_idt:
  "i < 256 \<Longrightarrow> idt (sched_segments_init t td dflt clk sys) i =
     (if 48 \<le> i \<and> i < 58 then SETGATE False SEGSEL_KERN_CODE (sys (i - 48)) 3
      else if i = 32 then SETGATE False SEGSEL_KERN_CODE clk 0
      else SETGATE False SEGSEL_KERN_CODE dflt 0)"
  by (simp add: sched_segments_init_def fill_gates_apply)

text \<open>after either kernel's \<open>segments_init\<close> every vector below 256 enters the kernel's code
  segment at the address meant for it, although the descriptor splits the address: the system
  calls at their handlers, the clock at its handler in SchedOS, everything else at the default
  handler; and an application (privilege 3) can raise exactly the ten system-call vectors.
\<close>

theorem segments_init_gates:
  assumes "i < 256"
  shows "gate_offset (idt (mpos_segments_init t td dflt sys) i) =
       (if 48 \<le> i \<and> i < 58 then sys (i - 48) else dflt) \<and>
     gate_offset (idt (sched_segments_init t td dflt clk sys) i) =
       (if 48 \<le> i \<and> i < 58 then sys (i - 48) else if i = 32 then clk else dflt) \<and>
     (3 \<le> gd_dpl (idt (mpos_segments_init t td dflt sys) i)) = (48 \<le> i \<and> i < 58) \<and>
     (3 \<le> gd_dpl (idt (sched_segments_init t td dflt clk sys) i)) = (48 \<le> i \<and> i < 58) \<and>
     gd_ss (idt (mpos_segments_init t td dflt sys) i) = SEGSEL_KERN_CODE \<and>
     gd_ss (idt (sched_segments_init t td dflt clk sys) i) = SEGSEL_KERN_CODE"
  using assms by (simp add: mpos_idt sched_idt gate_offset_SETGATE) (simp add: SETGATE_def)

lemma segments_init_gates_witness:
  "gate_offset (idt (mpos_segments_init undefined 0 0x100200 (\<lambda>k. 0x100300 + 16 * of_nat k)) 51) =
     0x100330 \<and>
   \<not> 3 \<le> gd_dpl (idt (sched_segments_init undefined 0 0x100200 0x100280 (\<lambda>k. 0)) 32)"
  using segments_init_gates [of 51 undefined 0 "0x100200" "\<lambda>k. 0x100300 + 16 * of_nat k" 0]
    segments_init_gates [of 32 undefined 0 "0x100200" "\<lambda>k. 0" "0x100280"]
  by simp

lemma flat_segments:
  "\<forall>i \<in> {1,2,3,4}. seg_base (segments0 ! i) = 0 \<and> seg_limit (segments0 ! i) = 0xFFFFFFFF"
  by (simp add: segments0_def SEG_def seg_base_def seg_limit_def)

section \<open>Special registers, keyboard and console\<close>

definition mpos_special_registers :: registers_t where
  "mpos_special_registers = zero_registers\<lparr>reg_cs := SEGSEL_APP_CODE OR 3,
     reg_ds := SEGSEL_APP_DATA OR 3, reg_es := SEGSEL_APP_DATA OR 3,
     reg_ss := SEGSEL_APP_DATA OR 3\<rparr>"

definition EFLAGS_IF :: u32 where [const_defs]: "EFLAGS_IF = 0x200"

definition sched_special_registers :: registers_t where
  "sched_special_registers = zero_registers\<lparr>reg_cs := SEGSEL_APP_CODE OR 3,
     reg_ds := SEGSEL_APP_DATA OR 3, reg_es := SEGSEL_APP_DATA OR 3,
     reg_ss := SEGSEL_APP_DATA OR 3, reg_eflags := EFLAGS_IF\<rparr>"

text \<open>The keyboard controller's status and data ports give \<open>status\<close> and \<open>data\<close>.\<close>

definition console_read_digit :: "u8 \<Rightarrow> u8 \<Rightarrow> int" where
  "console_read_digit status data =
     (if status AND 0x01 = 0 then -1
      else if data \<ge> 0x02 \<and> data \<le> 0x0A then uint data - 0x02 + 1
      else if data = 0x0B then 0
      else if data \<ge> 0x47 \<and> data \<le> 0x49 then uint data - 0x47 + 7
      else if data \<ge> 0x4B \<and> data \<le> 0x4D then uint data - 0x4B + 4
      else if data \<ge> 0x4F \<and> data \<le> 0x51 then uint data - 0x4F + 1
      else if data = 0x53 then 0
      else -1)"

fun clear_cells :: "(nat \<Rightarrow> u16) \<Rightarrow> nat \<Rightarrow> (nat \<Rightarrow> u16)" where
  "clear_cells cs 0 = cs"
| "clear_cells cs (Suc i) = (clear_cells cs i)(i := 0x20 OR 0x0700)"

definition console_clear :: "console \<Rightarrow> console \<times> (u16 \<times> u8) list" where
  "console_clear k = (\<lparr>cells = clear_cells (cells k) 2000, cursor = 0\<rparr>,
     [(0x3D4, 14), (0x3D5, 0), (0x3D4, 15), (0x3D5, 0)])"

lemma clear_cells_apply: "clear_cells cs n i = (if i < n then 0x0720 else cs i)"
  by (induction n) (auto simp: less_Suc_eq)

section \<open>The interrupt controller\<close>

definition IO_PIC1 :: u16 where [const_defs]: "IO_PIC1 = 0x20"
definition IO_PIC2 :: u16 where [const_defs]: "IO_PIC2 = 0xA0"
definition IRQ_SLAVE :: nat where [const_defs]: "IRQ_SLAVE = 2"
definition IO_TIMER1 :: u16 where [const_defs]: "IO_TIMER1 = 0x40"
definition TIMER_MODE :: u16 where [const_defs]: "TIMER_MODE = IO_TIMER1 + 3"
definition TIMER_FREQ :: nat where [const_defs]: "TIMER_FREQ = 1193182"

definition TIMER_DIV :: "nat \<Rightarrow> nat" where
  "TIMER_DIV x = (TIMER_FREQ + x div 2) div x"

definition interrupt_controller_init :: "bool \<Rightarrow> (u16 \<times> u8) list" where
  "interrupt_controller_init allow_clock_interrupt =
     [(IO_PIC1 + 1, 0xFF), (IO_PIC2 + 1, 0xFF),
      (IO_PIC1, 0x11), (IO_PIC1 + 1, 32), (IO_PIC1 + 1, push_bit IRQ_SLAVE 1), (IO_PIC1 + 1, 0x3),
      (IO_PIC2, 0x11), (IO_PIC2 + 1, 32 + 8), (IO_PIC2 + 1, of_nat IRQ_SLAVE), (IO_PIC2 + 1, 0x01),
      (IO_PIC1, 0x68), (IO_PIC1, 0x0a), (IO_PIC2, 0x68), (IO_PIC2, 0x0a),
      (IO_PIC1 + 1, if allow_clock_interrupt then 0xFE else 0xFF), (IO_PIC2 + 1, 0xFF)]
     @ (if allow_clock_interrupt then
          [(TIMER_MODE, 0x00 OR 0x04 OR 0x30), (IO_TIMER1, of_nat (TIMER_DIV 100 mod 256)),
           (IO_TIMER1, of_nat (TIMER_DIV 100 div 256))]
        else [])"

lemma timer_fits: "TIMER_DIV 100 < 2 ^ 16"
  by (simp add: TIMER_DIV_def TIMER_FREQ_def)

end
