(* ===== verification/Weensy_Loader.thy ===== *)
theory Weensy_Loader
  imports Weensy_X86
begin

text \<open>
  The ELF loaders of the two kernels: \<open>mpos-loader.c\<close> and \<open>schedos-loader.c\<close> copy an
  application image that lies in RAM, \<open>mpos-boot.c\<close> and \<open>schedos-boot.c\<close> (the boot sector)
  read the kernel image from the disk. The header fields are read from the byte memory at their
  C offsets. The start addresses of the images are the linker's, the disk contents the
  hardware's: both are parameters. \<open>None\<close> is a loop that never ends (a panic, or the sector loop
  that runs past the end of the 32-bit address space).
\<close>

section \<open>ELF headers\<close>

definition load16 :: "mem \<Rightarrow> nat \<Rightarrow> u16" where
  "load16 m a = ucast (m a) OR push_bit 8 (ucast (m (a + 1)))"

definition ELF_MAGIC :: u32 where [const_defs]: "ELF_MAGIC = 0x464C457F"
definition ELF_PROG_LOAD :: u32 where [const_defs]: "ELF_PROG_LOAD = 1"

record Elf =
  e_magic :: u32
  e_entry :: u32
  e_phoff :: u32
  e_phnum :: u16

definition read_Elf :: "mem \<Rightarrow> nat \<Rightarrow> Elf" where
  "read_Elf m a = \<lparr>e_magic = load32 m a, e_entry = load32 m (a + 24),
     e_phoff = load32 m (a + 28), e_phnum = load16 m (a + 44)\<rparr>"

record Proghdr =
  p_type :: u32
  p_offset :: u32
  p_va :: u32
  p_filesz :: u32
  p_memsz :: u32

definition read_Proghdr :: "mem \<Rightarrow> nat \<Rightarrow> Proghdr" where
  "read_Proghdr m a = \<lparr>p_type = load32 m a, p_offset = load32 m (a + 4), p_va = load32 m (a + 8),
     p_filesz = load32 m (a + 16), p_memsz = load32 m (a + 20)\<rparr>"

section \<open>Loading an application from RAM\<close>

text \<open>The loop that clears the bss segment.\<close>

function clear_bss :: "mem \<Rightarrow> u32 \<Rightarrow> u32 \<Rightarrow> mem" where
  "clear_bss m end_va memend =
     (if end_va < memend then clear_bss (m(unat end_va := 0)) (end_va + 1) memend else m)"
  by pat_completeness auto
termination
  by (relation "measure (\<lambda>(m, a, e). unat e - unat a)")
    (auto simp: unat_plus_one_u32 word_less_nat_alt [symmetric],
     metis diff_less_mono2 lessI unat_mono Suc_eq_plus1 unat_plus_one_u32)

declare clear_bss.simps [simp del]

definition copyseg :: "mem \<Rightarrow> u32 \<Rightarrow> u32 \<Rightarrow> u32 \<Rightarrow> u32 \<Rightarrow> mem" where
  "copyseg m dst src filesz memsz =
     (let end_va = dst + filesz;
          memend = memsz + dst;
          va = dst AND NOT (4096 - 1);
          m1 = memcpy m (unat va) (unat src) (unat (end_va - va))
      in clear_bss m1 end_va memend)"

fun load_segments :: "mem \<Rightarrow> u32 \<Rightarrow> u32 \<Rightarrow> nat \<Rightarrow> mem" where
  "load_segments m elf_header ph 0 = m"
| "load_segments m elf_header ph (Suc n) =
     (let p = read_Proghdr m (unat ph);
          m' = (if p_type p = ELF_PROG_LOAD
                then copyseg m (p_va p) (elf_header + p_offset p) (p_filesz p) (p_memsz p) else m)
      in load_segments m' elf_header (ph + 32) n)"

definition program_loader :: "u32 list \<Rightarrow> mem \<Rightarrow> int \<Rightarrow> (mem \<times> u32) option" where
  "program_loader ramimages m program_id =
     (if program_id < 0 \<or> program_id \<ge> int (length ramimages) then None
      else
        let elf_header = ramimages ! nat program_id; elf = read_Elf m (unat elf_header) in
        if e_magic elf \<noteq> ELF_MAGIC then None
        else
          let m' = load_segments m elf_header (elf_header + e_phoff elf) (unat (e_phnum elf))
          in Some (m', e_entry (read_Elf m' (unat elf_header))))"

section \<open>Booting the kernel from the disk\<close>

text \<open>The commands \<open>readsect\<close> gives to the disk controller, and the sector it then reads.\<close>

definition readsect_ports :: "u32 \<Rightarrow> (u16 \<times> u8) list" where
  "readsect_ports sect =
     [(0x1F2, 1), (0x1F3, ucast sect), (0x1F4, ucast (drop_bit 8 sect)),
      (0x1F5, ucast (drop_bit 16 sect)), (0x1F6, ucast (drop_bit 24 sect OR 0xE0)), (0x1F7, 0x20)]"

definition readsect :: "(nat \<Rightarrow> u8) \<Rightarrow> mem \<Rightarrow> u32 \<Rightarrow> u32 \<Rightarrow> mem" where
  "readsect disk m dst sect =
     write_bytes m (unat dst) (map (\<lambda>i. disk (512 * unat sect + i)) [0..<512])"

partial_function (option) readsects ::
  "(nat \<Rightarrow> u8) \<Rightarrow> mem \<Rightarrow> u32 \<Rightarrow> u32 \<Rightarrow> u32 \<Rightarrow> mem option" where
  "readsects disk m va end_va sect =
     (if va < end_va then readsects disk (readsect disk m va sect) (va + 512) end_va (sect + 1)
      else Some m)"

definition readseg ::
  "(nat \<Rightarrow> u8) \<Rightarrow> mem \<Rightarrow> u32 \<Rightarrow> u32 \<Rightarrow> u32 \<Rightarrow> u32 \<Rightarrow> mem option" where
  "readseg disk m va filesz memsz sect =
     (let end_va = va + filesz; memend = memsz + va; va = va AND NOT (512 - 1)
      in case readsects disk m va end_va sect of
           None \<Rightarrow> None | Some m' \<Rightarrow> Some (clear_bss m' end_va memend))"

fun boot_segments :: "(nat \<Rightarrow> u8) \<Rightarrow> mem \<Rightarrow> u32 \<Rightarrow> nat \<Rightarrow> mem option" where
  "boot_segments disk m ph 0 = Some m"
| "boot_segments disk m ph (Suc n) =
     (let p = read_Proghdr m (unat ph)
      in case readseg disk m (p_va p) (p_filesz p) (p_memsz p) (1 + p_offset p div 512) of
           None \<Rightarrow> None | Some m' \<Rightarrow> boot_segments disk m' (ph + 32) n)"

datatype boot_result = Not_Elf mem | Jump mem u32

definition bootmain :: "(nat \<Rightarrow> u8) \<Rightarrow> mem \<Rightarrow> boot_result option" where
  "bootmain disk m =
     (let ELFHDR = 0x10000 in
      case readseg disk m ELFHDR 4096 4096 1 of None \<Rightarrow> None
      | Some m1 \<Rightarrow>
          let elf = read_Elf m1 (unat ELFHDR) in
          if e_magic elf \<noteq> ELF_MAGIC then Some (Not_Elf m1)
          else case boot_segments disk m1 (ELFHDR + e_phoff elf) (unat (e_phnum elf)) of
                 None \<Rightarrow> None
               | Some m2 \<Rightarrow> Some (Jump m2 (e_entry (read_Elf m2 (unat ELFHDR)))))"

section \<open>What the segments hold\<close>

lemma clear_bss_fill: "clear_bss m a e = fill m (unat a) (unat e - unat a) 0"
proof (induction m a e rule: clear_bss.induct)
  case (1 m a e)
  show ?case
  proof (cases "a < e")
    case True
    then have "unat (a + 1) = Suc (unat a)" "unat a < unat e"
      using unat_plus_one_u32 [of a e] by (simp_all add: word_less_nat_alt)
    moreover have "clear_bss (m(unat a := 0)) (a + 1) e =
        fill (m(unat a := 0)) (unat (a + 1)) (unat e - unat (a + 1)) 0"
      using 1 True by (simp add: fun_upd_def)
    ultimately show ?thesis
      using True by (subst clear_bss.simps) (auto simp: fill_def fun_eq_iff)
  next
    case False
    then show ?thesis by (subst clear_bss.simps) (auto simp: fill_def fun_eq_iff word_less_nat_alt)
  qed
qed

lemma unat_round_down:
  "unat ((x :: u32) AND NOT (2 ^ k - 1)) = unat x - unat x mod 2 ^ k"
proof -
  have "x AND NOT (2 ^ k - 1) = push_bit k (drop_bit k x)"
    by (simp flip: mask_eq_exp_minus_1) (rule bit_word_eqI, auto simp: bit_simps)
  moreover have "unat (push_bit k (drop_bit k x)) = unat x div 2 ^ k * 2 ^ k"
  proof -
    have "push_bit k (drop_bit k (unat x)) < 2 ^ 32"
      using le_less_trans [OF div_times_less_eq_dividend unat_u32_less, of x "2 ^ k"]
      by (simp add: push_bit_eq_mult drop_bit_eq_div)
    moreover have "unat (push_bit k (drop_bit k x)) = take_bit 32 (push_bit k (drop_bit k (unat x)))"
      by (simp only: unsigned_push_bit_eq unsigned_drop_bit_eq) (simp add: take_bit_eq_mod)
    ultimately show ?thesis
      by (simp add: take_bit_nat_eq_self) (simp add: push_bit_eq_mult drop_bit_eq_div)
  qed
  ultimately show ?thesis by (simp add: minus_mod_eq_div_mult)
qed

lemma unat_page: "unat ((x :: u32) AND NOT (4096 - 1)) = unat x - unat x mod 4096"
  using unat_round_down [of x 12] by simp

lemma unat_sector: "unat ((x :: u32) AND NOT (512 - 1)) = unat x - unat x mod 512"
  using unat_round_down [of x 9] by simp

text \<open>what \<open>copyseg\<close> leaves in memory. Byte \<open>j\<close> of a segment comes from byte
  \<open>j + dst mod 4096\<close> of the image, because the destination is rounded down to its page and the
  source is not; the copy is right exactly for a page-aligned segment. The rest of the segment's
  memory size is zero, and nothing outside the segment's pages changes.
\<close>

theorem copyseg_contents:
  assumes fits: "unat dst + unat memsz < 2 ^ 32" and sz: "filesz \<le> memsz"
    and apart: "unat src + unat filesz + unat dst mod 4096 \<le> unat dst - unat dst mod 4096 \<or>
      unat dst - unat dst mod 4096 \<le> unat src"
  shows "copyseg m dst src filesz memsz x =
    (if unat dst + unat filesz \<le> x \<and> x < unat dst + unat memsz then 0
     else if unat dst - unat dst mod 4096 \<le> x \<and> x < unat dst + unat filesz
     then m (unat src + (x - (unat dst - unat dst mod 4096)))
     else m x)"
proof -
  let ?va = "dst AND NOT (4096 - 1)"
  have fz: "unat filesz \<le> unat memsz" using sz by (simp add: word_le_nat_alt)
  have e: "unat (dst + filesz) = unat dst + unat filesz"
    and l: "unat (memsz + dst) = unat dst + unat memsz"
    using fits fz by (simp_all add: unat_plus_u32)
  have va: "unat ?va = unat dst - unat dst mod 4096" by (rule unat_page)
  have le: "?va \<le> dst + filesz" unfolding word_le_nat_alt va e by simp
  have n: "unat (dst + filesz - ?va) = unat dst + unat filesz - unat ?va"
    using unat_minus_u32 [OF le] e by simp
  have cp: "memcpy m (unat ?va) (unat src) (unat (dst + filesz - ?va)) x =
      (if unat ?va \<le> x \<and> x < unat dst + unat filesz then m (unat src + (x - unat ?va)) else m x)"
    using apart unfolding n va by (subst memcpy_apply) auto
  show ?thesis
    unfolding copyseg_def Let_def clear_bss_fill fill_def e l cp unfolding va by auto
qed

lemma copyseg_contents_witness:
  "copyseg (\<lambda>a. if a = 0x180003 then 77 else 9) 0x200000 0x180000 8 12 0x200003 = 77 \<and>
   copyseg (\<lambda>a. if a = 0x180003 then 77 else 9) 0x200000 0x180000 8 12 0x200009 = 0 \<and>
   copyseg (\<lambda>a. if a = 0x180003 then 77 else 9) 0x200010 0x180000 8 12 0x200013 = 9"
  using copyseg_contents [of "0x200000" 12 8 "0x180000" "\<lambda>a. if a = 0x180003 then 77 else 9" "0x200003"]
    copyseg_contents [of "0x200000" 12 8 "0x180000" "\<lambda>a. if a = 0x180003 then 77 else 9" "0x200009"]
    copyseg_contents [of "0x200010" 12 8 "0x180000" "\<lambda>a. if a = 0x180003 then 77 else 9" "0x200013"]
  by (simp add: word_le_nat_alt)

lemma readsect_apply:
  "readsect disk m dst sect x =
   (if unat dst \<le> x \<and> x < unat dst + 512 then disk (512 * unat sect + (x - unat dst)) else m x)"
  by (auto simp: readsect_def write_bytes_def)

text \<open>The sector loop: \<open>n\<close> sectors, the last of which holds the segment's last byte.\<close>

lemma readsects_sectors:
  assumes "unat va + 512 * n < 2 ^ 32" "unat sect + n < 2 ^ 32"
    "unat end_va \<le> unat va + 512 * n" "n \<noteq> 0 \<longrightarrow> unat va + 512 * (n - 1) < unat end_va"
  shows "readsects disk m va end_va sect =
    Some (\<lambda>x. if unat va \<le> x \<and> x < unat va + 512 * n
              then disk (512 * unat sect + (x - unat va)) else m x)"
  using assms
proof (induction n arbitrary: m va sect)
  case 0
  then show ?case by (subst readsects.simps) (auto simp: word_less_nat_alt fun_eq_iff)
next
  case (Suc n)
  have lt: "va < end_va" using Suc.prems(4) by (simp add: word_less_nat_alt)
  have v: "unat (va + 512) = unat va + 512" and s: "unat (sect + 1) = unat sect + 1"
    using Suc.prems(1,2) by (simp_all add: unat_plus_u32)
  have "readsects disk (readsect disk m va sect) (va + 512) end_va (sect + 1) =
      Some (\<lambda>x. if unat va + 512 \<le> x \<and> x < unat va + 512 + 512 * n
        then disk (512 * (unat sect + 1) + (x - (unat va + 512))) else readsect disk m va sect x)"
    using Suc.IH [of "va + 512" "sect + 1" "readsect disk m va sect"] Suc.prems
    unfolding v s by (cases n) simp_all
  then show ?case
    using lt by (subst readsects.simps) (auto simp: readsect_apply fun_eq_iff algebra_simps)
qed

text \<open>C38: \<open>readseg\<close> loads a kernel segment: when the segment's file offset and its address agree
  modulo the sector size, as a linker lays them out, byte \<open>j\<close> of the segment is the byte of the
  kernel image at the file offset plus \<open>j\<close> (the image starts at sector 1), and the memory from
  the file size to the memory size is zero. The call returns.
\<close>

theorem readseg_contents:
  assumes "unat va + unat memsz + 512 < 2 ^ 32" "filesz \<le> memsz"
    and "unat offset mod 512 = unat va mod 512" "unat offset + unat filesz + 1024 < 2 ^ 32"
  shows "\<exists>m'. readseg disk m va filesz memsz (1 + offset div 512) = Some m' \<and>
    (\<forall>j < unat filesz. m' (unat va + j) = disk (512 + unat offset + j)) \<and>
    (\<forall>j \<in> {unat filesz ..< unat memsz}. m' (unat va + j) = 0)"
proof -
  let ?va = "va AND NOT (512 - 1)" and ?fin = "unat va + unat filesz"
  have fz: "unat filesz \<le> unat memsz" using assms(2) by (simp add: word_le_nat_alt)
  have e: "unat (va + filesz) = ?fin" and l: "unat (memsz + va) = unat va + unat memsz"
    using assms(1) fz by (simp_all add: unat_plus_u32)
  have v: "unat ?va = unat va - unat va mod 512" by (rule unat_sector)
  have sect: "unat (1 + offset div 512) = 1 + unat offset div 512"
    using div_le_dividend [of "unat offset" 512] unat_u32_less [of offset]
    by (simp add: unat_plus_u32 unat_div del: unat_u32_less)
  define n where "n = (?fin - unat ?va + 511) div 512"
  have n: "?fin - unat ?va \<le> 512 * n" "512 * n < ?fin - unat ?va + 512"
    unfolding n_def by (auto simp: algebra_simps) 
  have base: "unat ?va \<le> unat va" "unat va = unat ?va + unat va mod 512" using v by simp_all
  have r: "readsects disk m ?va (va + filesz) (1 + offset div 512) =
    Some (\<lambda>x. if unat ?va \<le> x \<and> x < unat ?va + 512 * n
              then disk (512 * unat (1 + offset div 512) + (x - unat ?va)) else m x)" (is "_ = Some ?m")
  proof (rule readsects_sectors)
    show "unat ?va + 512 * n < 2 ^ 32" using n base assms(1) fz by linarith
    show "unat (1 + offset div 512) + n < 2 ^ 32"
      unfolding sect n_def using assms(3,4) base by linarith
    show "unat (va + filesz) \<le> unat ?va + 512 * n" unfolding e using n(1) base by linarith
    show "n \<noteq> 0 \<longrightarrow> unat ?va + 512 * (n - 1) < unat (va + filesz)"
      unfolding e using n(2) base by (cases n) auto
  qed
  have m: "readseg disk m va filesz memsz (1 + offset div 512) =
      Some (fill ?m (unat va + unat filesz) (unat va + unat memsz - (unat va + unat filesz)) 0)"
    unfolding readseg_def Let_def r option.case clear_bss_fill e l ..
  have byte: "?m (unat va + j) = disk (512 + unat offset + j)" if "j < unat filesz" for j
  proof -
    have "unat ?va \<le> unat va + j" "unat va + j < unat ?va + 512 * n" using that n base by linarith+
    moreover have "512 * unat (1 + offset div 512) + (unat va + j - unat ?va) = 512 + unat offset + j"
    proof -
      have "unat va + j - unat ?va = unat offset mod 512 + j" using base assms(3) by simp
      moreover have "512 * (unat offset div 512) + unat offset mod 512 = unat offset" by simp
      ultimately show ?thesis unfolding sect by (simp only: distrib_left)
    qed
    ultimately show ?thesis by simp
  qed
  show ?thesis
  proof (intro exI conjI allI impI ballI, rule m)
    fix j assume j: "j < unat filesz"
    have "fill ?m (unat va + unat filesz) (unat va + unat memsz - (unat va + unat filesz)) 0
        (unat va + j) = ?m (unat va + j)"
      by (rule fill_apply_out) (use j in simp)
    also note byte [OF j]
    finally show "fill ?m (unat va + unat filesz) (unat va + unat memsz - (unat va + unat filesz)) 0
        (unat va + j) = disk (512 + unat offset + j)" .
  next
    fix j assume "j \<in> {unat filesz ..< unat memsz}"
    then show "fill ?m (unat va + unat filesz) (unat va + unat memsz - (unat va + unat filesz)) 0
        (unat va + j) = 0"
      by (intro fill_apply_in) auto
  qed
qed

lemma readseg_contents_witness:
  "\<exists>m'. readseg (\<lambda>i. of_nat i) (\<lambda>_. 1) 0x100210 3 5 (1 + 0x1010 div 512) = Some m' \<and>
     m' 0x100212 = 0x12 \<and> m' 0x100213 = 0"
proof -
  obtain m' where m: "readseg (\<lambda>i. of_nat i) (\<lambda>_. 1) 0x100210 3 5 (1 + 0x1010 div 512) = Some m'"
    "\<forall>j < unat (3 :: u32). m' (unat (0x100210 :: u32) + j) = of_nat (512 + unat (0x1010 :: u32) + j)"
    "\<forall>j \<in> {unat (3 :: u32) ..< unat (5 :: u32)}. m' (unat (0x100210 :: u32) + j) = 0"
    using readseg_contents [of "0x100210" 5 3 "0x1010" "\<lambda>i. of_nat i" "\<lambda>_. 1"]
    by (auto simp: word_le_nat_alt)
  have "m' (unat (0x100210 :: u32) + 2) = of_nat (512 + unat (0x1010 :: u32) + 2)"
    by (rule m(2) [rule_format]) simp
  moreover have "m' (unat (0x100210 :: u32) + 3) = 0" by (rule m(3) [rule_format]) simp
  ultimately show ?thesis using m(1) by simp
qed

end
