(* ===== verification/Round_Robin.thy ===== *)
theory Round_Robin
  imports Prelude
begin

text \<open>
  The round-robin scan of both WeensyOS kernels: from the current process on, the first
  runnable process in cyclic order. The scan of the source is an unbounded loop, so \<open>None\<close>
  says that it never ends. The locale states what a caller relies on; its lemmas are the
  progress and fairness facts the kernels use, and \<open>rr_scan_round_robin\<close> discharges the laws.
\<close>

partial_function (option) rr_scan :: "nat \<Rightarrow> (nat \<Rightarrow> bool) \<Rightarrow> nat \<Rightarrow> nat option" where
  "rr_scan nprocs runnable pid =
     (if runnable ((pid + 1) mod nprocs) then Some ((pid + 1) mod nprocs)
      else rr_scan nprocs runnable ((pid + 1) mod nprocs))"

text \<open>Who runs after \<open>n\<close> scheduling decisions.\<close>

primrec iter_pick :: "(nat \<Rightarrow> nat option) \<Rightarrow> nat \<Rightarrow> nat \<Rightarrow> nat option" where
  "iter_pick f 0 c = Some c"
| "iter_pick f (Suc n) c = (case f c of None \<Rightarrow> None | Some p \<Rightarrow> iter_pick f n p)"

lemma cyclic_distance:
  assumes "c < n" "i < (n :: nat)"
  shows "\<exists>d. 0 < d \<and> d \<le> n \<and> i = (c + d) mod n"
proof (cases "c < i")
  case True
  then show ?thesis using assms by (intro exI [of _ "i - c"]) simp
next
  case False
  then have "c + (i + n - c) = i + n" using assms by simp
  then show ?thesis using False assms by (intro exI [of _ "i + n - c"]) auto
qed

locale round_robin =
  fixes nprocs :: nat and pick :: "(nat \<Rightarrow> bool) \<Rightarrow> nat \<Rightarrow> nat option"
  assumes nprocs_pos: "0 < nprocs"
    and pick_first: "pick r c = Some p \<Longrightarrow>
      \<exists>k. 0 < k \<and> k \<le> nprocs \<and> p = (c + k) mod nprocs \<and> r p \<and>
        (\<forall>j. 0 < j \<and> j < k \<longrightarrow> \<not> r ((c + j) mod nprocs))"
    and pick_none: "pick r c = None \<Longrightarrow> i < nprocs \<Longrightarrow> \<not> r i"
begin

lemma pick_runnable: "pick r c = Some p \<Longrightarrow> r p \<and> p < nprocs"
  using pick_first [of r c p] nprocs_pos by auto

lemma pick_exists:
  assumes "r i" "i < nprocs"
  obtains p where "pick r c = Some p"
  using pick_none [of r c i] assms by (cases "pick r c") auto

lemma pick_only: "(\<And>i. i < nprocs \<Longrightarrow> r i \<longleftrightarrow> i = q) \<Longrightarrow> q < nprocs \<Longrightarrow> pick r c = Some q"
  using pick_none [of r c q] pick_runnable [of r c] by (cases "pick r c") auto

text \<open>A process is not picked twice in a row while another one is runnable.\<close>

lemma pick_other:
  assumes "r b" "a < nprocs" "b < nprocs" "a \<noteq> b"
  shows "pick r a \<noteq> Some a"
proof
  assume "pick r a = Some a"
  then obtain k where k: "0 < k" "k \<le> nprocs" "a = (a + k) mod nprocs"
    "\<And>j. 0 < j \<Longrightarrow> j < k \<Longrightarrow> \<not> r ((a + j) mod nprocs)"
    using pick_first [of r a a] by blast
  have "k = nprocs"
  proof (rule ccontr)
    assume "k \<noteq> nprocs"
    then have "k < nprocs" using k(2) by simp
    then have "a + k - nprocs < nprocs" using assms(2) by simp
    then have "(a + k) mod nprocs = (if a + k < nprocs then a + k else a + k - nprocs)"
      by (simp add: le_mod_geq)
    then show False using k(1,3) \<open>k < nprocs\<close> assms(2) by (auto split: if_splits)
  qed
  obtain d where d: "0 < d" "d \<le> nprocs" "b = (a + d) mod nprocs"
    using cyclic_distance [OF assms(2,3)] by blast
  have "d \<noteq> nprocs" using d(3) assms(2,4) by auto
  then have "\<not> r b" using k(4) [of d] d \<open>k = nprocs\<close> by simp
  then show False using assms(1) by simp
qed

text \<open>Every runnable process gets its turn within one cycle of decisions.\<close>

lemma fair_distance:
  assumes "r q" "0 < d" "d \<le> nprocs" "q = (c + d) mod nprocs"
  shows "\<exists>k. 0 < k \<and> k \<le> d \<and> iter_pick (pick r) k c = Some q"
  using assms
proof (induction d arbitrary: c rule: less_induct)
  case (less d)
  have q: "q < nprocs" using less.prems nprocs_pos by simp
  obtain p where p: "pick r c = Some p" using pick_exists [where r = r, OF less.prems(1) q] by blast
  obtain k where k: "0 < k" "k \<le> nprocs" "p = (c + k) mod nprocs" "r p"
    "\<And>j. 0 < j \<Longrightarrow> j < k \<Longrightarrow> \<not> r ((c + j) mod nprocs)"
    using pick_first [OF p] by blast
  have kd: "k \<le> d" using k(5) [of d] less.prems by (meson not_less)
  show ?case
  proof (cases "k = d")
    case True
    then have "iter_pick (pick r) 1 c = Some q" using p k(3) less.prems(4) by simp
    then show ?thesis using less.prems(2) by (intro exI [of _ 1]) simp
  next
    case False
    have "(p + (d - k)) mod nprocs = (c + k + (d - k)) mod nprocs"
      unfolding k(3) by (rule mod_add_left_eq)
    then have eq: "q = (p + (d - k)) mod nprocs" using less.prems(4) kd by simp
    have "d - k < d" "0 < d - k" "d - k \<le> nprocs" using kd k(1) False less.prems(2,3) by simp_all
    from less.IH [OF this(1) less.prems(1) this(2,3) eq]
    obtain j where "0 < j" "j \<le> d - k" "iter_pick (pick r) j p = Some q" by blast
    then show ?thesis using p k(1) kd by (intro exI [of _ "Suc j"]) simp
  qed
qed

lemma fair:
  assumes "r q" "q < nprocs" "c < nprocs"
  shows "\<exists>k. 0 < k \<and> k \<le> nprocs \<and> iter_pick (pick r) k c = Some q"
proof -
  obtain d where d: "0 < d" "d \<le> nprocs" "q = (c + d) mod nprocs"
    using cyclic_distance [OF assms(3,2)] by blast
  from fair_distance [where r = r, OF assms(1) d] d(2) show ?thesis by fastforce
qed

end

section \<open>The source's loop keeps the contract\<close>

lemma rr_scan_first:
  "\<lbrakk>0 < k; r ((c + k) mod n); \<And>j. 0 < j \<Longrightarrow> j < k \<Longrightarrow> \<not> r ((c + j) mod n)\<rbrakk> \<Longrightarrow>
   rr_scan n r c = Some ((c + k) mod n)"
proof (induction k arbitrary: c)
  case (Suc k)
  show ?case
  proof (cases "k = 0")
    case True
    then show ?thesis using Suc.prems by (subst rr_scan.simps) simp
  next
    case False
    have eq: "((c + 1) mod n + j) mod n = (c + Suc j) mod n" for j
      by (simp add: mod_simps)
    have "rr_scan n r ((c + 1) mod n) = Some (((c + 1) mod n + k) mod n)"
    proof (rule Suc.IH)
      show "\<not> r (((c + 1) mod n + j) mod n)" if "0 < j" "j < k" for j
        unfolding eq using Suc.prems(3) [of "Suc j"] that by simp
      show "r (((c + 1) mod n + k) mod n)" unfolding eq using Suc.prems(2) .
    qed (use False in simp)
    then show ?thesis
      using Suc.prems(3) [of 1] False unfolding eq by (subst rr_scan.simps) simp
  qed
qed simp

lemma rr_scan_runnable:
  assumes "rr_scan n r c = Some p"
  shows "r p"
  using assms
  by (rule rr_scan.raw_induct [where P = "\<lambda>n r c p. r p", rotated]) (auto split: if_splits)

lemma rr_scan_less:
  assumes "rr_scan n r c = Some p"
  shows "0 < n \<longrightarrow> p < n"
  using assms
  by (rule rr_scan.raw_induct [where P = "\<lambda>n r c p. 0 < n \<longrightarrow> p < n", rotated]) (auto split: if_splits)

lemma rr_scan_round_robin:
  assumes "0 < n"
  shows "round_robin n (rr_scan n)"
proof
  show "0 < n" by fact
next
  have reach: "\<exists>k. 0 < k \<and> k \<le> n \<and> i = (c + k) mod n" if "i < n" for c i
  proof -
    have "c mod n < n" using assms by simp
    from cyclic_distance [OF this that] show ?thesis by (auto simp: mod_simps)
  qed
  have least: "\<exists>k. 0 < k \<and> k \<le> n \<and> rr_scan n r c = Some ((c + k) mod n) \<and>
      r ((c + k) mod n) \<and> (\<forall>j. 0 < j \<and> j < k \<longrightarrow> \<not> r ((c + j) mod n))"
    if ri: "r i" "i < n" for r c i
  proof -
    let ?P = "\<lambda>k. 0 < k \<and> r ((c + k) mod n)"
    obtain k0 where k0: "?P k0" "k0 \<le> n" using reach [OF ri(2), of c] ri(1) by auto
    let ?k = "LEAST k. ?P k"
    have k: "?P ?k" using k0(1) by (rule LeastI)
    have below: "\<not> r ((c + j) mod n)" if "0 < j" "j < ?k" for j
      using not_less_Least [of j ?P] that by auto
    have "?k \<le> n" using Least_le [of ?P k0] k0 by simp
    moreover have "rr_scan n r c = Some ((c + ?k) mod n)"
      using k below by (intro rr_scan_first) auto
    ultimately show ?thesis using k below by blast
  qed
  {
    fix r c p assume s: "rr_scan n r c = Some p"
    show "\<exists>k. 0 < k \<and> k \<le> n \<and> p = (c + k) mod n \<and> r p \<and>
        (\<forall>j. 0 < j \<and> j < k \<longrightarrow> \<not> r ((c + j) mod n))"
    proof (cases "\<exists>i < n. r i")
      case True
      then obtain i where "r i" "i < n" by blast
      from least [where r = r, OF this, of c] s show ?thesis by auto
    next
      case False
      have "p < n" using rr_scan_less [OF s] assms by simp
      then show ?thesis using False rr_scan_runnable [OF s] by blast
    qed
  next
    fix r c i assume "rr_scan n r c = None" "i < n"
    then show "\<not> r i" using least [of r i c] by auto
  }
qed

end
