(* ===== verification/Mpos_Kern.thy ===== *)
theory Mpos_Kern
  imports Weensy_Loader Round_Robin
begin

text \<open>
  The MiniprocOS kernel, \<open>WeensyOS1/mpos-kern.c\<close>: the process table, the system calls and the
  scheduler. A kernel state is the process table, the index of the current process, the memory
  and the console. \<open>interrupt\<close> is the whole handler: it saves the registers, performs one system
  call and ends in \<open>run\<close>, which switches to a process and leaves the kernel; \<open>None\<close> is a kernel that
  loops for ever (an unknown interrupt, or no runnable process). Table entries are numbered by
  \<open>nat\<close>; \<open>p_waiting\<close> keeps its sign, as the code stores -1 in it. Exit statuses are the 32 bits of
  the \<open>int\<close>.
\<close>

section \<open>The process table\<close>

definition NPROCS :: nat where [const_defs]: "NPROCS = 16"
definition PROC1_STACK_ADDR :: u32 where [const_defs]: "PROC1_STACK_ADDR = 0x280000"
definition PROC_STACK_SIZE :: u32 where [const_defs]: "PROC_STACK_SIZE = 0x040000"

definition INT_SYS_GETPID :: u32 where [const_defs]: "INT_SYS_GETPID = 48"
definition INT_SYS_FORK :: u32 where [const_defs]: "INT_SYS_FORK = 49"
definition INT_SYS_YIELD :: u32 where [const_defs]: "INT_SYS_YIELD = 50"
definition INT_SYS_EXIT :: u32 where [const_defs]: "INT_SYS_EXIT = 51"
definition INT_SYS_WAIT :: u32 where [const_defs]: "INT_SYS_WAIT = 52"
definition INT_SYS_NEWTHREAD :: u32 where [const_defs]: "INT_SYS_NEWTHREAD = 53"
definition INT_SYS_KILL :: u32 where [const_defs]: "INT_SYS_KILL = 54"

record process_t =
  p_pid :: nat
  p_registers :: registers_t
  p_state :: procstate_t
  p_exit_status :: u32
  p_waiting :: int

record mpos =
  proc_array :: "nat \<Rightarrow> process_t"
  current :: nat
  ram :: mem
  screen :: console

text \<open>Updating one process, one field of it, and one register.\<close>

definition upd_proc :: "nat \<Rightarrow> (process_t \<Rightarrow> process_t) \<Rightarrow> mpos \<Rightarrow> mpos" where
  "upd_proc p f k = k\<lparr>proc_array := (proc_array k)(p := f (proc_array k p))\<rparr>"

abbreviation set_state :: "nat \<Rightarrow> procstate_t \<Rightarrow> mpos \<Rightarrow> mpos" where
  "set_state p s \<equiv> upd_proc p (\<lambda>d. d\<lparr>p_state := s\<rparr>)"

abbreviation set_waiting :: "nat \<Rightarrow> int \<Rightarrow> mpos \<Rightarrow> mpos" where
  "set_waiting p w \<equiv> upd_proc p (\<lambda>d. d\<lparr>p_waiting := w\<rparr>)"

abbreviation set_eax :: "nat \<Rightarrow> u32 \<Rightarrow> mpos \<Rightarrow> mpos" where
  "set_eax p v \<equiv> upd_proc p (\<lambda>d. d\<lparr>p_registers := (p_registers d)\<lparr>reg_eax := v\<rparr>\<rparr>)"

abbreviation cur :: "mpos \<Rightarrow> process_t" where
  "cur k \<equiv> proc_array k (current k)"

section \<open>run and schedule\<close>

definition run :: "mpos \<Rightarrow> nat \<Rightarrow> mpos" where
  "run k p = k\<lparr>current := p\<rparr>"

definition runnable :: "mpos \<Rightarrow> nat \<Rightarrow> bool" where
  "runnable k p \<longleftrightarrow> p_state (proc_array k p) = P_RUNNABLE"

definition schedule :: "mpos \<Rightarrow> mpos option" where
  "schedule k = map_option (run k) (rr_scan NPROCS (runnable k) (p_pid (cur k)))"

section \<open>Creating processes\<close>

function empty_slot :: "(nat \<Rightarrow> process_t) \<Rightarrow> nat \<Rightarrow> nat option" where
  "empty_slot procs pid =
     (if pid < NPROCS
      then (if p_state (procs pid) = P_EMPTY then Some pid else empty_slot procs (pid + 1))
      else None)"
  by pat_completeness auto
termination by (relation "measure (\<lambda>(procs, pid). NPROCS - pid)") auto

declare empty_slot.simps [simp del]

definition stack_top :: "nat \<Rightarrow> u32" where
  "stack_top pid = PROC1_STACK_ADDR + of_nat pid * PROC_STACK_SIZE"

definition copy_stack :: "mpos \<Rightarrow> nat \<Rightarrow> nat \<Rightarrow> mpos" where
  "copy_stack k dest src =
     (let src_stack_top = stack_top (p_pid (proc_array k src));
          src_stack_bottom = reg_esp (p_registers (proc_array k src));
          dest_stack_top = stack_top (p_pid (proc_array k dest));
          dest_stack_bottom = dest_stack_top + (src_stack_bottom - src_stack_top);
          k1 = k\<lparr>ram := memcpy (ram k) (unat dest_stack_bottom) (unat src_stack_bottom)
                  (unat (src_stack_top - src_stack_bottom))\<rparr>
      in upd_proc dest (\<lambda>d. d\<lparr>p_registers := (p_registers d)\<lparr>reg_esp := dest_stack_bottom\<rparr>\<rparr>) k1)"

definition do_fork :: "mpos \<Rightarrow> nat \<Rightarrow> mpos \<times> u32" where
  "do_fork k parent =
     (case empty_slot (proc_array k) 1 of
        None \<Rightarrow> (k, -1)
      | Some pid \<Rightarrow>
          let k1 = upd_proc pid (\<lambda>d. d\<lparr>p_registers := p_registers (proc_array k parent)\<rparr>) k;
              k2 = copy_stack k1 pid parent;
              k3 = upd_proc pid (\<lambda>d. d\<lparr>p_pid := pid\<rparr>) k2;
              k4 = set_eax pid 0 k3;
              k5 = set_state pid P_RUNNABLE k4
          in (k5, of_nat pid))"

definition do_newthread :: "mpos \<Rightarrow> mpos" where
  "do_newthread k =
     (case empty_slot (proc_array k) 1 of
        None \<Rightarrow> k
      | Some p \<Rightarrow>
          let regs = p_registers (cur k);
              k1 = upd_proc p (\<lambda>d. d\<lparr>p_registers := regs\<lparr>reg_eax := 0, reg_eip := reg_eax regs,
                        reg_esp := of_nat p * PROC_STACK_SIZE + PROC1_STACK_ADDR\<rparr>,
                     p_pid := p, p_state := P_RUNNABLE, p_waiting := -1\<rparr>) k
          in set_eax (current k) (of_nat p) k1)"

section \<open>Exit, wait and kill\<close>

definition do_exit :: "mpos \<Rightarrow> mpos" where
  "do_exit k =
     (let c = current k;
          k1 = upd_proc c (\<lambda>d. d\<lparr>p_state := P_ZOMBIE, p_exit_status := reg_eax (p_registers d)\<rparr>) k
      in if p_waiting (cur k1) > 0
         then (let w = nat (p_waiting (cur k1));
                   k2 = set_state w P_RUNNABLE k1;
                   k3 = set_eax w (p_exit_status (cur k2)) k2
               in upd_proc c (\<lambda>d. d\<lparr>p_waiting := -1, p_state := P_EMPTY\<rparr>) k3)
         else k1)"

text \<open>The guard \<open>wait\<close> and \<open>kill\<close> share.\<close>

definition bad_pid :: "mpos \<Rightarrow> int \<Rightarrow> bool" where
  "bad_pid k p \<longleftrightarrow> p \<le> 0 \<or> p \<ge> int NPROCS \<or> p = int (p_pid (cur k)) \<or>
     p_state (proc_array k (nat p)) = P_EMPTY"

definition do_wait :: "mpos \<Rightarrow> mpos" where
  "do_wait k =
     (let c = current k; p = sint (reg_eax (p_registers (cur k)))
      in if bad_pid k p then set_eax c (-1) k
         else if p_state (proc_array k (nat p)) = P_ZOMBIE
         then set_state c P_RUNNABLE (set_state (nat p) P_EMPTY
                (set_eax c (p_exit_status (proc_array k (nat p))) k))
         else set_waiting (nat p) (int (p_pid (cur k))) (set_state c P_BLOCKED k))"

definition do_kill :: "mpos \<Rightarrow> mpos" where
  "do_kill k =
     (let c = current k; p = sint (reg_eax (p_registers (cur k)))
      in if bad_pid k p then set_eax c (-1) k
         else
           let k1 = set_eax c 0 (set_state (nat p) P_EMPTY k);
               w = p_waiting (proc_array k1 (nat p))
           in if w > 0 then set_waiting (nat p) (-1) (set_state (nat w) P_RUNNABLE k1) else k1)"

section \<open>The interrupt handler and boot\<close>

definition interrupt :: "mpos \<Rightarrow> registers_t \<Rightarrow> mpos option" where
  "interrupt k reg =
     (let c = current k; k = upd_proc c (\<lambda>d. d\<lparr>p_registers := reg\<rparr>) k
      in if reg_intno reg = INT_SYS_GETPID then Some (run (set_eax c (of_nat (p_pid (cur k))) k) c)
         else if reg_intno reg = INT_SYS_FORK
         then (let (k1, r) = do_fork k c in Some (run (set_eax c r k1) c))
         else if reg_intno reg = INT_SYS_YIELD then schedule k
         else if reg_intno reg = INT_SYS_EXIT then schedule (do_exit k)
         else if reg_intno reg = INT_SYS_WAIT then schedule (do_wait k)
         else if reg_intno reg = INT_SYS_NEWTHREAD then schedule (do_newthread k)
         else if reg_intno reg = INT_SYS_KILL then schedule (do_kill k)
         else None)"

text \<open>
  \<open>start\<close> polls the keyboard until it reads 1 or 2 (\<open>keys\<close> lists the results of the calls to
  \<open>console_read_digit\<close>; a list without them is a boot that is still polling), loads that program
  and runs it. The prompt and the erasing of the console go to the screen.
\<close>

fun which_process :: "int list \<Rightarrow> int option" where
  "which_process [] = None"
| "which_process (d # ds) = (if d \<noteq> 1 \<and> d \<noteq> 2 then which_process ds else Some d)"

definition empty_procs :: "nat \<Rightarrow> process_t" where
  "empty_procs i = \<lparr>p_pid = i, p_registers = zero_registers, p_state = P_EMPTY,
     p_exit_status = 0, p_waiting = 0\<rparr>"

definition start :: "u32 list \<Rightarrow> mpos \<Rightarrow> int list \<Rightarrow> mpos option" where
  "start ramimages k keys =
     (let k1 = k\<lparr>proc_array := empty_procs, current := 1\<rparr>;
          k2 = upd_proc 1 (\<lambda>d. d\<lparr>p_registers := mpos_special_registers\<rparr>) k1
      in case console_vprintf (fst (console_clear (screen k2))) 0x0700
               (ascii ''Type '1' to run mpos-app, or '2' to run mpos-app2.'') [] of None \<Rightarrow> None
         | Some scr \<Rightarrow>
      (case which_process keys of None \<Rightarrow> None
         | Some whichprocess \<Rightarrow>
      (case program_loader ramimages (ram k2) (whichprocess - 1) of None \<Rightarrow> None
         | Some (m, entry) \<Rightarrow>
             let k3 = k2\<lparr>screen := fst (console_clear scr), ram := m\<rparr>
             in Some (run (upd_proc 1 (\<lambda>d. d\<lparr>
                  p_registers := (p_registers d)\<lparr>reg_eip := entry,
                    reg_esp := PROC1_STACK_ADDR + PROC_STACK_SIZE\<rparr>,
                  p_state := P_RUNNABLE\<rparr>) k3) 1))))"

section \<open>Reading the table after an update\<close>

lemma upd_proc_simps [simp]:
  "proc_array (upd_proc p f k) q = (if q = p then f (proc_array k p) else proc_array k q)"
  "current (upd_proc p f k) = current k"
  "ram (upd_proc p f k) = ram k"
  "screen (upd_proc p f k) = screen k"
  by (simp_all add: upd_proc_def)

lemma run_simps [simp]:
  "proc_array (run k p) = proc_array k" "current (run k p) = p" "ram (run k p) = ram k"
  by (simp_all add: run_def)

lemma runnable_run [simp]: "runnable (run k p) = runnable k"
  by (simp add: runnable_def fun_eq_iff)

lemma empty_slot_Some:
  "empty_slot procs n = Some p \<Longrightarrow>
   n \<le> p \<and> p < NPROCS \<and> p_state (procs p) = P_EMPTY \<and> (\<forall>i. n \<le> i \<and> i < p \<longrightarrow> p_state (procs i) \<noteq> P_EMPTY)"
proof (induction procs n rule: empty_slot.induct)
  case (1 procs n)
  show ?case
  proof (cases "n < NPROCS \<and> p_state (procs n) \<noteq> P_EMPTY")
    case True
    then have "empty_slot procs (n + 1) = Some p" using "1.prems" by (subst (asm) empty_slot.simps) simp
    then have "n + 1 \<le> p \<and> p < NPROCS \<and> p_state (procs p) = P_EMPTY \<and>
        (\<forall>i. n + 1 \<le> i \<and> i < p \<longrightarrow> p_state (procs i) \<noteq> P_EMPTY)" using True 1 by blast
    moreover have "i = n \<or> n + 1 \<le> i" if "n \<le> i" for i using that by auto
    ultimately show ?thesis using True by (metis Suc_eq_plus1 Suc_leD)
  next
    case False
    then show ?thesis using "1.prems" by (subst (asm) empty_slot.simps) (auto split: if_splits)
  qed
qed

lemma empty_slot_None:
  "empty_slot procs n = None \<Longrightarrow> n \<le> i \<Longrightarrow> i < NPROCS \<Longrightarrow> p_state (procs i) \<noteq> P_EMPTY"
proof (induction procs n rule: empty_slot.induct)
  case (1 procs n)
  have n: "n < NPROCS" using "1.prems" by simp
  then have "p_state (procs n) \<noteq> P_EMPTY" "empty_slot procs (n + 1) = None"
    using "1.prems"(1) by (subst (asm) empty_slot.simps, simp split: if_splits)+
  then show ?case using 1 n by (cases "n = i") auto
qed

section \<open>The table invariant\<close>

text \<open>
  \<open>table_ok\<close> holds inside a handler: the current process is one of 1 to 15, process identifiers
  are indices, entry 0 is never used, and whoever is recorded as waiting is in the table.
  Between interrupts the current process is also runnable (\<open>kern_ok\<close>).
\<close>

definition table_ok :: "mpos \<Rightarrow> bool" where
  "table_ok k \<longleftrightarrow> 0 < current k \<and> current k < NPROCS \<and>
     p_state (proc_array k 0) = P_EMPTY \<and>
     (\<forall>p < NPROCS. p_pid (proc_array k p) = p \<and> p_waiting (proc_array k p) < int NPROCS)"

definition kern_ok :: "mpos \<Rightarrow> bool" where
  "kern_ok k \<longleftrightarrow> table_ok k \<and> runnable k (current k)"

text \<open>Nothing past the end of \<open>proc_array\<close> is written.\<close>

definition in_table :: "mpos \<Rightarrow> mpos \<Rightarrow> bool" where
  "in_table k k' \<longleftrightarrow> (\<forall>p \<ge> NPROCS. proc_array k' p = proc_array k p)"

lemma in_table_refl [simp]: "in_table k k"
  and in_table_trans: "in_table k k1 \<Longrightarrow> in_table k1 k2 \<Longrightarrow> in_table k k2"
  by (simp_all add: in_table_def)

lemma table_ok_upd:
  "\<lbrakk>table_ok k; p < NPROCS; p_pid (f (proc_array k p)) = p_pid (proc_array k p);
    p_waiting (f (proc_array k p)) < int NPROCS;
    p = 0 \<Longrightarrow> p_state (f (proc_array k p)) = P_EMPTY\<rbrakk> \<Longrightarrow>
   table_ok (upd_proc p f k) \<and> in_table k (upd_proc p f k)"
  by (auto simp: table_ok_def in_table_def)

lemma table_ok_current: "table_ok k \<Longrightarrow> 0 < current k \<and> current k < NPROCS"
  by (simp add: table_ok_def)

lemma table_ok_waiting: "table_ok k \<Longrightarrow> p < NPROCS \<Longrightarrow> p_waiting (proc_array k p) < int NPROCS"
  by (simp add: table_ok_def)

lemma table_ok_pid: "table_ok k \<Longrightarrow> p < NPROCS \<Longrightarrow> p_pid (proc_array k p) = p"
  by (simp add: table_ok_def)

interpretation mpos_rr: round_robin NPROCS "rr_scan NPROCS"
  by (rule rr_scan_round_robin) (simp add: NPROCS_def)

lemma schedule_Some:
  "schedule k = Some k' \<Longrightarrow> k' = run k (current k') \<and> runnable k (current k') \<and> current k' < NPROCS"
  by (auto simp: schedule_def dest: mpos_rr.pick_runnable)

lemma schedule_None: "schedule k = None \<Longrightarrow> p < NPROCS \<Longrightarrow> \<not> runnable k p"
  by (auto simp: schedule_def dest: mpos_rr.pick_none)

lemma schedule_ok:
  assumes "table_ok k" "schedule k = Some k'"
  shows "kern_ok k' \<and> in_table k k'"
proof -
  from schedule_Some [OF assms(2)] obtain p where p: "k' = run k p" "runnable k p" "p < NPROCS"
    by auto
  moreover have "p \<noteq> 0" using p(2) assms(1) by (metis runnable_def table_ok_def procstate_t.distinct(1))
  ultimately show ?thesis
    using assms(1) by (simp add: kern_ok_def table_ok_def in_table_def)
qed

text \<open>Each handler keeps the table invariant.\<close>

lemma copy_stack_ok:
  "table_ok k \<Longrightarrow> p < NPROCS \<Longrightarrow> p \<noteq> 0 \<Longrightarrow> table_ok (copy_stack k p q) \<and> in_table k (copy_stack k p q)"
  by (auto simp: copy_stack_def Let_def table_ok_def in_table_def)

lemma do_fork_ok:
  assumes "table_ok k" "do_fork k q = (k', r)"
  shows "table_ok k' \<and> in_table k k'"
proof (cases "empty_slot (proc_array k) 1")
  case None
  then show ?thesis using assms by (simp add: do_fork_def)
next
  case (Some p)
  then have p: "p < NPROCS" "p \<noteq> 0" using empty_slot_Some [OF Some] by auto
  then show ?thesis
    using assms Some by (auto simp: do_fork_def Let_def copy_stack_def table_ok_def in_table_def)
qed

lemma do_newthread_ok:
  assumes "table_ok k"
  shows "table_ok (do_newthread k) \<and> in_table k (do_newthread k)"
proof (cases "empty_slot (proc_array k) 1")
  case None
  then show ?thesis using assms by (simp add: do_newthread_def)
next
  case (Some p)
  then have p: "p < NPROCS" "p \<noteq> 0" using empty_slot_Some [OF Some] by auto
  then show ?thesis
    using assms Some by (auto simp: do_newthread_def Let_def table_ok_def in_table_def)
qed

lemma do_exit_ok: "table_ok k \<Longrightarrow> table_ok (do_exit k) \<and> in_table k (do_exit k)"
  by (auto simp: do_exit_def Let_def table_ok_def in_table_def nat_less_iff)

lemma bad_pidD:
  "\<not> bad_pid k p \<Longrightarrow> 0 < p \<and> p < int NPROCS \<and> nat p < NPROCS \<and> nat p \<noteq> 0 \<and>
     nat p \<noteq> p_pid (cur k) \<and> p_state (proc_array k (nat p)) \<noteq> P_EMPTY"
  by (auto simp: bad_pid_def)

lemma do_wait_ok:
  assumes "table_ok k"
  shows "table_ok (do_wait k) \<and> in_table k (do_wait k)"
  using assms bad_pidD [of k "sint (reg_eax (p_registers (cur k)))"]
  by (auto simp: do_wait_def Let_def table_ok_def in_table_def)

lemma wake_ok:
  assumes "table_ok k" "p < NPROCS" "0 < p_waiting (proc_array k p)"
  shows "table_ok (set_waiting p (-1) (set_state (nat (p_waiting (proc_array k p))) P_RUNNABLE k)) \<and>
    in_table k (set_waiting p (-1) (set_state (nat (p_waiting (proc_array k p))) P_RUNNABLE k))"
proof -
  obtain w where w: "p_waiting (proc_array k p) = int w" "0 < w" "w < NPROCS"
    using table_ok_waiting [OF assms(1,2)] assms(3) by (metis of_nat_0_less_iff of_nat_less_iff pos_int_cases)
  show ?thesis
    using assms(1,2) w(2,3) unfolding w(1) by (auto simp: table_ok_def in_table_def)
qed

lemma do_kill_ok:
  assumes "table_ok k"
  shows "table_ok (do_kill k) \<and> in_table k (do_kill k)"
proof -
  define p where "p = sint (reg_eax (p_registers (cur k)))"
  define k1 where "k1 = set_eax (current k) 0 (set_state (nat p) P_EMPTY k)"
  show ?thesis
  proof (cases "bad_pid k p")
    case True
    then have "do_kill k = set_eax (current k) (-1) k" by (simp add: do_kill_def Let_def p_def)
    then show ?thesis using assms by (auto simp: table_ok_def in_table_def)
  next
    case False
    from bad_pidD [OF this] have p: "nat p < NPROCS" "nat p \<noteq> 0" by blast+
    have k1: "table_ok k1 \<and> in_table k k1"
      using assms p by (auto simp: k1_def table_ok_def in_table_def)
    have "do_kill k = (let w = p_waiting (proc_array k1 (nat p))
        in if w > 0 then set_waiting (nat p) (-1) (set_state (nat w) P_RUNNABLE k1) else k1)"
      using False unfolding do_kill_def k1_def p_def by (simp only: Let_def if_False)
    then show ?thesis
      using k1 wake_ok [of k1 "nat p"] p(1) by (auto simp: Let_def intro: in_table_trans)
  qed
qed

lemmas handler_ok = do_newthread_ok do_exit_ok do_wait_ok do_kill_ok

lemma interrupt_kern_ok:
  assumes "kern_ok k" "interrupt k reg = Some k'"
  shows "kern_ok k' \<and> in_table k k'"
proof -
  define c where "c = current k"
  define k0 where "k0 = upd_proc c (\<lambda>d. d\<lparr>p_registers := reg\<rparr>) k"
  have t: "table_ok k" "runnable k c" using assms(1) by (simp_all add: kern_ok_def c_def)
  have k0: "table_ok k0 \<and> in_table k k0"
    using t(1) by (auto simp: k0_def c_def table_ok_def in_table_def)
  have ret: "kern_ok (run (set_eax c v k1) c) \<and> in_table k (run (set_eax c v k1) c)"
    if "table_ok k1" "in_table k k1" "current k1 = c" "runnable k1 c" for v k1
    using that by (auto simp: kern_ok_def table_ok_def in_table_def runnable_def)
  have sch: "kern_ok k' \<and> in_table k k'"
    if "schedule k1 = Some k'" "table_ok k1 \<and> in_table k0 k1" for k1
    using schedule_ok [OF _ that(1)] that(2) k0 by (blast intro: in_table_trans)
  have r0: "runnable k0 c" "current k0 = c" using t(2) by (simp_all add: k0_def runnable_def c_def)
  have frk: "runnable k1 c \<and> current k1 = c" if "do_fork k0 c = (k1, r)" for k1 r
    using that r0 empty_slot_Some [of "proc_array k0" 1]
    by (auto simp: do_fork_def Let_def copy_stack_def runnable_def split: option.splits)
  show ?thesis
    using assms(2) ret [of k0] k0 r0 sch [of k0] sch [OF _ handler_ok(1)] sch [OF _ handler_ok(2)]
      sch [OF _ handler_ok(3)] sch [OF _ handler_ok(4)] ret frk do_fork_ok [of k0 c]
    unfolding interrupt_def Let_def c_def [symmetric] k0_def [symmetric]
    by (auto split: if_splits prod.splits intro: in_table_trans)
qed

text \<open>C19: the process table survives every interrupt. From a state where the current process is a
  runnable entry 1 to 15, identifiers are indices, entry 0 is empty and recorded waiters are in
  the table, the handler either loops for ever or switches to a state with the same property;
  it never writes past the end of the table.
\<close>

theorem interrupt_ok:
  assumes "kern_ok k" "interrupt k reg = Some k'"
  shows "kern_ok k' \<and> in_table k k'"
  by (rule interrupt_kern_ok [OF assms])

section \<open>Fairness of yielding\<close>

text \<open>The running processes yield one after the other, each with registers of its own.\<close>

primrec run_interrupts :: "registers_t list \<Rightarrow> mpos \<Rightarrow> mpos option" where
  "run_interrupts [] k = Some k"
| "run_interrupts (r # rs) k = (case interrupt k r of None \<Rightarrow> None | Some k' \<Rightarrow> run_interrupts rs k')"

lemma interrupt_yield:
  "reg_intno reg = INT_SYS_YIELD \<Longrightarrow>
   interrupt k reg = schedule (upd_proc (current k) (\<lambda>d. d\<lparr>p_registers := reg\<rparr>) k)"
  by (simp add: interrupt_def Let_def const_defs)

lemma run_yields_iter:
  assumes "kern_ok k" "\<forall>r \<in> set rs. reg_intno r = INT_SYS_YIELD"
    "iter_pick (rr_scan NPROCS (runnable k)) (length rs) (current k) = Some q"
  shows "\<exists>k'. run_interrupts rs k = Some k' \<and> current k' = q"
  using assms
proof (induction rs arbitrary: k)
  case (Cons r rs)
  define k0 where "k0 = upd_proc (current k) (\<lambda>d. d\<lparr>p_registers := r\<rparr>) k"
  have r0: "runnable k0 = runnable k" by (auto simp: k0_def runnable_def fun_eq_iff)
  have pid: "p_pid (cur k0) = current k"
    using Cons.prems(1) by (auto simp: k0_def kern_ok_def table_ok_def)
  obtain p where p: "rr_scan NPROCS (runnable k) (current k) = Some p"
    "iter_pick (rr_scan NPROCS (runnable k)) (length rs) p = Some q"
    using Cons.prems(3) by (auto split: option.splits)
  have i: "interrupt k r = Some (run k0 p)"
    using Cons.prems(2) p(1) by (simp add: interrupt_yield schedule_def k0_def [symmetric] r0 pid)
  have "kern_ok (run k0 p)" using interrupt_kern_ok [OF Cons.prems(1) i] by simp
  from Cons.IH [OF this] Cons.prems(2) p(2) i r0 show ?case by simp
qed simp

text \<open>C22: the scheduler is fair to processes that yield. Whatever registers the processes yield
  with, a runnable process is running again after at most NPROCS yields.
\<close>

theorem yield_fair:
  assumes "kern_ok k" "runnable k q" "q < NPROCS"
    and "length rs = NPROCS" "\<forall>r \<in> set rs. reg_intno r = INT_SYS_YIELD"
  shows "\<exists>n. 0 < n \<and> n \<le> NPROCS \<and> map_option current (run_interrupts (take n rs) k) = Some q"
proof -
  have "current k < NPROCS" using assms(1) by (simp add: kern_ok_def table_ok_def)
  from mpos_rr.fair [where r = "runnable k", OF assms(2,3) this] obtain n where
    n: "0 < n" "n \<le> NPROCS" "iter_pick (rr_scan NPROCS (runnable k)) n (current k) = Some q"
    by blast
  have "\<exists>k'. run_interrupts (take n rs) k = Some k' \<and> current k' = q"
    using assms(1,5) n assms(4) by (intro run_yields_iter) (auto dest: in_set_takeD)
  then show ?thesis using n by auto
qed

text \<open>A table with processes 1 and 4; process 4 is waited for by nobody.\<close>

definition demo_procs :: "nat \<Rightarrow> process_t" where
  "demo_procs = empty_procs(1 := (empty_procs 1)\<lparr>p_state := P_RUNNABLE\<rparr>,
     4 := (empty_procs 4)\<lparr>p_state := P_RUNNABLE\<rparr>)"

definition demo_mpos :: mpos where
  "demo_mpos = \<lparr>proc_array = demo_procs, current = 1, ram = (\<lambda>a. of_nat a),
     screen = \<lparr>cells = (\<lambda>_. 0), cursor = 0\<rparr>\<rparr>"

lemma demo_mpos_ok: "kern_ok demo_mpos"
  by (auto simp: kern_ok_def table_ok_def runnable_def demo_mpos_def demo_procs_def empty_procs_def
      NPROCS_def)

lemma yield_fair_witness:
  "\<exists>n. 0 < n \<and> n \<le> 16 \<and> map_option current (run_interrupts
     (take n (replicate 16 (zero_registers\<lparr>reg_intno := 50\<rparr>))) demo_mpos) = Some 4"
  using yield_fair [OF demo_mpos_ok, of 4 "replicate 16 (zero_registers\<lparr>reg_intno := 50\<rparr>)"]
  by (simp add: runnable_def demo_mpos_def demo_procs_def empty_procs_def NPROCS_def
      INT_SYS_YIELD_def)

section \<open>Fork\<close>

lemma unat_stack_top: "p < NPROCS \<Longrightarrow> unat (stack_top p) = 0x280000 + p * 0x40000"
proof -
  assume "p < NPROCS"
  then have p: "p < 16" by (simp add: NPROCS_def)
  then have "unat (of_nat p :: u32) = p" by (simp add: unat_of_nat)
  then show ?thesis using p by (simp add: stack_top_def const_defs unat_plus_u32 unat_mult_u32)
qed

lemma stack_tops_apart:
  "p < NPROCS \<Longrightarrow> q < NPROCS \<Longrightarrow> p \<noteq> q \<Longrightarrow>
   unat (stack_top p) + 0x40000 \<le> unat (stack_top q) \<or> unat (stack_top q) + 0x40000 \<le> unat (stack_top p)"
  unfolding unat_stack_top by arith

lemma unat_minus_le_u32: "n \<le> unat t \<Longrightarrow> unat ((t :: u32) - of_nat n) = unat t - n"
proof -
  assume n: "n \<le> unat t"
  then have "n < 2 ^ 32" using le_less_trans [OF n unat_u32_less] by simp
  then have "unat (of_nat n :: u32) = n" by (simp add: unat_of_nat)
  then show ?thesis using n by (subst unat_minus_u32) (simp_all add: word_le_nat_alt)
qed

lemma copy_stack_ram:
  fixes k :: mpos and p c :: nat and esp :: u32
  defines "esp \<equiv> reg_esp (p_registers (proc_array k c))"
  defines "child \<equiv> stack_top p + (esp - stack_top c)"
  assumes pc: "p_pid (proc_array k p) = p" "p_pid (proc_array k c) = c" "p < NPROCS" "c < NPROCS" "p \<noteq> c"
    and esp: "unat (stack_top c - esp) \<le> 0x40000"
  shows "unat child = unat (stack_top p) - unat (stack_top c - esp)"
    and "j < unat (stack_top c - esp) \<Longrightarrow> ram (copy_stack k p c) (unat child + j) = ram k (unat esp + j)"
    and "a < unat child \<or> unat (stack_top p) \<le> a \<Longrightarrow> ram (copy_stack k p c) a = ram k a"
proof -
  define n where "n = unat (stack_top c - esp)"
  have n: "n \<le> 0x40000" using esp by (simp add: n_def)
  have w: "of_nat n = stack_top c - esp" by (simp add: n_def)
  have e: "esp = stack_top c - of_nat n" "child = stack_top p - of_nat n"
    by (simp_all add: w child_def)
  have le: "n \<le> unat (stack_top q)" if "q < NPROCS" for q using n unat_stack_top [OF that] by simp
  have ue: "unat esp = unat (stack_top c) - n" unfolding e by (rule unat_minus_le_u32 [OF le [OF pc(4)]])
  have uc: "unat child = unat (stack_top p) - n" unfolding e by (rule unat_minus_le_u32 [OF le [OF pc(3)]])
  have r: "ram (copy_stack k p c) = memcpy (ram k) (unat child) (unat esp) n"
    by (simp add: copy_stack_def Let_def pc child_def esp_def n_def)
  have apart: "unat child \<le> unat esp \<or> unat esp + n \<le> unat child"
    using stack_tops_apart [OF pc(3-5)] le [OF pc(3)] le [OF pc(4)] n unfolding ue uc by linarith
  show "unat child = unat (stack_top p) - unat (stack_top c - esp)" using uc by (simp add: n_def)
  show "ram (copy_stack k p c) (unat child + j) = ram k (unat esp + j)" if "j < unat (stack_top c - esp)"
    using that unfolding r memcpy_apply [OF apart] n_def [symmetric] by simp
  show "ram (copy_stack k p c) a = ram k a" if "a < unat child \<or> unat (stack_top p) \<le> a"
  proof -
    have "\<not> (unat child \<le> a \<and> a < unat child + n)" using that le [OF pc(3)] unfolding uc by linarith
    then show ?thesis unfolding r memcpy_apply [OF apart] by auto
  qed
qed

lemma empty_slot_cong:
  "(\<And>i. p_state (f i) = p_state (g i)) \<Longrightarrow> empty_slot f n = empty_slot g n"
proof (induction f n rule: empty_slot.induct)
  case (1 f n)
  then show ?case by (simp add: empty_slot.simps [of f n] empty_slot.simps [of g n])
qed

lemma do_fork_Some:
  assumes "empty_slot (proc_array k) 1 = Some p" "p \<noteq> c"
  shows "\<exists>k1. do_fork k c = (k1, of_nat p) \<and> current k1 = current k \<and>
    ram k1 = ram (copy_stack (upd_proc p (\<lambda>d. d\<lparr>p_registers := p_registers (proc_array k c)\<rparr>) k) p c) \<and>
    proc_array k1 = (proc_array k)(p := \<lparr>p_pid = p,
      p_registers = (p_registers (proc_array k c))\<lparr>reg_eax := 0,
        reg_esp := stack_top (p_pid (proc_array k p)) +
          (reg_esp (p_registers (proc_array k c)) - stack_top (p_pid (proc_array k c)))\<rparr>,
      p_state = P_RUNNABLE, p_exit_status = p_exit_status (proc_array k p),
      p_waiting = p_waiting (proc_array k p)\<rparr>)"
  using assms by (auto simp: do_fork_def copy_stack_def Let_def fun_eq_iff)

text \<open>C20: fork creates a copy of the caller. The child takes the first empty entry; it is runnable,
  its registers are the parent's except that \<open>sys_fork\<close> returns 0 and the stack pointer is at the
  same depth in the child's own stack, and every byte of the parent's stack is there at the same
  depth. The parent goes on with the child's identifier as the result, and no memory outside the
  child's stack changes. With a full table the parent gets -1.
\<close>

theorem fork_copies_caller:
  assumes "kern_ok k" "reg_intno reg = INT_SYS_FORK"
    and "c = current k" "n = unat (stack_top c - reg_esp reg)" "n \<le> 0x40000"
  shows "case empty_slot (proc_array k) 1 of
    None \<Rightarrow> interrupt k reg = Some (upd_proc c (\<lambda>d. d\<lparr>p_registers := reg\<lparr>reg_eax := -1\<rparr>\<rparr>) k)
  | Some p \<Rightarrow> \<exists>k'. interrupt k reg = Some k' \<and> current k' = c \<and> p < NPROCS \<and>
      p_state (proc_array k p) = P_EMPTY \<and>
      p_registers (proc_array k' c) = reg\<lparr>reg_eax := of_nat p\<rparr> \<and>
      p_registers (proc_array k' p) =
        reg\<lparr>reg_eax := 0, reg_esp := stack_top p + (reg_esp reg - stack_top c)\<rparr> \<and>
      p_pid (proc_array k' p) = p \<and> runnable k' p \<and>
      (\<forall>j < n. ram k' (unat (stack_top p) - n + j) = ram k (unat (reg_esp reg) + j)) \<and>
      (\<forall>a. a < unat (stack_top p) - n \<or> unat (stack_top p) \<le> a \<longrightarrow> ram k' a = ram k a)"
proof -
  define k0 where "k0 = upd_proc c (\<lambda>d. d\<lparr>p_registers := reg\<rparr>) k"
  have c: "c < NPROCS" "p_pid (proc_array k c) = c" "p_state (proc_array k c) = P_RUNNABLE"
    using assms(1,3) by (auto simp: kern_ok_def table_ok_def runnable_def)
  have slot: "empty_slot (proc_array k0) 1 = empty_slot (proc_array k) 1"
    by (rule empty_slot_cong) (simp add: k0_def)
  have i: "interrupt k reg = (let (k1, r) = do_fork k0 c in Some (run (set_eax c r k1) c))"
    using assms(2,3) by (simp add: interrupt_def Let_def const_defs k0_def)
  show ?thesis
  proof (cases "empty_slot (proc_array k) 1")
    case None
    then have "do_fork k0 c = (k0, -1)" using slot by (simp add: do_fork_def)
    then show ?thesis using None i assms(3) by (simp add: k0_def upd_proc_def run_def)
  next
    case (Some p)
    from empty_slot_Some [OF Some] have p: "p < NPROCS" "p_state (proc_array k p) = P_EMPTY" by auto
    then have pc: "p \<noteq> c" using c(3) by auto
    have pid: "p_pid (proc_array k p) = p" using assms(1) p(1) by (simp add: kern_ok_def table_ok_def)
    have s0: "empty_slot (proc_array k0) 1 = Some p" using slot Some by simp
    let ?kc = "upd_proc p (\<lambda>d. d\<lparr>p_registers := p_registers (proc_array k0 c)\<rparr>) k0"
    obtain k1 where k1: "do_fork k0 c = (k1, of_nat p)" "current k1 = current k0"
      "ram k1 = ram (copy_stack ?kc p c)"
      "proc_array k1 = (proc_array k0)(p := \<lparr>p_pid = p,
        p_registers = (p_registers (proc_array k0 c))\<lparr>reg_eax := 0,
          reg_esp := stack_top (p_pid (proc_array k0 p)) +
            (reg_esp (p_registers (proc_array k0 c)) - stack_top (p_pid (proc_array k0 c)))\<rparr>,
        p_state = P_RUNNABLE, p_exit_status = p_exit_status (proc_array k0 p),
        p_waiting = p_waiting (proc_array k0 p)\<rparr>)"
      using do_fork_Some [OF s0 pc] by blast
    have e: "p_pid (proc_array ?kc p) = p" "p_pid (proc_array ?kc c) = c"
      "reg_esp (p_registers (proc_array ?kc c)) = reg_esp reg" "ram ?kc = ram k"
      using pc pid c by (simp_all add: k0_def)
    note st = copy_stack_ram [of ?kc p c, OF e(1,2) p(1) c(1) pc, unfolded e assms(4) [symmetric], OF assms(5)]
    have "n \<le> unat (stack_top p)" using assms(5) unat_stack_top [OF p(1)] by simp
    then show ?thesis
      using Some i k1 p pc pid c st by (simp add: k0_def run_def runnable_def)
  qed
qed

lemma demo_slot: "empty_slot (proc_array demo_mpos) 1 = Some 2"
  by (simp add: empty_slot.simps demo_mpos_def demo_procs_def empty_procs_def NPROCS_def)

lemma fork_copies_caller_witness:
  "\<exists>k'. interrupt demo_mpos (zero_registers\<lparr>reg_intno := 49, reg_esp := 0x2BFF00\<rparr>) = Some k' \<and>
     reg_eax (p_registers (proc_array k' 1)) = 2 \<and>
     reg_eax (p_registers (proc_array k' 2)) = 0 \<and>
     reg_esp (p_registers (proc_array k' 2)) = 0x2FFF00 \<and>
     ram k' 0x2FFF10 = ram demo_mpos 0x2BFF10"
proof -
  have n: "0x100 = unat (stack_top 1 - reg_esp (zero_registers\<lparr>reg_intno := 49, reg_esp := 0x2BFF00\<rparr>))"
    by (simp add: stack_top_def const_defs)
  have c: "(1 :: nat) = current demo_mpos" by (simp add: demo_mpos_def)
  have t: "stack_top 2 = 0x300000" "stack_top 1 = 0x2C0000" by (simp_all add: stack_top_def const_defs)
  obtain k' where k': "interrupt demo_mpos (zero_registers\<lparr>reg_intno := 49, reg_esp := 0x2BFF00\<rparr>) = Some k'"
    "p_registers (proc_array k' 1) = zero_registers\<lparr>reg_intno := 49, reg_esp := 0x2BFF00, reg_eax := 2\<rparr>"
    "p_registers (proc_array k' 2) = zero_registers\<lparr>reg_intno := 49, reg_eax := 0, reg_esp := 0x2FFF00\<rparr>"
    "\<forall>j < 0x100. ram k' (0x2FFF00 + j) = ram demo_mpos (0x2BFF00 + j)"
    using fork_copies_caller [OF demo_mpos_ok _ c n] demo_slot t by (auto simp: INT_SYS_FORK_def)
  have "ram k' (0x2FFF00 + 0x10) = ram demo_mpos (0x2BFF00 + 0x10)" by (rule k'(4) [rule_format]) simp
  then show ?thesis using k'(1-3) by simp
qed

section \<open>Exit and wait\<close>

lemma schedule_only:
  "(\<And>p. p < NPROCS \<Longrightarrow> runnable k p \<longleftrightarrow> p = q) \<Longrightarrow> q < NPROCS \<Longrightarrow> schedule k = Some (run k q)"
  by (simp add: schedule_def mpos_rr.pick_only [where q = q])

lemma sint_pid: "p < NPROCS \<Longrightarrow> sint (of_nat p :: u32) = int p"
  by (simp add: NPROCS_def signed_of_nat signed_take_bit_int_eq_self)

lemma interrupt_wait:
  "reg_intno reg = INT_SYS_WAIT \<Longrightarrow>
   interrupt k reg = schedule (do_wait (upd_proc (current k) (\<lambda>d. d\<lparr>p_registers := reg\<rparr>) k))"
  by (simp add: interrupt_def Let_def const_defs)

lemma interrupt_exit:
  "reg_intno reg = INT_SYS_EXIT \<Longrightarrow>
   interrupt k reg = schedule (do_exit (upd_proc (current k) (\<lambda>d. d\<lparr>p_registers := reg\<rparr>) k))"
  by (simp add: interrupt_def Let_def const_defs)

text \<open>
  What an interrupt keeps: \<open>P\<close> need only be kept by the handler the interrupt calls, on the state
  with the caller's registers saved.
\<close>

lemma interrupt_keeps:
  assumes i: "interrupt k reg = Some k'"
    and k0: "k0 = upd_proc (current k) (\<lambda>d. d\<lparr>p_registers := reg\<rparr>) k" "P k0"
    and run: "\<And>k p. P (run k p) = P k" and eax: "\<And>k v. P k \<Longrightarrow> P (set_eax (current k0) v k)"
    and fork: "\<And>k1 r. do_fork k0 (current k0) = (k1, r) \<Longrightarrow> P k1"
    and h: "reg_intno reg = INT_SYS_EXIT \<Longrightarrow> P (do_exit k0)" "reg_intno reg = INT_SYS_WAIT \<Longrightarrow> P (do_wait k0)"
      "P (do_newthread k0)" "reg_intno reg = INT_SYS_KILL \<Longrightarrow> P (do_kill k0)"
  shows "P k'"
proof -
  have c: "current k0 = current k" by (simp add: k0(1))
  have sch: "P k'" if "schedule k1 = Some k'" "P k1" for k1
    using schedule_Some [OF that(1)] that(2) run by metis
  show ?thesis
    using i k0(2) run eax fork h sch
    unfolding interrupt_def Let_def c k0(1) [symmetric]
    by (auto split: if_splits prod.splits)
qed

lemma slot_used: "empty_slot (proc_array k) n = Some p \<Longrightarrow> p_state (proc_array k q) \<noteq> P_EMPTY \<Longrightarrow> q \<noteq> p"
  using empty_slot_Some by blast

lemma do_fork_entry:
  assumes "do_fork k c = (k', r)" "p_state (proc_array k c) \<noteq> P_EMPTY" "p_state (proc_array k q) \<noteq> P_EMPTY"
  shows "p_state (proc_array k' q) = p_state (proc_array k q) \<and>
    p_exit_status (proc_array k' q) = p_exit_status (proc_array k q) \<and>
    (\<forall>p. p_waiting (proc_array k' p) = p_waiting (proc_array k p))"
proof (cases "empty_slot (proc_array k) 1")
  case None
  then show ?thesis using assms(1) by (simp add: do_fork_def)
next
  case (Some p)
  have "q \<noteq> p" "p \<noteq> c" using slot_used [OF Some] assms(2,3) by blast+
  then show ?thesis using do_fork_Some [OF Some \<open>p \<noteq> c\<close>] assms(1) by auto
qed

lemma do_newthread_entry:
  assumes "p_state (proc_array k q) \<noteq> P_EMPTY"
  shows "p_state (proc_array (do_newthread k) q) = p_state (proc_array k q) \<and>
    p_exit_status (proc_array (do_newthread k) q) = p_exit_status (proc_array k q) \<and>
    p_waiting (proc_array (do_newthread k) q) = p_waiting (proc_array k q) \<and>
    (\<forall>p j. p_waiting (proc_array (do_newthread k) p) = int j \<longrightarrow> p_waiting (proc_array k p) = int j)"
  using assms slot_used [of k 1 _ q]
  by (auto simp: do_newthread_def Let_def split: option.splits)

text \<open>The process a call of \<open>sys_wait\<close> or \<open>sys_kill\<close> names, and the waiter of a killed process.\<close>

lemma do_kill_cases:
  obtains (bad) "do_kill k = set_eax (current k) (-1) k"
  | (kill) p where "sint (reg_eax (p_registers (cur k))) = int p" "0 < p" "p < NPROCS"
      "p_state (proc_array k p) \<noteq> P_EMPTY"
      "do_kill k = (let k1 = set_eax (current k) 0 (set_state p P_EMPTY k); w = p_waiting (proc_array k p)
         in if w > 0 then set_waiting p (-1) (set_state (nat w) P_RUNNABLE k1) else k1)"
proof (cases "bad_pid k (sint (reg_eax (p_registers (cur k))))")
  case True
  then show ?thesis by (intro bad) (simp add: do_kill_def Let_def)
next
  case False
  from bad_pidD [OF False] obtain p where p: "sint (reg_eax (p_registers (cur k))) = int p" "0 < p" "p < NPROCS"
    "p_state (proc_array k p) \<noteq> P_EMPTY"
    by (metis nat_0_le nat_less_iff of_nat_0_less_iff order_less_imp_le nat_int)
  show ?thesis
    by (rule kill [OF p]) (use False p(1) in \<open>simp add: do_kill_def Let_def\<close>)
qed

lemma do_kill_entry:
  assumes "k' = (let k1 = set_eax c 0 (set_state p P_EMPTY k); w = p_waiting (proc_array k p)
         in if w > 0 then set_waiting p (-1) (set_state (nat w) P_RUNNABLE k1) else k1)"
  shows "p_waiting (proc_array k' q) = int j \<Longrightarrow> p_waiting (proc_array k q) = int j"
    "q \<noteq> p \<Longrightarrow> p_waiting (proc_array k' q) = p_waiting (proc_array k q)"
    "p_exit_status (proc_array k' q) = p_exit_status (proc_array k q)"
    "q \<noteq> p \<Longrightarrow> p_state (proc_array k' q) =
       (if 0 < p_waiting (proc_array k p) \<and> nat (p_waiting (proc_array k p)) = q then P_RUNNABLE
        else p_state (proc_array k q))"
  unfolding assms Let_def by (simp_all split: if_splits)

lemma do_wait_cases:
  obtains (bad) "do_wait k = set_eax (current k) (-1) k"
  | (zombie) p where "p_state (proc_array k p) = P_ZOMBIE" "sint (reg_eax (p_registers (cur k))) = int p"
      "do_wait k = set_state (current k) P_RUNNABLE (set_state p P_EMPTY
         (set_eax (current k) (p_exit_status (proc_array k p)) k))"
  | (block) p where "sint (reg_eax (p_registers (cur k))) = int p"
      "do_wait k = set_waiting p (int (p_pid (cur k))) (set_state (current k) P_BLOCKED k)"
proof (cases "bad_pid k (sint (reg_eax (p_registers (cur k))))")
  case True
  then show ?thesis by (intro bad) (simp add: do_wait_def Let_def)
next
  case False
  from bad_pidD [OF False] obtain p where p: "sint (reg_eax (p_registers (cur k))) = int p"
    by (metis nat_0_le order_less_imp_le)
  show ?thesis
  proof (cases "p_state (proc_array k p) = P_ZOMBIE")
    case True
    show ?thesis by (rule zombie [OF True p]) (use False p True in \<open>simp add: do_wait_def Let_def\<close>)
  next
    case z: False
    show ?thesis by (rule block [OF p]) (use False p z in \<open>simp add: do_wait_def Let_def\<close>)
  qed
qed

lemma eax_pid: "(sint (v :: u32) = int p) \<Longrightarrow> v = of_nat p"
proof -
  assume "sint v = int p"
  moreover have "word_of_int (sint v) = v" by simp
  ultimately show ?thesis by simp
qed

text \<open>
  \<open>awaited a b\<close>: process \<open>a\<close> is blocked until \<open>b\<close>, which has not exited, does. \<open>exited b v\<close>: \<open>b\<close> is a
  zombie with exit status \<open>v\<close>. No other entry names the blocked process or the zombie as its waiter.
\<close>

definition awaited :: "nat \<Rightarrow> nat \<Rightarrow> mpos \<Rightarrow> bool" where
  "awaited a b k \<longleftrightarrow> p_state (proc_array k a) = P_BLOCKED \<and> p_waiting (proc_array k b) = int a \<and>
     p_state (proc_array k b) \<in> {P_RUNNABLE, P_BLOCKED} \<and>
     (\<forall>q < NPROCS. p_waiting (proc_array k q) = int a \<longrightarrow> q = b)"

definition exited :: "nat \<Rightarrow> u32 \<Rightarrow> mpos \<Rightarrow> bool" where
  "exited b v k \<longleftrightarrow> p_state (proc_array k b) = P_ZOMBIE \<and> p_exit_status (proc_array k b) = v \<and>
     (\<forall>q < NPROCS. p_waiting (proc_array k q) \<noteq> int b)"

text \<open>
  The interrupts \<open>rs\<close>, one process after the other making its call, contain no exit of \<open>b\<close>, no wait
  for \<open>b\<close> and no kill of a process in \<open>ps\<close>.
\<close>

fun undisturbed :: "nat set \<Rightarrow> nat \<Rightarrow> registers_t list \<Rightarrow> mpos \<Rightarrow> bool" where
  "undisturbed ps b [] k = True"
| "undisturbed ps b (r # rs) k \<longleftrightarrow>
     \<not> (current k = b \<and> reg_intno r = INT_SYS_EXIT) \<and>
     \<not> (reg_intno r = INT_SYS_WAIT \<and> reg_eax r = of_nat b) \<and>
     \<not> (reg_intno r = INT_SYS_KILL \<and> (\<exists>p \<in> ps. reg_eax r = of_nat p)) \<and>
     (case interrupt k r of None \<Rightarrow> True | Some k' \<Rightarrow> undisturbed ps b rs k')"

lemma awaited_interrupt:
  assumes ok: "kern_ok k" and P: "awaited a b k" and i: "interrupt k reg = Some k'"
    and u: "undisturbed {a, b} b [reg] k" and ab: "a \<noteq> b"
  shows "awaited a b k'"
proof -
  define k0 where "k0 = upd_proc (current k) (\<lambda>d. d\<lparr>p_registers := reg\<rparr>) k"
  have c: "current k0 = current k" "current k \<noteq> a" "current k < NPROCS" "p_pid (cur k0) = current k"
    "p_state (proc_array k0 (current k)) = P_RUNNABLE" "p_registers (cur k0) = reg"
    using ok P by (auto simp: k0_def kern_ok_def table_ok_def runnable_def awaited_def)
  have P0: "awaited a b k0" using P c(2) unfolding awaited_def k0_def by auto
  note A = P0 [unfolded awaited_def]
  show ?thesis
  proof (rule interrupt_keeps [where P = "awaited a b", OF i k0_def P0])
    show "awaited a b (do_exit k0)" if "reg_intno reg = INT_SYS_EXIT"
    proof -
      have cb: "current k \<noteq> b" using u that by simp
      then have "p_waiting (cur k0) \<noteq> int a" using A c by auto
      then show ?thesis
        using A c(1,2) cb by (auto simp: awaited_def do_exit_def Let_def)
    qed
    show "awaited a b (do_wait k0)" if "reg_intno reg = INT_SYS_WAIT"
    proof (cases k0 rule: do_wait_cases)
      case (block p)
      then have "p \<noteq> b" using u that c(6) eax_pid [of "reg_eax reg" p] by auto
      then show ?thesis using A c unfolding block(2) awaited_def by auto
    next
      case (zombie p)
      then have "p \<noteq> b" "p \<noteq> a" using A by auto
      then show ?thesis using A c unfolding zombie(3) awaited_def by auto
    next
      case bad
      show ?thesis unfolding bad c(1) using P0 c(2) by (auto simp: awaited_def)
    qed
    show "awaited a b (do_kill k0)" if "reg_intno reg = INT_SYS_KILL"
    proof (cases k0 rule: do_kill_cases)
      case (kill p)
      then have p: "p \<noteq> b" "p \<noteq> a" using u that c(6) eax_pid [of "reg_eax reg" p] by auto
      then have "p_waiting (proc_array k0 p) \<noteq> int a" using A kill(3) by auto
      then have "\<not> (0 < p_waiting (proc_array k0 p) \<and> nat (p_waiting (proc_array k0 p)) = a)" by auto
      then show ?thesis
        using A p do_kill_entry(1) [OF kill(5)] do_kill_entry(2,4) [OF kill(5), of a] do_kill_entry(2,4) [OF kill(5), of b]
        unfolding awaited_def by (metis insertCI)
    next
      case bad
      show ?thesis unfolding bad c(1) using P0 c(2) by (auto simp: awaited_def)
    qed
    have ne: "p_state (proc_array k0 a) \<noteq> P_EMPTY" "p_state (proc_array k0 b) \<noteq> P_EMPTY" using A by auto
    show "awaited a b (do_newthread k0)"
      using A do_newthread_entry [OF ne(1)] do_newthread_entry [OF ne(2)] unfolding awaited_def by metis
    show "awaited a b k1" if "do_fork k0 (current k0) = (k1, r)" for k1 r
      using A do_fork_entry [OF that _ ne(1)] do_fork_entry [OF that _ ne(2)] c unfolding awaited_def by simp
    show "awaited a b (run k p) = awaited a b k" for k p by (simp add: awaited_def)
    show "awaited a b (set_eax (current k0) w k)" if "awaited a b k" for k w using that by (auto simp: awaited_def)
  qed
qed

lemma exited_interrupt:
  assumes ok: "kern_ok k" and P: "exited b v k" and i: "interrupt k reg = Some k'"
    and u: "undisturbed {b} b [reg] k"
  shows "exited b v k'"
proof -
  define k0 where "k0 = upd_proc (current k) (\<lambda>d. d\<lparr>p_registers := reg\<rparr>) k"
  have c: "current k0 = current k" "current k \<noteq> b" "current k < NPROCS" "p_pid (cur k0) = current k"
    "p_state (proc_array k0 (current k)) = P_RUNNABLE" "p_registers (cur k0) = reg"
    using ok P by (auto simp: k0_def kern_ok_def table_ok_def runnable_def exited_def)
  have P0: "exited b v k0" using P c(2) unfolding exited_def k0_def by auto
  note A = P0 [unfolded exited_def]
  show ?thesis
  proof (rule interrupt_keeps [where P = "exited b v", OF i k0_def P0])
    show "exited b v (do_exit k0)"
    proof -
      have "p_waiting (cur k0) \<noteq> int b" using A c by auto
      then show ?thesis using A c(1,2) by (auto simp: exited_def do_exit_def Let_def)
    qed
    show "exited b v (do_wait k0)" if "reg_intno reg = INT_SYS_WAIT"
    proof (cases k0 rule: do_wait_cases)
      case (zombie p)
      then have "p \<noteq> b" using u that c(6) eax_pid [of "reg_eax reg" p] by auto
      then show ?thesis using A c unfolding zombie(3) exited_def by auto
    next
      case (block p)
      then show ?thesis using A c unfolding block(2) exited_def by auto
    next
      case bad
      show ?thesis unfolding bad c(1) using P0 c(2) by (auto simp: exited_def)
    qed
    show "exited b v (do_kill k0)" if "reg_intno reg = INT_SYS_KILL"
    proof (cases k0 rule: do_kill_cases)
      case (kill p)
      then have p: "p \<noteq> b" using u that c(6) eax_pid [of "reg_eax reg" p] by auto
      have "\<not> (0 < p_waiting (proc_array k0 p) \<and> nat (p_waiting (proc_array k0 p)) = b)" using A kill(3) by auto
      then show ?thesis
        using A p do_kill_entry(1) [OF kill(5)] do_kill_entry(3) [OF kill(5), of b] do_kill_entry(4) [OF kill(5), of b]
        unfolding exited_def by metis
    next
      case bad
      show ?thesis unfolding bad c(1) using P0 c(2) by (auto simp: exited_def)
    qed
    have ne: "p_state (proc_array k0 b) \<noteq> P_EMPTY" using A by auto
    show "exited b v (do_newthread k0)"
      using A do_newthread_entry [OF ne] unfolding exited_def by metis
    show "exited b v k1" if "do_fork k0 (current k0) = (k1, r)" for k1 r
      using A do_fork_entry [OF that _ ne] c unfolding exited_def by simp
    show "exited b v (run k p) = exited b v k" for k p by (simp add: exited_def)
    show "exited b v (set_eax (current k0) w k)" if "exited b v k" for k w using that by (auto simp: exited_def)
  qed
qed

lemma undisturbed_keeps:
  assumes "kern_ok k" "P k" "run_interrupts rs k = Some k'" "undisturbed ps b rs k"
    and "\<And>k k' r. kern_ok k \<Longrightarrow> P k \<Longrightarrow> interrupt k r = Some k' \<Longrightarrow> undisturbed ps b [r] k \<Longrightarrow> P k'"
  shows "kern_ok k' \<and> P k'"
  using assms(1-4)
proof (induction rs arbitrary: k)
  case (Cons r rs)
  then obtain k1 where k1: "interrupt k r = Some k1" "run_interrupts rs k1 = Some k'" by (auto split: option.splits)
  then have "undisturbed ps b [r] k" "undisturbed ps b rs k1" using Cons.prems(4) by simp_all
  then show ?case
    using Cons.IH [OF _ _ k1(2)] interrupt_kern_ok [OF Cons.prems(1) k1(1)] assms(5) [OF Cons.prems(1,2) k1(1)] by blast
qed simp

lemma schedule_returns:
  assumes "runnable k a" "a < NPROCS"
  shows "\<exists>p. schedule k = Some (run k p)"
  using schedule_None [of k a] schedule_Some [of k] assms by (cases "schedule k") auto

lemma wait_blocks:
  assumes "kern_ok k" "current k = a" "a \<noteq> b" "0 < b" "b < NPROCS" "p_state (proc_array k b) \<in> {P_RUNNABLE, P_BLOCKED}"
    and "\<forall>q < NPROCS. p_waiting (proc_array k q) = int a \<longrightarrow> q = b"
    and "reg_intno wreg = INT_SYS_WAIT" "reg_eax wreg = of_nat b" "interrupt k wreg = Some k1"
  shows "awaited a b k1"
proof -
  define k0 where "k0 = upd_proc a (\<lambda>d. d\<lparr>p_registers := wreg\<rparr>) k"
  have c: "p_pid (proc_array k a) = a" using assms(1,2) by (auto simp: kern_ok_def table_ok_def)
  have "do_wait k0 = set_waiting b (int a) (set_state a P_BLOCKED k0)"
    using assms(2-6,9) c by (auto simp: do_wait_def Let_def bad_pid_def k0_def sint_pid)
  moreover have "schedule (do_wait k0) = Some k1"
    using assms(2,10) interrupt_wait [OF assms(8), of k] by (simp add: k0_def)
  then obtain p where "k1 = run (do_wait k0) p" using schedule_Some by blast
  ultimately show ?thesis
    using assms(3,6,7) by (auto simp: awaited_def k0_def)
qed

lemma awaited_exit:
  assumes "kern_ok k" "awaited a b k" "current k = b" "0 < a" "a < NPROCS" "a \<noteq> b"
    and "reg_intno xreg = INT_SYS_EXIT" "reg_eax xreg = v"
  shows "\<exists>k'. interrupt k xreg = Some k' \<and> runnable k' a \<and>
    reg_eax (p_registers (proc_array k' a)) = v \<and> p_state (proc_array k' b) = P_EMPTY"
proof -
  define x where "x = do_exit (upd_proc b (\<lambda>d. d\<lparr>p_registers := xreg\<rparr>) k)"
  have "p_waiting (proc_array k b) = int a" using assms(2) by (simp add: awaited_def)
  then have x: "p_state (proc_array x a) = P_RUNNABLE" "reg_eax (p_registers (proc_array x a)) = v"
    "p_state (proc_array x b) = P_EMPTY"
    using assms(3,4,6,8) by (simp_all add: x_def do_exit_def Let_def)
  then obtain p where "schedule x = Some (run x p)"
    using schedule_returns [of x a] assms(5) by (auto simp: runnable_def)
  then show ?thesis
    using interrupt_exit [OF assms(7), of k] x assms(3) by (simp add: x_def runnable_def)
qed

lemma exit_waits:
  assumes "kern_ok k" "current k = b" "b < NPROCS" "p_waiting (proc_array k b) \<le> 0"
    and "\<forall>q < NPROCS. p_waiting (proc_array k q) \<noteq> int b"
    and "reg_intno xreg = INT_SYS_EXIT" "reg_eax xreg = v" "interrupt k xreg = Some k1"
  shows "exited b v k1"
proof -
  define x where "x = do_exit (upd_proc b (\<lambda>d. d\<lparr>p_registers := xreg\<rparr>) k)"
  have "schedule x = Some k1" using assms(2,8) interrupt_exit [OF assms(6), of k] by (simp add: x_def)
  then obtain p where "k1 = run x p" using schedule_Some by blast
  moreover have "p_state (proc_array x b) = P_ZOMBIE" "p_exit_status (proc_array x b) = v"
    "p_waiting (proc_array x q) = p_waiting (proc_array k q)" for q
    using assms(2,4,7) by (auto simp: x_def do_exit_def Let_def)
  ultimately show ?thesis using assms(5) by (simp add: exited_def)
qed

lemma exited_wait:
  assumes "kern_ok k" "exited b v k" "current k = a" "a \<noteq> b" "0 < b" "b < NPROCS"
    and "reg_intno wreg = INT_SYS_WAIT" "reg_eax wreg = of_nat b"
  shows "\<exists>k'. interrupt k wreg = Some k' \<and> runnable k' a \<and>
    reg_eax (p_registers (proc_array k' a)) = v \<and> p_state (proc_array k' b) = P_EMPTY"
proof -
  define k0 where "k0 = upd_proc a (\<lambda>d. d\<lparr>p_registers := wreg\<rparr>) k"
  have a: "a < NPROCS" "p_pid (proc_array k a) = a" "p_state (proc_array k b) = P_ZOMBIE"
    "p_exit_status (proc_array k b) = v"
    using assms(1-3) by (auto simp: kern_ok_def table_ok_def exited_def)
  have dw: "do_wait k0 = set_state a P_RUNNABLE (set_state b P_EMPTY (set_eax a v k0))"
    using assms(3-6,8) a by (simp add: do_wait_def Let_def bad_pid_def k0_def sint_pid)
  then have "runnable (do_wait k0) a" by (simp add: runnable_def)
  then obtain p where "schedule (do_wait k0) = Some (run (do_wait k0) p)" using schedule_returns a(1) by blast
  then show ?thesis
    using interrupt_wait [OF assms(7), of k] assms(3,4) dw by (simp add: k0_def runnable_def)
qed

text \<open>C21: \<open>sys_wait\<close> returns the exit status in either order, whatever the other processes do
  meanwhile. First: the running process \<open>a\<close> waits for \<open>b\<close>, which has not exited; processes then make
  any calls among which \<open>b\<close> does not exit, nobody else waits for \<open>b\<close> and neither of the two is
  killed; when \<open>b\<close> exits, \<open>a\<close> is runnable again. Second: \<open>b\<close> exits before anybody waits for it, the
  others make any calls that neither wait for \<open>b\<close> nor kill it, and then \<open>a\<close> waits for it. Both times
  the result register of \<open>a\<close> has the status \<open>b\<close> exited with and the entry of \<open>b\<close> is free. No other
  entry may name the process that is blocked or a zombie as its waiter at the start: the lemmas after
  this show what such leftovers do.
\<close>

theorem wait_gets_status:
  assumes "kern_ok k" "a \<noteq> b" "0 < b" "b < NPROCS"
    and "reg_intno wreg = INT_SYS_WAIT" "reg_eax wreg = of_nat b"
    and "reg_intno xreg = INT_SYS_EXIT" "reg_eax xreg = status"
  shows "(current k = a \<and> p_state (proc_array k b) \<in> {P_RUNNABLE, P_BLOCKED} \<and>
      (\<forall>q < NPROCS. p_waiting (proc_array k q) = int a \<longrightarrow> q = b) \<and> interrupt k wreg = Some k1 \<and>
      undisturbed {a, b} b rs k1 \<and> run_interrupts rs k1 = Some k2 \<and> current k2 = b \<longrightarrow>
      (\<exists>k'. interrupt k2 xreg = Some k' \<and> runnable k' a \<and>
         reg_eax (p_registers (proc_array k' a)) = status \<and> p_state (proc_array k' b) = P_EMPTY)) \<and>
    (current k = b \<and> p_waiting (proc_array k b) \<le> 0 \<and>
      (\<forall>q < NPROCS. p_waiting (proc_array k q) \<noteq> int b) \<and> interrupt k xreg = Some k1 \<and>
      undisturbed {b} b rs k1 \<and> run_interrupts rs k1 = Some k2 \<and> current k2 = a \<longrightarrow>
      (\<exists>k'. interrupt k2 wreg = Some k' \<and> runnable k' a \<and>
         reg_eax (p_registers (proc_array k' a)) = status \<and> p_state (proc_array k' b) = P_EMPTY))"
proof (intro conjI impI, goal_cases)
  case 1
  then have "awaited a b k1" using wait_blocks [of k a b wreg k1] assms by blast
  moreover have "kern_ok k1" using interrupt_kern_ok [OF assms(1)] 1 by blast
  ultimately have "kern_ok k2 \<and> awaited a b k2"
    using undisturbed_keeps [of k1 "awaited a b" rs k2 "{a, b}" b] awaited_interrupt [OF _ _ _ _ assms(2)] 1 by blast
  moreover have "0 < a" "a < NPROCS" using assms(1) 1 by (auto simp: kern_ok_def table_ok_def)
  ultimately show ?case using awaited_exit assms 1 by blast
next
  case 2
  then have "exited b status k1" using exit_waits [of k b xreg status k1] assms by blast
  moreover have "kern_ok k1" using interrupt_kern_ok [OF assms(1)] 2 by blast
  ultimately have "kern_ok k2 \<and> exited b status k2"
    using undisturbed_keeps [of k1 "exited b status" rs k2 "{b}" b] exited_interrupt 2 by blast
  then show ?case using exited_wait assms 2 by blast
qed

text \<open>Process 1 waits for process 4, which yields, asks for its number and exits with status 1000; and
process 1 exits with status 7 before process 4 waits for it.\<close>

lemma wait_gets_status_witness:
  "(\<exists>k2 k'. run_interrupts [zero_registers\<lparr>reg_intno := 52, reg_eax := 4\<rparr>,
       zero_registers\<lparr>reg_intno := 50\<rparr>, zero_registers\<lparr>reg_intno := 48\<rparr>] demo_mpos = Some k2 \<and>
     interrupt k2 (zero_registers\<lparr>reg_intno := 51, reg_eax := 1000\<rparr>) = Some k' \<and>
     runnable k' 1 \<and> reg_eax (p_registers (proc_array k' 1)) = 1000) \<and>
   (\<exists>k1 k'. interrupt demo_mpos (zero_registers\<lparr>reg_intno := 51, reg_eax := 7\<rparr>) = Some k1 \<and>
     interrupt k1 (zero_registers\<lparr>reg_intno := 52, reg_eax := 1\<rparr>) = Some k' \<and>
     runnable k' 4 \<and> reg_eax (p_registers (proc_array k' 4)) = 7)"
proof -
  let ?w = "zero_registers\<lparr>reg_intno := 52, reg_eax := 4\<rparr>"
  let ?x = "zero_registers\<lparr>reg_intno := 51, reg_eax := 1000\<rparr>"
  let ?rs = "[zero_registers\<lparr>reg_intno := 50\<rparr>, zero_registers\<lparr>reg_intno := 48\<rparr>]"
  let ?w2 = "zero_registers\<lparr>reg_intno := 52, reg_eax := 1\<rparr>"
  let ?x2 = "zero_registers\<lparr>reg_intno := 51, reg_eax := 7\<rparr>"
  note eval = interrupt_def const_defs do_wait_def do_exit_def bad_pid_def Let_def demo_mpos_def demo_procs_def
    empty_procs_def schedule_def runnable_def rr_scan.simps
  obtain k1 k2 where k1: "interrupt demo_mpos ?w = Some k1" and k2: "undisturbed {1, 4} 4 ?rs k1"
    "run_interrupts ?rs k1 = Some k2" "current k2 = 4"
    by (simp add: eval)
  obtain k3 where k3: "interrupt demo_mpos ?x2 = Some k3" "current k3 = 4" by (simp add: eval)
  have h: "current demo_mpos = 1" "(4 :: nat) < NPROCS" "p_state (proc_array demo_mpos 4) = P_RUNNABLE"
    "\<forall>q < NPROCS. p_waiting (proc_array demo_mpos q) \<noteq> int 1" "p_waiting (proc_array demo_mpos 1) \<le> 0"
    by (simp_all add: demo_mpos_def demo_procs_def empty_procs_def NPROCS_def)
  have "\<exists>k'. interrupt k2 ?x = Some k' \<and> runnable k' 1 \<and>
      reg_eax (p_registers (proc_array k' 1)) = 1000 \<and> p_state (proc_array k' 4) = P_EMPTY"
    using wait_gets_status [OF demo_mpos_ok, of 1 4 ?w ?x 1000 k1 ?rs k2] k1 k2 h
    by (simp add: INT_SYS_WAIT_def INT_SYS_EXIT_def)
  moreover have "\<exists>k'. interrupt k3 ?w2 = Some k' \<and> runnable k' 4 \<and>
      reg_eax (p_registers (proc_array k' 4)) = 7 \<and> p_state (proc_array k' 1) = P_EMPTY"
    using wait_gets_status [OF demo_mpos_ok, of 4 1 ?w2 ?x2 7 k3 "[]" k3] k3 h
    by (simp add: INT_SYS_WAIT_def INT_SYS_EXIT_def)
  ultimately show ?thesis using k1 k2(2) k3(1) by auto
qed

section \<open>Waiters that are lost and processes that come back\<close>

text \<open>A blocked process that no table entry names as its waiter.\<close>

definition orphaned :: "nat \<Rightarrow> mpos \<Rightarrow> bool" where
  "orphaned a k \<longleftrightarrow> p_state (proc_array k a) = P_BLOCKED \<and>
     (\<forall>p < NPROCS. p_waiting (proc_array k p) \<noteq> int a)"

lemma orphaned_run [simp]: "orphaned a (run k p) = orphaned a k"
  by (simp add: orphaned_def)

lemma orphaned_registers:
  "orphaned a k \<Longrightarrow> orphaned a (upd_proc c (\<lambda>d. d\<lparr>p_registers := f d\<rparr>) k)"
  by (auto simp: orphaned_def)

lemma orphaned_exit:
  assumes "table_ok k" "orphaned a k" "current k \<noteq> a"
  shows "orphaned a (do_exit k)"
proof -
  have "p_waiting (cur k) \<noteq> int a" using assms table_ok_current by (auto simp: orphaned_def)
  then show ?thesis using assms(2,3) by (auto simp: orphaned_def do_exit_def Let_def)
qed

lemma orphaned_wait:
  assumes "table_ok k" "orphaned a k" "current k \<noteq> a"
  shows "orphaned a (do_wait k)"
proof -
  have "p_pid (cur k) \<noteq> a"
    using assms(1,3) table_ok_pid [OF assms(1), of "current k"] table_ok_current [OF assms(1)] by simp
  then show ?thesis using assms(2,3) by (auto simp: orphaned_def do_wait_def Let_def)
qed

lemma orphaned_kill:
  assumes "orphaned a k" "current k \<noteq> a" "sint (reg_eax (p_registers (cur k))) \<noteq> int a"
  shows "orphaned a (do_kill k)"
proof -
  define p where "p = sint (reg_eax (p_registers (cur k)))"
  show ?thesis
  proof (cases "bad_pid k p")
    case True
    then have "do_kill k = set_eax (current k) (-1) k" by (simp add: do_kill_def Let_def p_def)
    then show ?thesis using orphaned_registers [OF assms(1)] by simp
  next
    case False
    from bad_pidD [OF this] have p: "nat p < NPROCS" "nat p \<noteq> a" using assms(3) by (auto simp: p_def)
    define k1 where "k1 = set_eax (current k) 0 (set_state (nat p) P_EMPTY k)"
    have k1: "orphaned a k1" using assms(1,2) p(2) by (auto simp: k1_def orphaned_def)
    have "do_kill k = (let w = p_waiting (proc_array k1 (nat p))
        in if w > 0 then set_waiting (nat p) (-1) (set_state (nat w) P_RUNNABLE k1) else k1)"
      using False unfolding do_kill_def k1_def p_def by (simp only: Let_def if_False)
    moreover have "p_waiting (proc_array k1 (nat p)) \<noteq> int a" using k1 p(1) by (simp add: orphaned_def)
    ultimately show ?thesis using k1 p(2) by (auto simp: orphaned_def Let_def)
  qed
qed

lemma orphaned_newthread: "orphaned a k \<Longrightarrow> orphaned a (do_newthread k)"
  by (auto simp: orphaned_def do_newthread_def Let_def dest!: empty_slot_Some split: option.splits)

lemma orphaned_fork:
  assumes "orphaned a k" "do_fork k c = (k', r)" "p_state (proc_array k c) \<noteq> P_EMPTY"
  shows "orphaned a k'"
proof (cases "empty_slot (proc_array k) 1")
  case None
  then show ?thesis using assms(1,2) by (simp add: do_fork_def)
next
  case (Some p)
  from empty_slot_Some [OF Some] have p: "p_state (proc_array k p) = P_EMPTY" by blast
  then have "p \<noteq> c" "p \<noteq> a" using assms(1,3) by (auto simp: orphaned_def)
  with do_fork_Some [OF Some \<open>p \<noteq> c\<close>] assms(1,2) show ?thesis by (auto simp: orphaned_def)
qed

lemma orphaned_interrupt:
  assumes "kern_ok k" "orphaned a k" "interrupt k reg = Some k'"
    and "\<not> (reg_intno reg = INT_SYS_KILL \<and> reg_eax reg = of_nat a)"
  shows "orphaned a k'"
proof -
  define c where "c = current k"
  define k0 where "k0 = upd_proc c (\<lambda>d. d\<lparr>p_registers := reg\<rparr>) k"
  have ca: "c \<noteq> a" using assms(1,2) by (auto simp: kern_ok_def runnable_def orphaned_def c_def)
  have k0: "table_ok k0" "orphaned a k0" "current k0 \<noteq> a" "p_registers (cur k0) = reg"
      "p_state (proc_array k0 c) \<noteq> P_EMPTY"
    using assms(1,2) ca
    by (auto simp: k0_def c_def kern_ok_def table_ok_def orphaned_def runnable_def)
  have sch: "orphaned a k'" if "schedule k1 = Some k'" "orphaned a k1" for k1
    using schedule_Some [OF that(1)] that(2) by (metis orphaned_run)
  have kill: "orphaned a (do_kill k0)" if "reg_intno reg = INT_SYS_KILL"
  proof -
    have "sint (reg_eax reg) \<noteq> int a"
    proof
      assume "sint (reg_eax reg) = int a"
      moreover have "word_of_int (sint (reg_eax reg)) = reg_eax reg" by simp
      ultimately have "reg_eax reg = word_of_int (int a)" by simp
      then show False using assms(4) that by simp
    qed
    then show ?thesis using orphaned_kill [OF k0(2,3)] k0(4) by simp
  qed
  show ?thesis
    using assms(3) k0(2) kill sch orphaned_exit [OF k0(1-3)] orphaned_wait [OF k0(1-3)]
      orphaned_newthread [OF k0(2)] orphaned_fork [OF k0(2) _ k0(5)]
    unfolding interrupt_def Let_def c_def [symmetric] k0_def [symmetric]
    by (auto split: if_splits prod.splits intro: orphaned_registers)
qed

lemma orphaned_for_ever:
  assumes "kern_ok k" "orphaned a k" "run_interrupts rs k = Some k'"
    and "\<forall>r \<in> set rs. \<not> (reg_intno r = INT_SYS_KILL \<and> reg_eax r = of_nat a)"
  shows "orphaned a k'"
  using assms
proof (induction rs arbitrary: k)
  case (Cons r rs)
  then obtain k1 where k1: "interrupt k r = Some k1" "run_interrupts rs k1 = Some k'"
    by (auto split: option.splits)
  have "kern_ok k1" using interrupt_kern_ok [OF Cons.prems(1) k1(1)] by simp
  moreover have "orphaned a k1" using orphaned_interrupt [OF Cons.prems(1,2) k1(1)] Cons.prems(4) by simp
  ultimately show ?case using Cons.IH k1(2) Cons.prems(4) by simp
qed simp

text \<open>two waiters for one process. \<open>p_waiting\<close> has room for one: when \<open>a\<close> is blocked waiting for
  \<open>b\<close> and the current process waits for \<open>b\<close> as well, \<open>a\<close> is forgotten. Whatever system calls
  follow, the exit of \<open>b\<close> included, \<open>a\<close> stays blocked unless it is killed.
\<close>

theorem first_waiter_starves:
  assumes "kern_ok k" "p_state (proc_array k a) = P_BLOCKED"
    and "\<forall>p < NPROCS. p_waiting (proc_array k p) = int a \<longrightarrow> p = b"
    and "reg_intno reg = INT_SYS_WAIT" "reg_eax reg = of_nat b" "0 < b" "b < NPROCS" "b \<noteq> current k"
    and "p_state (proc_array k b) \<noteq> P_EMPTY" "p_state (proc_array k b) \<noteq> P_ZOMBIE"
    and "\<forall>r \<in> set rs. \<not> (reg_intno r = INT_SYS_KILL \<and> reg_eax r = of_nat a)"
    and "run_interrupts (reg # rs) k = Some k'"
  shows "p_state (proc_array k' a) = P_BLOCKED"
proof -
  define c where "c = current k"
  define k0 where "k0 = upd_proc c (\<lambda>d. d\<lparr>p_registers := reg\<rparr>) k"
  have c: "c < NPROCS" "p_pid (proc_array k c) = c" "c \<noteq> a"
    using assms(1,2) by (auto simp: kern_ok_def table_ok_def runnable_def c_def)
  have dw: "do_wait k0 = set_waiting b (int c) (set_state c P_BLOCKED k0)"
    using assms(5-10) c by (simp add: do_wait_def Let_def bad_pid_def k0_def sint_pid c_def)
  have o: "orphaned a (do_wait k0)"
  proof -
    have "p_waiting (proc_array (do_wait k0) p) \<noteq> int a" if "p < NPROCS" for p
      unfolding dw using assms(3) [rule_format, OF that] c(3) by (cases "p = b") (auto simp: k0_def)
    moreover have "p_state (proc_array (do_wait k0) a) = P_BLOCKED"
      unfolding dw using assms(2) c(3) by (auto simp: k0_def)
    ultimately show ?thesis by (simp add: orphaned_def)
  qed
  obtain k1 where k1: "interrupt k reg = Some k1" "run_interrupts rs k1 = Some k'"
    using assms(12) by (auto split: option.splits)
  have "schedule (do_wait k0) = Some k1"
    using k1(1) interrupt_wait [OF assms(4), of k] by (simp add: k0_def c_def)
  then have "orphaned a k1" using schedule_Some o by (metis orphaned_run)
  moreover have "kern_ok k1" using interrupt_kern_ok [OF assms(1) k1(1)] by simp
  ultimately have "orphaned a k'" using orphaned_for_ever k1(2) assms(11) by blast
  then show ?thesis by (simp add: orphaned_def)
qed

text \<open>Process 1 is blocked, waiting for process 4; process 5 runs and waits for it too.\<close>

definition demo_two_waiters :: mpos where
  "demo_two_waiters = demo_mpos\<lparr>current := 5, proc_array := demo_procs(
     1 := (empty_procs 1)\<lparr>p_state := P_BLOCKED\<rparr>,
     4 := (empty_procs 4)\<lparr>p_state := P_RUNNABLE, p_waiting := 1\<rparr>,
     5 := (empty_procs 5)\<lparr>p_state := P_RUNNABLE\<rparr>)\<rparr>"

lemma demo_two_waiters_run:
  "\<exists>k'. run_interrupts [zero_registers\<lparr>reg_intno := 52, reg_eax := 4\<rparr>,
     zero_registers\<lparr>reg_intno := 51, reg_eax := 7\<rparr>] demo_two_waiters = Some k' \<and> current k' = 5"
  by (simp add: interrupt_wait interrupt_exit INT_SYS_WAIT_def INT_SYS_EXIT_def do_wait_def do_exit_def
      bad_pid_def Let_def demo_two_waiters_def demo_mpos_def demo_procs_def empty_procs_def NPROCS_def
      schedule_def runnable_def rr_scan.simps)

lemma first_waiter_starves_witness:
  "\<exists>k'. run_interrupts [zero_registers\<lparr>reg_intno := 52, reg_eax := 4\<rparr>,
     zero_registers\<lparr>reg_intno := 51, reg_eax := 7\<rparr>] demo_two_waiters = Some k' \<and>
     current k' = 5 \<and> p_state (proc_array k' 1) = P_BLOCKED"
proof -
  let ?w = "zero_registers\<lparr>reg_intno := 52, reg_eax := 4\<rparr>"
  let ?x = "zero_registers\<lparr>reg_intno := 51, reg_eax := 7\<rparr>"
  obtain k' where k': "run_interrupts [?w, ?x] demo_two_waiters = Some k'" "current k' = 5"
    using demo_two_waiters_run by blast
  have "kern_ok demo_two_waiters"
    by (auto simp: kern_ok_def table_ok_def runnable_def demo_two_waiters_def demo_mpos_def
        demo_procs_def empty_procs_def NPROCS_def)
  then have "p_state (proc_array k' 1) = P_BLOCKED"
    by (rule first_waiter_starves [where b = 4 and reg = ?w and rs = "[?x]"])
      (use k'(1) in \<open>simp_all add: demo_two_waiters_def demo_mpos_def demo_procs_def empty_procs_def
        NPROCS_def INT_SYS_WAIT_def INT_SYS_KILL_def\<close>)
  then show ?thesis using k' by blast
qed

text \<open>
  A killed process comes back: process 1 waits for process 4, process 5 kills process 1, and the
  exit of process 4 then marks the freed entry 1 runnable.
\<close>

lemma killed_waiter_revived:
  "map_option (\<lambda>k. (p_state (proc_array k 1), current k))
     (run_interrupts [zero_registers\<lparr>reg_intno := 54, reg_eax := 1\<rparr>,
        zero_registers\<lparr>reg_intno := 51, reg_eax := 7\<rparr>] (demo_two_waiters)) = Some (P_RUNNABLE, 5) \<and>
   map_option (\<lambda>k. p_state (proc_array k 1))
     (run_interrupts [zero_registers\<lparr>reg_intno := 54, reg_eax := 1\<rparr>] demo_two_waiters) = Some P_EMPTY"
  by (simp add: interrupt_def const_defs do_kill_def do_exit_def
      bad_pid_def Let_def demo_two_waiters_def demo_mpos_def demo_procs_def empty_procs_def
      schedule_def runnable_def rr_scan.simps)

text \<open>
  With a full table \<open>sys_newthread\<close> leaves the result register alone, so the caller reads the
  address of its function as the identifier of a thread that does not exist.
\<close>

lemma newthread_full_table:
  assumes "\<forall>p < NPROCS. 0 < p \<longrightarrow> p_state (proc_array k p) \<noteq> P_EMPTY"
  shows "do_newthread k = k"
proof -
  have "empty_slot (proc_array k) 1 = None"
    using empty_slot_Some [of "proc_array k" 1] assms by (cases "empty_slot (proc_array k) 1") auto
  then show ?thesis by (simp add: do_newthread_def)
qed

lemma interrupt_ok_witness:
  "\<exists>k'. interrupt demo_mpos (zero_registers\<lparr>reg_intno := 54, reg_eax := 4\<rparr>) = Some k' \<and> kern_ok k'"
proof -
  let ?r = "zero_registers\<lparr>reg_intno := 54, reg_eax := 4\<rparr>"
  have "\<exists>k'. interrupt demo_mpos ?r = Some k'"
    by (simp add: interrupt_def const_defs do_kill_def bad_pid_def Let_def demo_mpos_def
        demo_procs_def empty_procs_def schedule_def runnable_def rr_scan.simps)
  then show ?thesis using interrupt_ok [OF demo_mpos_ok, of ?r] by blast
qed

end
