(* ===== verification/Sched_Kern.thy ===== *)
theory Sched_Kern
  imports Weensy_Loader Round_Robin "HOL-Library.Signed_Division"
begin

text \<open>
  The SchedOS kernel, \<open>WeensyOS2/schedos-kern.c\<close>: four processes and five scheduling algorithms
  (round robin, strict order, priority, proportional share, lottery), chosen by a variable. Each
  algorithm is its own definition on the process table; \<open>schedule_s\<close> dispatches as the code does.
  \<open>None\<close> is a scheduler that loops for ever; \<open>Out_of_table\<close> is an access to \<open>proc_array\<close> at an index
  the table does not have. Names that MiniprocOS also uses carry the suffix \<open>_s\<close>.
\<close>

section \<open>The process table\<close>

definition NPROCS_s :: nat where [const_defs]: "NPROCS_s = 5"
definition PROC1_START :: u32 where [const_defs]: "PROC1_START = 0x200000"
definition PROC_SIZE :: u32 where [const_defs]: "PROC_SIZE = 0x100000"

definition INT_YIELD_s :: u32 where [const_defs]: "INT_YIELD_s = 48"
definition INT_EXIT_s :: u32 where [const_defs]: "INT_EXIT_s = 49"
definition INT_SYS_USER1 :: u32 where [const_defs]: "INT_SYS_USER1 = 50"
definition INT_SYS_USER2 :: u32 where [const_defs]: "INT_SYS_USER2 = 51"
definition INT_PRIORITY :: u32 where [const_defs]: "INT_PRIORITY = 52"
definition INT_SHARE :: u32 where [const_defs]: "INT_SHARE = 53"
definition INT_PRINT :: u32 where [const_defs]: "INT_PRINT = 54"
definition INT_CLOCK :: u32 where [const_defs]: "INT_CLOCK = 32"

record process_s =
  pid_s :: nat
  registers_s :: registers_t
  state_s :: procstate_t
  exit_status_s :: u32
  p_priority :: int
  p_share :: int
  p_counter :: int
  p_ticket :: int

type_synonym table_s = "nat \<Rightarrow> process_s"

abbreviation runnable_s :: "table_s \<Rightarrow> nat \<Rightarrow> bool" where
  "runnable_s t p \<equiv> state_s (t p) = P_RUNNABLE"

section \<open>Random numbers\<close>

record rng =
  rng_x :: u32
  rng_y :: u32
  rng_z :: u32

definition rng0 :: rng where
  "rng0 = \<lparr>rng_x = 123456, rng_y = 362092, rng_z = 895104\<rparr>"

definition getRandNum :: "rng \<Rightarrow> int \<times> rng" where
  "getRandNum g =
     (let x = rng_x g;
          x = x XOR push_bit 16 x;
          x = x XOR drop_bit 5 x;
          x = x XOR push_bit 1 x;
          t = x;
          x = rng_y g;
          y = rng_z g;
          z = t XOR x XOR y
      in (sint z, \<lparr>rng_x = x, rng_y = y, rng_z = z\<rparr>))"

section \<open>The scheduling algorithms\<close>

text \<open>Algorithm 1: the first runnable process in table order.\<close>

fun strict_scan :: "table_s \<Rightarrow> nat list \<Rightarrow> nat option" where
  "strict_scan t [] = None"
| "strict_scan t (i # is) = (if runnable_s t i then Some i else strict_scan t is)"

text \<open>Algorithm 2: one pass over the table from the current process on.\<close>

fun priority_scan :: "table_s \<Rightarrow> nat list \<Rightarrow> nat \<Rightarrow> int \<Rightarrow> nat" where
  "priority_scan t [] process pri = process"
| "priority_scan t (i # is) process pri =
     (let j = i mod NPROCS_s
      in if runnable_s t j \<and> p_priority (t j) < pri
         then priority_scan t is j (p_priority (t j))
         else priority_scan t is process pri)"

definition priority_pick :: "table_s \<Rightarrow> nat \<Rightarrow> nat" where
  "priority_pick t pid = priority_scan t [pid + 1 ..< pid + NPROCS_s + 1] pid 100"

text \<open>Algorithm 3: each process runs as many times as its share before the next one does.\<close>

partial_function (option) share_loop :: "table_s \<Rightarrow> nat \<Rightarrow> (table_s \<times> nat) option" where
  "share_loop t process =
     (let p = (if process = 0 then (process + 1) mod NPROCS_s else process)
      in if runnable_s t p \<and> p_counter (t p) < p_share (t p)
         then Some (t(p := (t p)\<lparr>p_counter := p_counter (t p) + 1\<rparr>), p)
         else if runnable_s t p \<and> p_counter (t p) = p_share (t (p mod NPROCS_s))
         then share_loop (t(p := (t p)\<lparr>p_counter := 0\<rparr>)) ((p + 1) mod NPROCS_s)
         else share_loop t ((p + 1) mod NPROCS_s))"

text \<open>Algorithm 4: draw until a runnable process with that ticket is drawn.\<close>

datatype lottery = Drawn nat rng | Outside int rng

partial_function (option) lottery_loop :: "table_s \<Rightarrow> rng \<Rightarrow> lottery option" where
  "lottery_loop t g =
     (let (r, g') = getRandNum g; i = r smod (int NPROCS_s - 1) + 1
      in if i < 0 \<or> int NPROCS_s \<le> i then Some (Outside i g')
         else if runnable_s t (nat i) \<and> i = p_ticket (t (nat i)) then Some (Drawn (nat i) g')
         else lottery_loop t g')"

section \<open>The kernel\<close>

record sched =
  table :: table_s
  current_s :: nat
  scheduling_algorithm :: int
  rand :: rng
  ram_s :: mem
  screen_s :: console

datatype outcome = Runs sched | Out_of_table int

definition run_s :: "sched \<Rightarrow> nat \<Rightarrow> sched" where
  "run_s k p = k\<lparr>current_s := p\<rparr>"

definition schedule_s :: "sched \<Rightarrow> outcome option" where
  "schedule_s k =
     (let pid = pid_s (table k (current_s k))
      in if scheduling_algorithm k = 0 then
           map_option (\<lambda>p. Runs (run_s k p)) (rr_scan NPROCS_s (runnable_s (table k)) pid)
         else if scheduling_algorithm k = 1 then
           map_option (\<lambda>p. Runs (run_s k p)) (strict_scan (table k) [1 ..< NPROCS_s])
         else if scheduling_algorithm k = 2 then
           Some (Runs (run_s k (priority_pick (table k) pid)))
         else if scheduling_algorithm k = 3 then
           map_option (\<lambda>(t, p). Runs (run_s (k\<lparr>table := t\<rparr>) p)) (share_loop (table k) pid)
         else if scheduling_algorithm k = 4 then
           map_option (\<lambda>l. case l of Drawn p g \<Rightarrow> Runs (run_s (k\<lparr>rand := g\<rparr>) p)
                                   | Outside i g \<Rightarrow> Out_of_table i)
             (lottery_loop (table k) (rand k))
         else None)"

definition upd_cur :: "(process_s \<Rightarrow> process_s) \<Rightarrow> sched \<Rightarrow> sched" where
  "upd_cur f k = k\<lparr>table := (table k)(current_s k := f (table k (current_s k)))\<rparr>"

definition interrupt_s :: "sched \<Rightarrow> registers_t \<Rightarrow> outcome option" where
  "interrupt_s k reg =
     (let k = upd_cur (\<lambda>d. d\<lparr>registers_s := reg\<rparr>) k; c = current_s k
      in if reg_intno reg = INT_YIELD_s then schedule_s k
         else if reg_intno reg = INT_EXIT_s
         then schedule_s (upd_cur (\<lambda>d. d\<lparr>state_s := P_ZOMBIE, exit_status_s := reg_eax reg\<rparr>) k)
         else if reg_intno reg = INT_SYS_USER1 then Some (Runs (run_s k c))
         else if reg_intno reg = INT_SYS_USER2 then Some (Runs (run_s k c))
         else if reg_intno reg = INT_CLOCK then schedule_s k
         else if reg_intno reg = INT_PRIORITY
         then Some (Runs (run_s (upd_cur (\<lambda>d. d\<lparr>p_priority := sint (reg_eax reg)\<rparr>) k) c))
         else if reg_intno reg = INT_SHARE
         then Some (Runs (run_s (upd_cur (\<lambda>d. d\<lparr>p_share := sint (reg_eax reg)\<rparr>) k) c))
         else if reg_intno reg = INT_PRINT
         then (let scr = screen_s k;
                   scr' = scr\<lparr>cells := (cells scr)(cursor scr := ucast (reg_eax reg)),
                              cursor := cursor scr + 1\<rparr>
               in Some (Runs (run_s (k\<lparr>screen_s := scr'\<rparr>) c)))
         else None)"

text \<open>Boot: the four programs are loaded one after the other, each into its own memory.\<close>

definition empty_table :: table_s where
  "empty_table i = \<lparr>pid_s = i, registers_s = zero_registers, state_s = P_EMPTY, exit_status_s = 0,
     p_priority = 0, p_share = 0, p_counter = 0, p_ticket = 0\<rparr>"

fun load_programs :: "u32 list \<Rightarrow> nat list \<Rightarrow> table_s \<times> mem \<Rightarrow> (table_s \<times> mem) option" where
  "load_programs ramimages [] (t, m) = Some (t, m)"
| "load_programs ramimages (i # is) (t, m) =
     (case program_loader ramimages m (int i - 1) of
        None \<Rightarrow> None
      | Some (m', entry) \<Rightarrow>
          load_programs ramimages is (t(i := (t i)\<lparr>
            registers_s := sched_special_registers\<lparr>reg_esp := PROC1_START + of_nat i * PROC_SIZE,
              reg_eip := entry\<rparr>,
            state_s := P_RUNNABLE\<rparr>), m'))"

definition boot_process :: "table_s \<Rightarrow> nat \<Rightarrow> int \<Rightarrow> table_s" where
  "boot_process t i counter = t(i := (t i)\<lparr>p_priority := int i, p_share := int i,
     p_counter := counter, p_ticket := int i\<rparr>)"

definition boot_parameters :: "table_s \<Rightarrow> table_s" where
  "boot_parameters t = boot_process (boot_process (boot_process (boot_process t 1 1) 2 0) 3 0) 4 0"

definition start_s :: "u32 list \<Rightarrow> sched \<Rightarrow> sched option" where
  "start_s ramimages k =
     (case load_programs ramimages [1 ..< NPROCS_s] (empty_table, ram_s k) of
        None \<Rightarrow> None
      | Some (t, m) \<Rightarrow>
          Some (run_s (k\<lparr>table := boot_parameters t, ram_s := m, scheduling_algorithm := 0,
                         screen_s := (fst (console_clear (screen_s k)))\<lparr>cursor := 0\<rparr>\<rparr>) 1))"

section \<open>Round robin and strict order\<close>

interpretation sched_rr: round_robin NPROCS_s "rr_scan NPROCS_s"
  by (rule rr_scan_round_robin) (simp add: NPROCS_s_def)

lemma schedule_rr_runs_runnable:
  "scheduling_algorithm k = 0 \<Longrightarrow> schedule_s k = Some (Runs k') \<Longrightarrow>
   runnable_s (table k') (current_s k') \<and> current_s k' < NPROCS_s"
  by (auto simp: schedule_s_def Let_def run_s_def dest!: sched_rr.pick_runnable)

lemma strict_scan_find: "strict_scan t is = List.find (runnable_s t) is"
  by (induction "is") auto

section \<open>Priorities\<close>

text \<open>\<open>i\<close> is the first entry of the list that is runnable with the least priority number, below \<open>pri\<close>.\<close>

definition first_best :: "table_s \<Rightarrow> nat list \<Rightarrow> int \<Rightarrow> nat \<Rightarrow> bool" where
  "first_best t is pri i \<longleftrightarrow>
     runnable_s t (i mod NPROCS_s) \<and> p_priority (t (i mod NPROCS_s)) < pri \<and>
     (\<exists>pre post. is = pre @ i # post \<and>
       (\<forall>j \<in> set pre. runnable_s t (j mod NPROCS_s) \<longrightarrow>
          p_priority (t (i mod NPROCS_s)) < p_priority (t (j mod NPROCS_s))) \<and>
       (\<forall>j \<in> set post. runnable_s t (j mod NPROCS_s) \<longrightarrow>
          p_priority (t (i mod NPROCS_s)) \<le> p_priority (t (j mod NPROCS_s))))"

lemma first_best_here:
  "\<lbrakk>runnable_s t (i mod NPROCS_s); p_priority (t (i mod NPROCS_s)) < pri;
    \<forall>j \<in> set is. runnable_s t (j mod NPROCS_s) \<longrightarrow>
      p_priority (t (i mod NPROCS_s)) \<le> p_priority (t (j mod NPROCS_s))\<rbrakk> \<Longrightarrow>
   first_best t (i # is) pri i"
  unfolding first_best_def by (intro conjI exI [of _ "[]"] exI [of _ "is"]) auto

lemma first_best_later:
  assumes "first_best t is pri' i" "pri' \<le> pri"
    and "runnable_s t (h mod NPROCS_s) \<Longrightarrow> pri' \<le> p_priority (t (h mod NPROCS_s))"
  shows "first_best t (h # is) pri i"
proof -
  from assms(1) obtain pre post where h: "is = pre @ i # post"
    "\<forall>j \<in> set pre. runnable_s t (j mod NPROCS_s) \<longrightarrow>
       p_priority (t (i mod NPROCS_s)) < p_priority (t (j mod NPROCS_s))"
    "\<forall>j \<in> set post. runnable_s t (j mod NPROCS_s) \<longrightarrow>
       p_priority (t (i mod NPROCS_s)) \<le> p_priority (t (j mod NPROCS_s))"
    "runnable_s t (i mod NPROCS_s)" "p_priority (t (i mod NPROCS_s)) < pri'"
    unfolding first_best_def by blast
  show ?thesis
    unfolding first_best_def using h assms(2,3)
    by (intro conjI exI [of _ "h # pre"] exI [of _ post]) auto
qed

lemma priority_scan_best:
  "(\<exists>i. first_best t is pri i \<and> priority_scan t is q pri = i mod NPROCS_s) \<or>
   (priority_scan t is q pri = q \<and>
      (\<forall>j \<in> set is. runnable_s t (j mod NPROCS_s) \<longrightarrow> pri \<le> p_priority (t (j mod NPROCS_s))))"
proof (induction "is" arbitrary: q pri)
  case (Cons h "is")
  let ?h = "h mod NPROCS_s"
  show ?case
  proof (cases "runnable_s t ?h \<and> p_priority (t ?h) < pri")
    case True
    then have step: "priority_scan t (h # is) q pri = priority_scan t is ?h (p_priority (t ?h))"
      by (simp add: Let_def)
    have later: "first_best t (h # is) pri i" if "first_best t is (p_priority (t ?h)) i" for i
      by (rule first_best_later [OF that]) (use True in simp_all)
    show ?thesis
      using Cons.IH [where q = ?h and pri = "p_priority (t ?h)"] True later
      unfolding step by (blast intro: first_best_here)
  next
    case False
    then have step: "priority_scan t (h # is) q pri = priority_scan t is q pri"
      by (auto simp: Let_def)
    show ?thesis
      using Cons.IH [where q = q and pri = pri] False
      unfolding step by (fastforce intro: first_best_later)
  qed
qed simp

text \<open>C24: the priority scheduler runs a most important process. When some process below priority
  100 is runnable, the next one to run is runnable, no runnable process has a smaller priority
  number, and among equals it is the first after the current process in cyclic order.
\<close>

theorem priority_runs_best:
  assumes "scheduling_algorithm k = 2" "pid = pid_s (table k (current_s k))"
    and "runnable_s (table k) p" "p < NPROCS_s" "pid < NPROCS_s" "p_priority (table k p) < 100"
  shows "\<exists>d q. 0 < d \<and> d \<le> NPROCS_s \<and> q = (pid + d) mod NPROCS_s \<and>
    schedule_s k = Some (Runs (run_s k q)) \<and> runnable_s (table k) q \<and>
    (\<forall>i < NPROCS_s. runnable_s (table k) i \<longrightarrow> p_priority (table k q) \<le> p_priority (table k i)) \<and>
    (\<forall>j. 0 < j \<and> j < d \<and> runnable_s (table k) ((pid + j) mod NPROCS_s) \<longrightarrow>
       p_priority (table k q) < p_priority (table k ((pid + j) mod NPROCS_s)))"
proof -
  let ?t = "table k" and ?is = "[pid + 1 ..< pid + NPROCS_s + 1]"
  have everyone: "\<exists>j \<in> set ?is. i = j mod NPROCS_s" if i: "i < NPROCS_s" for i
  proof -
    obtain d where "0 < d" "d \<le> NPROCS_s" "i = (pid + d) mod NPROCS_s"
      using cyclic_distance [OF assms(5) i] by blast
    then show ?thesis by (intro bexI [of _ "pid + d"]) auto
  qed
  obtain j where "j \<in> set ?is" "p = j mod NPROCS_s" using everyone [OF assms(4)] by blast
  then obtain i where i: "first_best ?t ?is 100 i" "priority_pick ?t pid = i mod NPROCS_s"
    using priority_scan_best [of ?t ?is 100 pid] assms(3,6) unfolding priority_pick_def by fastforce
  from i(1) obtain pre post where h: "?is = pre @ i # post"
    "\<forall>j \<in> set pre. runnable_s ?t (j mod NPROCS_s) \<longrightarrow>
       p_priority (?t (i mod NPROCS_s)) < p_priority (?t (j mod NPROCS_s))"
    "\<forall>j \<in> set post. runnable_s ?t (j mod NPROCS_s) \<longrightarrow>
       p_priority (?t (i mod NPROCS_s)) \<le> p_priority (?t (j mod NPROCS_s))"
    "runnable_s ?t (i mod NPROCS_s)"
    unfolding first_best_def by blast
  define d where "d = length pre + 1"
  have len: "length ?is = NPROCS_s" by simp
  have nth: "(pre @ i # post) ! n = pid + 1 + n" if "n < NPROCS_s" for n
    unfolding h(1) [symmetric] using that by (subst nth_upt) simp_all
  have lp: "length pre < NPROCS_s" using len unfolding h(1) by simp
  have d: "0 < d" "d \<le> NPROCS_s" "i = pid + d" using lp nth [OF lp] by (auto simp: d_def)
  have best: "p_priority (?t (i mod NPROCS_s)) \<le> p_priority (?t q)" if "q < NPROCS_s" "runnable_s ?t q" for q
  proof -
    obtain j where j: "j \<in> set ?is" "q = j mod NPROCS_s" using everyone [OF \<open>q < NPROCS_s\<close>] by blast
    then have "j \<in> set pre \<or> j = i \<or> j \<in> set post" unfolding h(1) by auto
    then show ?thesis using h(2,3) j(2) that(2) by auto
  qed
  have ties: "p_priority (?t (i mod NPROCS_s)) < p_priority (?t ((pid + j) mod NPROCS_s))"
    if "0 < j" "j < d" "runnable_s ?t ((pid + j) mod NPROCS_s)" for j
  proof -
    have "j - 1 < length pre" using that by (simp add: d_def)
    then have "pid + j \<in> set pre"
      using nth [of "j - 1"] lp that(1) by (auto simp: nth_append in_set_conv_nth)
    then show ?thesis using h(2) that(3) by blast
  qed
  show ?thesis
    using d i(2) h(4) best ties assms(1,2)
    by (intro exI [of _ d] exI [of _ "i mod NPROCS_s"]) (auto simp: schedule_s_def Let_def)
qed

text \<open>Nobody is left below priority 100: the scheduler runs the current process, even a zombie.\<close>

lemma priority_pick_none:
  assumes "\<forall>p < NPROCS_s. runnable_s t p \<longrightarrow> 100 \<le> p_priority (t p)"
  shows "priority_pick t pid = pid"
proof -
  have "\<not> first_best t is 100 i" for "is" i
    using assms [rule_format, of "i mod NPROCS_s"] by (auto simp: first_best_def NPROCS_s_def)
  then show ?thesis
    using priority_scan_best [of t "[pid + 1 ..< pid + NPROCS_s + 1]" 100 pid]
    unfolding priority_pick_def by blast
qed

lemma zombie_runs_again:
  assumes "scheduling_algorithm k = 2" "pid_s (table k (current_s k)) = current_s k"
    and "\<forall>p < NPROCS_s. p \<noteq> current_s k \<longrightarrow> \<not> runnable_s (table k) p"
    and "reg_intno reg = INT_EXIT_s"
  shows "\<exists>k'. interrupt_s k reg = Some (Runs k') \<and> current_s k' = current_s k \<and>
    state_s (table k' (current_s k')) = P_ZOMBIE"
proof -
  define k1 where "k1 = upd_cur (\<lambda>d. d\<lparr>state_s := P_ZOMBIE, exit_status_s := reg_eax reg\<rparr>)
    (upd_cur (\<lambda>d. d\<lparr>registers_s := reg\<rparr>) k)"
  have k1: "scheduling_algorithm k1 = 2" "current_s k1 = current_s k"
    "pid_s (table k1 (current_s k)) = current_s k" "state_s (table k1 (current_s k)) = P_ZOMBIE"
    "\<forall>p < NPROCS_s. \<not> runnable_s (table k1) p"
    using assms(1-3) by (auto simp: k1_def upd_cur_def)
  have "priority_pick (table k1) (current_s k) = current_s k"
    by (rule priority_pick_none) (use k1(5) in auto)
  then have "schedule_s k1 = Some (Runs (run_s k1 (current_s k)))"
    using k1 by (simp add: schedule_s_def Let_def)
  moreover have "interrupt_s k reg = schedule_s k1"
    using assms(4) by (simp add: interrupt_s_def Let_def k1_def const_defs)
  ultimately show ?thesis using k1 by (simp add: run_s_def)
qed

section \<open>Proportional share\<close>

text \<open>Which processes the next \<open>n\<close> decisions run.\<close>

fun sched_picks :: "nat \<Rightarrow> sched \<Rightarrow> (nat list \<times> sched) option" where
  "sched_picks 0 k = Some ([], k)"
| "sched_picks (Suc n) k =
     (case schedule_s k of
        Some (Runs k') \<Rightarrow>
          (case sched_picks n k' of
             None \<Rightarrow> None | Some (ps, k'') \<Rightarrow> Some (current_s k' # ps, k''))
      | _ \<Rightarrow> None)"

lemma sched_picks_append:
  "sched_picks m k = Some (ps, k1) \<Longrightarrow> sched_picks n k1 = Some (qs, k2) \<Longrightarrow>
   sched_picks (m + n) k = Some (ps @ qs, k2)"
proof (induction m arbitrary: k ps)
  case (Suc m)
  then show ?case by (fastforce split: option.splits outcome.splits)
qed simp

definition counters :: "(nat \<Rightarrow> int) \<Rightarrow> table_s \<Rightarrow> table_s" where
  "counters c t = (\<lambda>p. (t p)\<lparr>p_counter := c p\<rparr>)"

abbreviation set_counters :: "(nat \<Rightarrow> int) \<Rightarrow> nat \<Rightarrow> sched \<Rightarrow> sched" where
  "set_counters c p k \<equiv> k\<lparr>table := counters c (table k), current_s := p\<rparr>"

lemma counters_upd: "(counters c t)(p := (counters c t p)\<lparr>p_counter := v\<rparr>) = counters (c(p := v)) t"
  by (auto simp: counters_def fun_eq_iff)

definition share_ready :: "sched \<Rightarrow> bool" where
  "share_ready k \<longleftrightarrow> scheduling_algorithm k = 3 \<and>
     (\<forall>p \<in> {1 ..< NPROCS_s}. runnable_s (table k) p \<and> pid_s (table k p) = p \<and> 0 < p_share (table k p))"

lemma share_again:
  assumes "share_ready k" "p \<in> {1 ..< NPROCS_s}" "c p < p_share (table k p)"
  shows "schedule_s (set_counters c p k) = Some (Runs (set_counters (c(p := c p + 1)) p k))"
proof -
  have "runnable_s (table k) p" "pid_s (table k p) = p" "scheduling_algorithm k = 3"
    using assms(1,2) by (auto simp: share_ready_def)
  then have "share_loop (counters c (table k)) p = Some (counters (c(p := c p + 1)) (table k), p)"
    using assms(2,3)
    by (subst share_loop.simps) (simp add: Let_def counters_upd, simp add: counters_def)
  then show ?thesis
    using \<open>scheduling_algorithm k = 3\<close> \<open>pid_s (table k p) = p\<close>
    by (simp add: schedule_s_def Let_def run_s_def, simp add: counters_def)
qed

lemma share_turns:
  assumes "share_ready k" "p \<in> {1 ..< NPROCS_s}"
  shows "int n + c p \<le> p_share (table k p) \<Longrightarrow>
    sched_picks n (set_counters c p k) =
      Some (replicate n p, set_counters (c(p := c p + int n)) p k)"
proof (induction n arbitrary: c)
  case (Suc n)
  have "schedule_s (set_counters c p k) = Some (Runs (set_counters (c(p := c p + 1)) p k))"
    using share_again [OF assms] Suc.prems by simp
  moreover have "sched_picks n (set_counters (c(p := c p + 1)) p k) =
      Some (replicate n p, set_counters (c(p := c p + 1 + int n)) p k)"
    using Suc.IH [of "c(p := c p + 1)"] Suc.prems by (simp add: algebra_simps fun_upd_same del: fun_upd_apply)
  ultimately show ?case by (simp add: algebra_simps del: fun_upd_apply)
qed (simp add: fun_upd_idem)

text \<open>The next process in the table, skipping entry 0.\<close>

definition after :: "nat \<Rightarrow> nat" where
  "after p = (if p + 1 = NPROCS_s then 1 else p + 1)"

lemma after_props:
  assumes "p \<in> {1 ..< NPROCS_s}"
  shows "after p \<in> {1 ..< NPROCS_s}" "after p \<noteq> p"
    "(if (p + 1) mod NPROCS_s = 0 then ((p + 1) mod NPROCS_s + 1) mod NPROCS_s
      else (p + 1) mod NPROCS_s) = after p"
  using assms by (auto simp: after_def NPROCS_s_def mod_Suc)

lemma share_loop_run:
  assumes "(if x = 0 then (x + 1) mod NPROCS_s else x) = p" "runnable_s t p" "p_counter (t p) < p_share (t p)"
  shows "share_loop t x = Some (t(p := (t p)\<lparr>p_counter := p_counter (t p) + 1\<rparr>), p)"
  by (subst share_loop.simps) (simp only: assms Let_def if_True simp_thms)

lemma share_loop_reset:
  assumes "p \<in> {1 ..< NPROCS_s}" "runnable_s t p" "p_counter (t p) = p_share (t p)"
  shows "share_loop t p = share_loop (t(p := (t p)\<lparr>p_counter := 0\<rparr>)) ((p + 1) mod NPROCS_s)"
  using assms by (subst share_loop.simps) (simp add: Let_def)

lemma share_next:
  assumes "share_ready k" "p \<in> {1 ..< NPROCS_s}" "c p = p_share (table k p)" "c (after p) = 0"
  shows "schedule_s (set_counters c p k) =
    Some (Runs (set_counters (c(p := 0, after p := 1)) (after p) k))"
proof -
  define q where "q = after p"
  note q = after_props [OF assms(2), folded q_def]
  have p: "runnable_s (table k) p" "pid_s (table k p) = p" "scheduling_algorithm k = 3"
    "runnable_s (table k) q" "0 < p_share (table k q)"
    using assms(1,2) q(1) by (auto simp: share_ready_def)
  let ?t = "counters (c(p := 0)) (table k)"
  have "share_loop (counters c (table k)) p = share_loop ?t ((p + 1) mod NPROCS_s)"
    using share_loop_reset [OF assms(2), of "counters c (table k)"] p(1) assms(3)
    unfolding counters_upd by (simp add: counters_def)
  also have "\<dots> = Some (?t(q := (?t q)\<lparr>p_counter := p_counter (?t q) + 1\<rparr>), q)"
    by (rule share_loop_run [OF q(3)]) (use p q(2) assms(4) in \<open>simp_all add: counters_def q_def\<close>)
  also have "?t(q := (?t q)\<lparr>p_counter := p_counter (?t q) + 1\<rparr>) = counters (c(p := 0, q := 1)) (table k)"
    using q(2) assms(4) unfolding counters_upd by (simp add: counters_def q_def)
  finally show ?thesis
    using p unfolding q_def by (simp add: schedule_s_def Let_def run_s_def) (simp add: counters_def)
qed

lemma share_block:
  assumes "share_ready k" "p \<in> {1 ..< NPROCS_s}" "c p = p_share (table k p)"
    and "q = after p" "c q = 0"
  shows "sched_picks (nat (p_share (table k q))) (set_counters c p k) =
    Some (replicate (nat (p_share (table k q))) q,
      set_counters (c(p := 0, q := p_share (table k q))) q k)"
proof -
  have q: "q \<in> {1 ..< NPROCS_s}" "q \<noteq> p" using after_props [OF assms(2)] assms(4) by auto
  have s: "0 < p_share (table k q)" using assms(1) q(1) by (simp add: share_ready_def)
  obtain n where n: "nat (p_share (table k q)) = Suc n" "p_share (table k q) = 1 + int n"
    using s by (metis Suc_pred' int_nat_eq nat_0_less_mult_iff of_nat_Suc order_less_imp_le zero_less_nat_eq)
  have "sched_picks n (set_counters (c(p := 0, q := 1)) q k) =
      Some (replicate n q, set_counters ((c(p := 0, q := 1))(q := 1 + int n)) q k)"
    using share_turns [OF assms(1) q(1), of n "c(p := 0, q := 1)"] n(2) by simp
  then show ?thesis
    using share_next [where c = c, OF assms(1-3)] assms(4,5) n by (simp del: fun_upd_apply)
qed

text \<open>C23: proportional share. When the four processes are runnable and process 1 has just used up its
  share, the next cycle runs process 2 as many times as its share, then 3, then 4, then 1, and
  ends in the very state it started from; so in every cycle each process gets exactly its share
  of the decisions.
\<close>

theorem share_cycle:
  assumes "share_ready k" "current_s k = 1"
    and "\<forall>p \<in> {1 ..< NPROCS_s}. p_counter (table k p) = (if p = 1 then p_share (table k 1) else 0)"
    and "s = (\<lambda>p. nat (p_share (table k p)))"
  shows "sched_picks (s 2 + s 3 + s 4 + s 1) k =
    Some (replicate (s 2) 2 @ replicate (s 3) 3 @ replicate (s 4) 4 @ replicate (s 1) 1, k)"
proof -
  define c where "c = (\<lambda>p. p_counter (table k p))"
  have c: "c 1 = p_share (table k 1)" "c 2 = 0" "c 3 = 0" "c 4 = 0"
    using assms(3) by (simp_all add: c_def NPROCS_s_def)
  have t: "counters c (table k) = table k" by (simp add: counters_def c_def)
  have k: "set_counters c 1 k = k" using assms(2) by (simp add: t)
  have a: "after 1 = 2" "after 2 = 3" "after 3 = 4" "after 4 = 1"
    by (simp_all add: after_def NPROCS_s_def)
  note block = share_block [OF assms(1)]
  define c2 where "c2 = c(1 := 0, 2 := p_share (table k 2))"
  define c3 where "c3 = c2(2 := 0, 3 := p_share (table k 3))"
  define c4 where "c4 = c3(3 := 0, 4 := p_share (table k 4))"
  have b2: "sched_picks (s 2) (set_counters c 1 k) = Some (replicate (s 2) 2, set_counters c2 2 k)"
    unfolding c2_def assms(4) by (rule block) (use c a in \<open>simp_all add: NPROCS_s_def\<close>)
  have b3: "sched_picks (s 3) (set_counters c2 2 k) = Some (replicate (s 3) 3, set_counters c3 3 k)"
    unfolding c3_def assms(4) by (rule block) (use c a in \<open>simp_all add: NPROCS_s_def c2_def\<close>)
  have b4: "sched_picks (s 4) (set_counters c3 3 k) = Some (replicate (s 4) 4, set_counters c4 4 k)"
    unfolding c4_def assms(4) by (rule block) (use c a in \<open>simp_all add: NPROCS_s_def c3_def c2_def\<close>)
  have b1: "sched_picks (s 1) (set_counters c4 4 k) =
      Some (replicate (s 1) 1, set_counters (c4(4 := 0, 1 := p_share (table k 1))) 1 k)"
    unfolding assms(4) by (rule block) (use c a in \<open>simp_all add: NPROCS_s_def c4_def c3_def c2_def\<close>)
  have "c4(4 := 0, 1 := p_share (table k 1)) = c"
    using c by (auto simp: c4_def c3_def c2_def fun_eq_iff)
  then show ?thesis
    using sched_picks_append [OF sched_picks_append [OF sched_picks_append [OF b2 b3] b4] b1] k
    by simp
qed

text \<open>The boot parameters with the share scheduler chosen.\<close>

definition demo_sched :: "int \<Rightarrow> sched" where
  "demo_sched algorithm = \<lparr>table = boot_parameters (\<lambda>i. (empty_table i)
       \<lparr>state_s := (if 1 \<le> i \<and> i < 5 then P_RUNNABLE else P_EMPTY)\<rparr>),
     current_s = 1, scheduling_algorithm = algorithm, rand = rng0, ram_s = (\<lambda>_. 0),
     screen_s = \<lparr>cells = (\<lambda>_. 0), cursor = 0\<rparr>\<rparr>"

lemma demo_sched_table:
  "p \<in> {1, 2, 3, 4} \<Longrightarrow> table (demo_sched a) p = \<lparr>pid_s = p, registers_s = zero_registers,
     state_s = P_RUNNABLE, exit_status_s = 0, p_priority = int p, p_share = int p,
     p_counter = (if p = 1 then 1 else 0), p_ticket = int p\<rparr>"
  by (auto simp: demo_sched_def boot_parameters_def boot_process_def empty_table_def)

lemma demo_sched_ready: "share_ready (demo_sched 3)"
proof -
  have "p \<in> {1 ..< NPROCS_s} \<Longrightarrow> p \<in> {1, 2, 3, 4}" for p by (auto simp: NPROCS_s_def)
  then show ?thesis
    unfolding share_ready_def
    by (intro conjI ballI) (simp_all add: demo_sched_table, auto simp: demo_sched_def)
qed

lemma share_cycle_witness:
  "sched_picks 10 (demo_sched 3) = Some ([2, 2, 3, 3, 3, 4, 4, 4, 4, 1], demo_sched 3)"
proof -
  have "p \<in> {1 ..< NPROCS_s} \<Longrightarrow> p \<in> {1, 2, 3, 4}" for p by (auto simp: NPROCS_s_def)
  then have cnt: "\<forall>p \<in> {1 ..< NPROCS_s}. p_counter (table (demo_sched 3) p) =
      (if p = 1 then p_share (table (demo_sched 3) 1) else 0)"
    by (intro ballI) (simp add: demo_sched_table)
  have cur: "current_s (demo_sched 3) = 1" by (simp add: demo_sched_def)
  show ?thesis
    using share_cycle [OF demo_sched_ready cur cnt refl]
    by (simp add: demo_sched_table numeral_eq_Suc)
qed

text \<open>A process whose counter passed its share is not chosen again; alone, it hangs the kernel.\<close>

lemma share_loop_chosen:
  assumes "share_loop t x = Some (t', p)" "x < NPROCS_s"
  shows "\<exists>q. runnable_s t q \<and> p_counter (t q) \<le> p_share (t q) \<and> q \<in> {1 ..< NPROCS_s}"
proof -
  have "x < NPROCS_s \<longrightarrow>
      (\<exists>q. runnable_s t q \<and> p_counter (t q) \<le> p_share (t q) \<and> q \<in> {1 ..< NPROCS_s})"
  proof (rule share_loop.raw_induct [OF _ assms(1), where P = "\<lambda>t x r. x < NPROCS_s \<longrightarrow>
      (\<exists>q. runnable_s t q \<and> p_counter (t q) \<le> p_share (t q) \<and> q \<in> {1 ..< NPROCS_s})"], intro impI)
    fix f and t :: table_s and x r
    assume IH: "\<And>t x r. f t x = Some r \<Longrightarrow> x < NPROCS_s \<longrightarrow>
        (\<exists>q. runnable_s t q \<and> p_counter (t q) \<le> p_share (t q) \<and> q \<in> {1 ..< NPROCS_s})"
      and eq: "(let p = (if x = 0 then (x + 1) mod NPROCS_s else x)
        in if runnable_s t p \<and> p_counter (t p) < p_share (t p)
           then Some (t(p := (t p)\<lparr>p_counter := p_counter (t p) + 1\<rparr>), p)
           else if runnable_s t p \<and> p_counter (t p) = p_share (t (p mod NPROCS_s))
           then f (t(p := (t p)\<lparr>p_counter := 0\<rparr>)) ((p + 1) mod NPROCS_s)
           else f t ((p + 1) mod NPROCS_s)) = Some r"
      and x: "x < NPROCS_s"
    define p where "p = (if x = 0 then (x + 1) mod NPROCS_s else x)"
    have p: "p \<in> {1 ..< NPROCS_s}" using x by (auto simp: p_def NPROCS_s_def)
    show "\<exists>q. runnable_s t q \<and> p_counter (t q) \<le> p_share (t q) \<and> q \<in> {1 ..< NPROCS_s}"
    proof (cases "runnable_s t p \<and> p_counter (t p) \<le> p_share (t p)")
      case True
      then show ?thesis using p by blast
    next
      case False
      then have "f t ((p + 1) mod NPROCS_s) = Some r"
        using eq p unfolding p_def [symmetric] Let_def by (auto split: if_splits)
      then show ?thesis using IH [of t "(p + 1) mod NPROCS_s" r] by (simp add: NPROCS_s_def)
    qed
  qed
  then show ?thesis using assms(2) by blast
qed

lemma share_overrun_spins:
  assumes "scheduling_algorithm k = 3" "pid_s (table k (current_s k)) < NPROCS_s"
    and "\<forall>p \<in> {1 ..< NPROCS_s}. runnable_s (table k) p \<longrightarrow> p_share (table k p) < p_counter (table k p)"
  shows "schedule_s k = None"
proof -
  have "share_loop (table k) (pid_s (table k (current_s k))) = None"
    using share_loop_chosen [OF _ assms(2)] assms(3) by (cases "share_loop (table k)
        (pid_s (table k (current_s k)))") fastforce+
  then show ?thesis using assms(1) by (simp add: schedule_s_def)
qed

section \<open>The lottery\<close>

lemma lottery_draw:
  assumes "getRandNum g = (r, g')" "r smod 4 + 1 = i"
  shows "lottery_loop t g =
    (if i < 0 \<or> 5 \<le> i then Some (Outside i g')
     else if runnable_s t (nat i) \<and> i = p_ticket (t (nat i)) then Some (Drawn (nat i) g')
     else lottery_loop t g')"
  using assms by (subst lottery_loop.simps) (simp add: NPROCS_s_def)

text \<open>The first six numbers the generator gives after boot.\<close>

lemma draws:
  "getRandNum rng0 = (805050650, \<lparr>rng_x = 362092, rng_y = 895104, rng_z = 805050650\<rparr>)"
  "getRandNum (\<lparr>rng_x = 362092, rng_y = 895104, rng_z = 805050650\<rparr>) = (-1457590405, \<lparr>rng_x = 895104, rng_y = 805050650, rng_z = 2837376891\<rparr>)"
  "getRandNum (\<lparr>rng_x = 895104, rng_y = 805050650, rng_z = 2837376891\<rparr>) = (1891153965, \<lparr>rng_x = 805050650, rng_y = 2837376891, rng_z = 1891153965\<rparr>)"
  "getRandNum (\<lparr>rng_x = 805050650, rng_y = 2837376891, rng_z = 1891153965\<rparr>) = (-2141901536, \<lparr>rng_x = 2837376891, rng_y = 1891153965, rng_z = 2153065760\<rparr>)"
  "getRandNum (\<lparr>rng_x = 2837376891, rng_y = 1891153965, rng_z = 2153065760\<rparr>) = (1008129293, \<lparr>rng_x = 1891153965, rng_y = 2153065760, rng_z = 1008129293\<rparr>)"
  "getRandNum (\<lparr>rng_x = 1891153965, rng_y = 2153065760, rng_z = 1008129293\<rparr>) = (-282016231, \<lparr>rng_x = 2153065760, rng_y = 1008129293, rng_z = 4012951065\<rparr>)"
  by (simp_all add: getRandNum_def rng0_def Let_def)

lemma tickets:
  "(805050650 :: int) smod 4 + 1 = 3"
  "(-1457590405 :: int) smod 4 + 1 = 0"
  "(1891153965 :: int) smod 4 + 1 = 2"
  "(-2141901536 :: int) smod 4 + 1 = 1"
  "(1008129293 :: int) smod 4 + 1 = 2"
  "(-282016231 :: int) smod 4 + 1 = -2"
  by (simp_all add: signed_modulo_int_def)

text \<open>the lottery draws a negative ticket. The generator's number is signed, so its remainder can
  be negative: after boot, with all four processes runnable and holding their tickets, the
  lottery runs 3, 2, 1 and 2, and the fifth decision reads \<open>proc_array\<close> at index -2.
\<close>

theorem lottery_leaves_table:
  assumes "scheduling_algorithm k = 4" "rand k = rng0" "\<not> runnable_s (table k) 0"
    and "\<forall>p \<in> {1, 2, 3, 4}. runnable_s (table k) p \<and> p_ticket (table k p) = int p"
  shows "\<exists>k'. sched_picks 4 k = Some ([3, 2, 1, 2], k') \<and> schedule_s k' = Some (Out_of_table (-2))"
proof -
  note draw = lottery_draw [OF draws(1) tickets(1)] lottery_draw [OF draws(2) tickets(2)]
    lottery_draw [OF draws(3) tickets(3)] lottery_draw [OF draws(4) tickets(4)]
    lottery_draw [OF draws(5) tickets(5)] lottery_draw [OF draws(6) tickets(6)]
  have step: "schedule_s (k\<lparr>rand := g, current_s := c\<rparr>) =
      map_option (\<lambda>l. case l of Drawn p g' \<Rightarrow> Runs (k\<lparr>rand := g', current_s := p\<rparr>)
        | Outside i g' \<Rightarrow> Out_of_table i) (lottery_loop (table k) g)" for g c
    using assms(1) by (auto simp: schedule_s_def Let_def run_s_def split: lottery.splits
        intro!: arg_cong2 [where f = map_option] ext)
  have k: "k\<lparr>rand := rng0, current_s := current_s k\<rparr> = k" using assms(2) by simp
  have s1: "schedule_s k = Some (Runs (k\<lparr>rand := \<lparr>rng_x = 362092, rng_y = 895104, rng_z = 805050650\<rparr>, current_s := 3\<rparr>))"
    using step [of "current_s k" rng0, unfolded k] assms(3,4) by (simp add: draw)
  have s2: "schedule_s (k\<lparr>rand := \<lparr>rng_x = 362092, rng_y = 895104, rng_z = 805050650\<rparr>, current_s := 3\<rparr>) = Some (Runs (k\<lparr>rand := \<lparr>rng_x = 805050650, rng_y = 2837376891, rng_z = 1891153965\<rparr>, current_s := 2\<rparr>))"
    using assms(3,4) by (simp add: step draw)
  have s3: "schedule_s (k\<lparr>rand := \<lparr>rng_x = 805050650, rng_y = 2837376891, rng_z = 1891153965\<rparr>, current_s := 2\<rparr>) = Some (Runs (k\<lparr>rand := \<lparr>rng_x = 2837376891, rng_y = 1891153965, rng_z = 2153065760\<rparr>, current_s := 1\<rparr>))"
    using assms(3,4) by (simp add: step draw)
  have s4: "schedule_s (k\<lparr>rand := \<lparr>rng_x = 2837376891, rng_y = 1891153965, rng_z = 2153065760\<rparr>, current_s := 1\<rparr>) = Some (Runs (k\<lparr>rand := \<lparr>rng_x = 1891153965, rng_y = 2153065760, rng_z = 1008129293\<rparr>, current_s := 2\<rparr>))"
    using assms(3,4) by (simp add: step draw)
  have "sched_picks (Suc (Suc (Suc (Suc 0)))) k = Some ([3, 2, 1, 2], k\<lparr>rand := \<lparr>rng_x = 1891153965, rng_y = 2153065760, rng_z = 1008129293\<rparr>, current_s := 2\<rparr>)"
    by (simp add: s1 s2 s3 s4 del: One_nat_def)
  then have "sched_picks 4 k = Some ([3, 2, 1, 2], k\<lparr>rand := \<lparr>rng_x = 1891153965, rng_y = 2153065760, rng_z = 1008129293\<rparr>, current_s := 2\<rparr>)" by (simp only: numeral_eq_Suc pred_numeral_simps BitM.simps)
  moreover have "schedule_s (k\<lparr>rand := \<lparr>rng_x = 1891153965, rng_y = 2153065760, rng_z = 1008129293\<rparr>, current_s := 2\<rparr>) = Some (Out_of_table (-2))"
    by (simp add: step draw)
  ultimately show ?thesis by blast
qed

lemma lottery_leaves_table_witness:
  "\<exists>k'. sched_picks 4 (demo_sched 4) = Some ([3, 2, 1, 2], k') \<and>
     schedule_s k' = Some (Out_of_table (-2))"
  by (rule lottery_leaves_table)
    (auto simp: demo_sched_table, auto simp: demo_sched_def boot_parameters_def boot_process_def)

lemma priority_runs_best_witness:
  "\<exists>d q. 0 < d \<and> d \<le> NPROCS_s \<and> q = (1 + d) mod NPROCS_s \<and>
    schedule_s (demo_sched 2) = Some (Runs (run_s (demo_sched 2) q))"
proof -
  have a: "scheduling_algorithm (demo_sched 2) = 2" "current_s (demo_sched 2) = 1"
    by (simp_all add: demo_sched_def)
  have pid: "1 = pid_s (table (demo_sched 2) (current_s (demo_sched 2)))"
    by (simp add: a demo_sched_table)
  have r: "runnable_s (table (demo_sched 2)) 3" "3 < NPROCS_s" "1 < NPROCS_s"
    "p_priority (table (demo_sched 2) 3) < 100"
    by (simp_all add: demo_sched_table NPROCS_s_def)
  from priority_runs_best [OF a(1) pid r] show ?thesis by blast
qed

end
