(* ===== verification/Md5.thy ===== *)
theory Md5
  imports Prelude
begin

text \<open>
  The two MD5 implementations of the repository, \<open>Lab4/md5.c\<close> (the peer-to-peer client) and
  \<open>Lab3/md5.c\<close> (the file-system tools), against one reference: pad the message, split it into
  blocks, fold the compression function. A message block is a list of bytes; 32-bit words are
  read in little-endian order, as on the i386 target (the big-endian branches of the sources are
  not compiled). The four registers are a tuple; a buffer of 64 bytes is a list of length 64.
\<close>

section \<open>The compression function of Lab 4\<close>

type_synonym abcd = "u32 \<times> u32 \<times> u32 \<times> u32"

definition T_MASK :: u32 where [const_defs]: "T_MASK = NOT 0"

definition ROTATE_LEFT :: "u32 \<Rightarrow> nat \<Rightarrow> u32" where
  "ROTATE_LEFT x n = push_bit n x OR drop_bit (32 - n) x"

definition md5_F :: "u32 \<Rightarrow> u32 \<Rightarrow> u32 \<Rightarrow> u32" where "md5_F x y z = (x AND y) OR (NOT x AND z)"
definition md5_G :: "u32 \<Rightarrow> u32 \<Rightarrow> u32 \<Rightarrow> u32" where "md5_G x y z = (x AND z) OR (y AND NOT z)"
definition md5_H :: "u32 \<Rightarrow> u32 \<Rightarrow> u32 \<Rightarrow> u32" where "md5_H x y z = x XOR y XOR z"
definition md5_I :: "u32 \<Rightarrow> u32 \<Rightarrow> u32 \<Rightarrow> u32" where "md5_I x y z = y XOR (x OR NOT z)"

definition SET :: "(u32 \<Rightarrow> u32 \<Rightarrow> u32 \<Rightarrow> u32) \<Rightarrow> u32 \<Rightarrow> u32 \<Rightarrow> u32 \<Rightarrow> u32 \<Rightarrow> u32 \<Rightarrow> nat \<Rightarrow> u32 \<Rightarrow> u32" where
  "SET f a b c d x s Ti = (let t = a + f b c d + x + Ti in ROTATE_LEFT t s + b)"

text \<open>The words of a block, four bytes each.\<close>

definition block_words :: "u8 list \<Rightarrow> nat \<Rightarrow> u32" where
  "block_words data k = load32 (\<lambda>i. data ! i) (4 * k)"

definition md5_process :: "abcd \<Rightarrow> u8 list \<Rightarrow> abcd" where
  "md5_process abcd data =
     (let (a0, b0, c0, d0) = abcd; a = a0; b = b0; c = c0; d = d0;
          X = block_words data;
          a = SET md5_F a b c d (X 0) 7 (T_MASK XOR 0x28955b87);
          d = SET md5_F d a b c (X 1) 12 (T_MASK XOR 0x173848a9);
          c = SET md5_F c d a b (X 2) 17 0x242070db;
          b = SET md5_F b c d a (X 3) 22 (T_MASK XOR 0x3e423111);
          a = SET md5_F a b c d (X 4) 7 (T_MASK XOR 0x0a83f050);
          d = SET md5_F d a b c (X 5) 12 0x4787c62a;
          c = SET md5_F c d a b (X 6) 17 (T_MASK XOR 0x57cfb9ec);
          b = SET md5_F b c d a (X 7) 22 (T_MASK XOR 0x02b96afe);
          a = SET md5_F a b c d (X 8) 7 0x698098d8;
          d = SET md5_F d a b c (X 9) 12 (T_MASK XOR 0x74bb0850);
          c = SET md5_F c d a b (X 10) 17 (T_MASK XOR 0x0000a44e);
          b = SET md5_F b c d a (X 11) 22 (T_MASK XOR 0x76a32841);
          a = SET md5_F a b c d (X 12) 7 0x6b901122;
          d = SET md5_F d a b c (X 13) 12 (T_MASK XOR 0x02678e6c);
          c = SET md5_F c d a b (X 14) 17 (T_MASK XOR 0x5986bc71);
          b = SET md5_F b c d a (X 15) 22 0x49b40821;
          a = SET md5_G a b c d (X 1) 5 (T_MASK XOR 0x09e1da9d);
          d = SET md5_G d a b c (X 6) 9 (T_MASK XOR 0x3fbf4cbf);
          c = SET md5_G c d a b (X 11) 14 0x265e5a51;
          b = SET md5_G b c d a (X 0) 20 (T_MASK XOR 0x16493855);
          a = SET md5_G a b c d (X 5) 5 (T_MASK XOR 0x29d0efa2);
          d = SET md5_G d a b c (X 10) 9 0x02441453;
          c = SET md5_G c d a b (X 15) 14 (T_MASK XOR 0x275e197e);
          b = SET md5_G b c d a (X 4) 20 (T_MASK XOR 0x182c0437);
          a = SET md5_G a b c d (X 9) 5 0x21e1cde6;
          d = SET md5_G d a b c (X 14) 9 (T_MASK XOR 0x3cc8f829);
          c = SET md5_G c d a b (X 3) 14 (T_MASK XOR 0x0b2af278);
          b = SET md5_G b c d a (X 8) 20 0x455a14ed;
          a = SET md5_G a b c d (X 13) 5 (T_MASK XOR 0x561c16fa);
          d = SET md5_G d a b c (X 2) 9 (T_MASK XOR 0x03105c07);
          c = SET md5_G c d a b (X 7) 14 0x676f02d9;
          b = SET md5_G b c d a (X 12) 20 (T_MASK XOR 0x72d5b375);
          a = SET md5_H a b c d (X 5) 4 (T_MASK XOR 0x0005c6bd);
          d = SET md5_H d a b c (X 8) 11 (T_MASK XOR 0x788e097e);
          c = SET md5_H c d a b (X 11) 16 0x6d9d6122;
          b = SET md5_H b c d a (X 14) 23 (T_MASK XOR 0x021ac7f3);
          a = SET md5_H a b c d (X 1) 4 (T_MASK XOR 0x5b4115bb);
          d = SET md5_H d a b c (X 4) 11 0x4bdecfa9;
          c = SET md5_H c d a b (X 7) 16 (T_MASK XOR 0x0944b49f);
          b = SET md5_H b c d a (X 10) 23 (T_MASK XOR 0x4140438f);
          a = SET md5_H a b c d (X 13) 4 0x289b7ec6;
          d = SET md5_H d a b c (X 0) 11 (T_MASK XOR 0x155ed805);
          c = SET md5_H c d a b (X 3) 16 (T_MASK XOR 0x2b10cf7a);
          b = SET md5_H b c d a (X 6) 23 0x04881d05;
          a = SET md5_H a b c d (X 9) 4 (T_MASK XOR 0x262b2fc6);
          d = SET md5_H d a b c (X 12) 11 (T_MASK XOR 0x1924661a);
          c = SET md5_H c d a b (X 15) 16 0x1fa27cf8;
          b = SET md5_H b c d a (X 2) 23 (T_MASK XOR 0x3b53a99a);
          a = SET md5_I a b c d (X 0) 6 (T_MASK XOR 0x0bd6ddbb);
          d = SET md5_I d a b c (X 7) 10 0x432aff97;
          c = SET md5_I c d a b (X 14) 15 (T_MASK XOR 0x546bdc58);
          b = SET md5_I b c d a (X 5) 21 (T_MASK XOR 0x036c5fc6);
          a = SET md5_I a b c d (X 12) 6 0x655b59c3;
          d = SET md5_I d a b c (X 3) 10 (T_MASK XOR 0x70f3336d);
          c = SET md5_I c d a b (X 10) 15 (T_MASK XOR 0x00100b82);
          b = SET md5_I b c d a (X 1) 21 (T_MASK XOR 0x7a7ba22e);
          a = SET md5_I a b c d (X 8) 6 0x6fa87e4f;
          d = SET md5_I d a b c (X 15) 10 (T_MASK XOR 0x01d3191f);
          c = SET md5_I c d a b (X 6) 15 (T_MASK XOR 0x5cfebceb);
          b = SET md5_I b c d a (X 13) 21 0x4e0811a1;
          a = SET md5_I a b c d (X 4) 6 (T_MASK XOR 0x08ac817d);
          d = SET md5_I d a b c (X 11) 10 (T_MASK XOR 0x42c50dca);
          c = SET md5_I c d a b (X 2) 15 0x2ad7d2bb;
          b = SET md5_I b c d a (X 9) 21 (T_MASK XOR 0x14792c6e)
      in (a0 + a, b0 + b, c0 + c, d0 + d))"

section \<open>The compression function of Lab 3\<close>

definition md5_FF :: "u32 \<Rightarrow> u32 \<Rightarrow> u32 \<Rightarrow> u32" where "md5_FF b c d = d XOR (b AND (c XOR d))"
definition md5_FG :: "u32 \<Rightarrow> u32 \<Rightarrow> u32 \<Rightarrow> u32" where "md5_FG b c d = md5_FF d b c"
definition md5_FH :: "u32 \<Rightarrow> u32 \<Rightarrow> u32 \<Rightarrow> u32" where "md5_FH b c d = b XOR c XOR d"
definition md5_FI :: "u32 \<Rightarrow> u32 \<Rightarrow> u32 \<Rightarrow> u32" where "md5_FI b c d = c XOR (b OR NOT d)"

definition rol :: "u32 \<Rightarrow> nat \<Rightarrow> u32" where
  "rol x n = push_bit n x OR drop_bit (32 - n) x"

definition OP :: "(u32 \<Rightarrow> u32 \<Rightarrow> u32 \<Rightarrow> u32) \<Rightarrow> u32 \<Rightarrow> u32 \<Rightarrow> u32 \<Rightarrow> u32 \<Rightarrow> u32 \<Rightarrow> nat \<Rightarrow> u32 \<Rightarrow> u32" where
  "OP f a b c d x s T = (let a = a + (f b c d + x + T); a = rol a s in a + b)"

definition transform :: "abcd \<Rightarrow> u8 list \<Rightarrow> abcd" where
  "transform abcd data =
     (let (a0, b0, c0, d0) = abcd; a = a0; b = b0; c = c0; d = d0;
          correct_words = block_words data;
          a = OP md5_FF a b c d (correct_words 0) 7 0xd76aa478;
          d = OP md5_FF d a b c (correct_words 1) 12 0xe8c7b756;
          c = OP md5_FF c d a b (correct_words 2) 17 0x242070db;
          b = OP md5_FF b c d a (correct_words 3) 22 0xc1bdceee;
          a = OP md5_FF a b c d (correct_words 4) 7 0xf57c0faf;
          d = OP md5_FF d a b c (correct_words 5) 12 0x4787c62a;
          c = OP md5_FF c d a b (correct_words 6) 17 0xa8304613;
          b = OP md5_FF b c d a (correct_words 7) 22 0xfd469501;
          a = OP md5_FF a b c d (correct_words 8) 7 0x698098d8;
          d = OP md5_FF d a b c (correct_words 9) 12 0x8b44f7af;
          c = OP md5_FF c d a b (correct_words 10) 17 0xffff5bb1;
          b = OP md5_FF b c d a (correct_words 11) 22 0x895cd7be;
          a = OP md5_FF a b c d (correct_words 12) 7 0x6b901122;
          d = OP md5_FF d a b c (correct_words 13) 12 0xfd987193;
          c = OP md5_FF c d a b (correct_words 14) 17 0xa679438e;
          b = OP md5_FF b c d a (correct_words 15) 22 0x49b40821;
          a = OP md5_FG a b c d (correct_words 1) 5 0xf61e2562;
          d = OP md5_FG d a b c (correct_words 6) 9 0xc040b340;
          c = OP md5_FG c d a b (correct_words 11) 14 0x265e5a51;
          b = OP md5_FG b c d a (correct_words 0) 20 0xe9b6c7aa;
          a = OP md5_FG a b c d (correct_words 5) 5 0xd62f105d;
          d = OP md5_FG d a b c (correct_words 10) 9 0x02441453;
          c = OP md5_FG c d a b (correct_words 15) 14 0xd8a1e681;
          b = OP md5_FG b c d a (correct_words 4) 20 0xe7d3fbc8;
          a = OP md5_FG a b c d (correct_words 9) 5 0x21e1cde6;
          d = OP md5_FG d a b c (correct_words 14) 9 0xc33707d6;
          c = OP md5_FG c d a b (correct_words 3) 14 0xf4d50d87;
          b = OP md5_FG b c d a (correct_words 8) 20 0x455a14ed;
          a = OP md5_FG a b c d (correct_words 13) 5 0xa9e3e905;
          d = OP md5_FG d a b c (correct_words 2) 9 0xfcefa3f8;
          c = OP md5_FG c d a b (correct_words 7) 14 0x676f02d9;
          b = OP md5_FG b c d a (correct_words 12) 20 0x8d2a4c8a;
          a = OP md5_FH a b c d (correct_words 5) 4 0xfffa3942;
          d = OP md5_FH d a b c (correct_words 8) 11 0x8771f681;
          c = OP md5_FH c d a b (correct_words 11) 16 0x6d9d6122;
          b = OP md5_FH b c d a (correct_words 14) 23 0xfde5380c;
          a = OP md5_FH a b c d (correct_words 1) 4 0xa4beea44;
          d = OP md5_FH d a b c (correct_words 4) 11 0x4bdecfa9;
          c = OP md5_FH c d a b (correct_words 7) 16 0xf6bb4b60;
          b = OP md5_FH b c d a (correct_words 10) 23 0xbebfbc70;
          a = OP md5_FH a b c d (correct_words 13) 4 0x289b7ec6;
          d = OP md5_FH d a b c (correct_words 0) 11 0xeaa127fa;
          c = OP md5_FH c d a b (correct_words 3) 16 0xd4ef3085;
          b = OP md5_FH b c d a (correct_words 6) 23 0x04881d05;
          a = OP md5_FH a b c d (correct_words 9) 4 0xd9d4d039;
          d = OP md5_FH d a b c (correct_words 12) 11 0xe6db99e5;
          c = OP md5_FH c d a b (correct_words 15) 16 0x1fa27cf8;
          b = OP md5_FH b c d a (correct_words 2) 23 0xc4ac5665;
          a = OP md5_FI a b c d (correct_words 0) 6 0xf4292244;
          d = OP md5_FI d a b c (correct_words 7) 10 0x432aff97;
          c = OP md5_FI c d a b (correct_words 14) 15 0xab9423a7;
          b = OP md5_FI b c d a (correct_words 5) 21 0xfc93a039;
          a = OP md5_FI a b c d (correct_words 12) 6 0x655b59c3;
          d = OP md5_FI d a b c (correct_words 3) 10 0x8f0ccc92;
          c = OP md5_FI c d a b (correct_words 10) 15 0xffeff47d;
          b = OP md5_FI b c d a (correct_words 1) 21 0x85845dd1;
          a = OP md5_FI a b c d (correct_words 8) 6 0x6fa87e4f;
          d = OP md5_FI d a b c (correct_words 15) 10 0xfe2ce6e0;
          c = OP md5_FI c d a b (correct_words 6) 15 0xa3014314;
          b = OP md5_FI b c d a (correct_words 13) 21 0x4e0811a1;
          a = OP md5_FI a b c d (correct_words 4) 6 0xf7537e82;
          d = OP md5_FI d a b c (correct_words 11) 10 0xbd3af235;
          c = OP md5_FI c d a b (correct_words 2) 15 0x2ad7d2bb;
          b = OP md5_FI b c d a (correct_words 9) 21 0xeb86d391
      in (a0 + a, b0 + b, c0 + c, d0 + d))"

section \<open>They are the same function\<close>

lemma FF_is_F: "md5_FF = md5_F"
  by (intro ext bit_word_eqI) (auto simp: md5_FF_def md5_F_def bit_simps)

lemma FG_is_G: "md5_FG = md5_G"
  by (intro ext bit_word_eqI) (auto simp: md5_FG_def md5_FF_def md5_G_def bit_simps)

lemma FH_is_H: "md5_FH = md5_H"
  by (intro ext) (simp add: md5_FH_def md5_H_def)

lemma FI_is_I: "md5_FI = md5_I"
  by (intro ext) (simp add: md5_FI_def md5_I_def)

lemma OP_is_SET: "OP = SET"
  by (intro ext) (simp add: OP_def SET_def Let_def rol_def ROTATE_LEFT_def add.assoc)

lemma mask_constants:
  "T_MASK XOR 0x0000a44e = 0xffff5bb1"
  "T_MASK XOR 0x0005c6bd = 0xfffa3942"
  "T_MASK XOR 0x00100b82 = 0xffeff47d"
  "T_MASK XOR 0x01d3191f = 0xfe2ce6e0"
  "T_MASK XOR 0x021ac7f3 = 0xfde5380c"
  "T_MASK XOR 0x02678e6c = 0xfd987193"
  "T_MASK XOR 0x02b96afe = 0xfd469501"
  "T_MASK XOR 0x03105c07 = 0xfcefa3f8"
  "T_MASK XOR 0x036c5fc6 = 0xfc93a039"
  "T_MASK XOR 0x08ac817d = 0xf7537e82"
  "T_MASK XOR 0x0944b49f = 0xf6bb4b60"
  "T_MASK XOR 0x09e1da9d = 0xf61e2562"
  "T_MASK XOR 0x0a83f050 = 0xf57c0faf"
  "T_MASK XOR 0x0b2af278 = 0xf4d50d87"
  "T_MASK XOR 0x0bd6ddbb = 0xf4292244"
  "T_MASK XOR 0x14792c6e = 0xeb86d391"
  "T_MASK XOR 0x155ed805 = 0xeaa127fa"
  "T_MASK XOR 0x16493855 = 0xe9b6c7aa"
  "T_MASK XOR 0x173848a9 = 0xe8c7b756"
  "T_MASK XOR 0x182c0437 = 0xe7d3fbc8"
  "T_MASK XOR 0x1924661a = 0xe6db99e5"
  "T_MASK XOR 0x262b2fc6 = 0xd9d4d039"
  "T_MASK XOR 0x275e197e = 0xd8a1e681"
  "T_MASK XOR 0x28955b87 = 0xd76aa478"
  "T_MASK XOR 0x29d0efa2 = 0xd62f105d"
  "T_MASK XOR 0x2b10cf7a = 0xd4ef3085"
  "T_MASK XOR 0x3b53a99a = 0xc4ac5665"
  "T_MASK XOR 0x3cc8f829 = 0xc33707d6"
  "T_MASK XOR 0x3e423111 = 0xc1bdceee"
  "T_MASK XOR 0x3fbf4cbf = 0xc040b340"
  "T_MASK XOR 0x4140438f = 0xbebfbc70"
  "T_MASK XOR 0x42c50dca = 0xbd3af235"
  "T_MASK XOR 0x546bdc58 = 0xab9423a7"
  "T_MASK XOR 0x561c16fa = 0xa9e3e905"
  "T_MASK XOR 0x57cfb9ec = 0xa8304613"
  "T_MASK XOR 0x5986bc71 = 0xa679438e"
  "T_MASK XOR 0x5b4115bb = 0xa4beea44"
  "T_MASK XOR 0x5cfebceb = 0xa3014314"
  "T_MASK XOR 0x70f3336d = 0x8f0ccc92"
  "T_MASK XOR 0x72d5b375 = 0x8d2a4c8a"
  "T_MASK XOR 0x74bb0850 = 0x8b44f7af"
  "T_MASK XOR 0x76a32841 = 0x895cd7be"
  "T_MASK XOR 0x788e097e = 0x8771f681"
  "T_MASK XOR 0x7a7ba22e = 0x85845dd1"
  by (simp_all add: T_MASK_def)

lemma transform_is_md5_process: "transform = md5_process"
  unfolding transform_def md5_process_def OP_is_SET FF_is_F FG_is_G FH_is_H FI_is_I mask_constants
  by (rule refl)

section \<open>Streaming in Lab 4\<close>

text \<open>\<open>memcpy\<close> into a buffer held as a list.\<close>

definition blit :: "'a list \<Rightarrow> nat \<Rightarrow> 'a list \<Rightarrow> 'a list" where
  "blit buf off xs = take off buf @ xs @ drop (off + length xs) buf"

record md5_state =
  count0 :: u32
  count1 :: u32
  md5_abcd :: abcd
  md5_buf :: "u8 list"

definition md5_init :: "md5_state \<Rightarrow> md5_state" where
  "md5_init pms = pms\<lparr>count0 := 0, count1 := 0,
     md5_abcd := (0x67452301, T_MASK XOR 0x10325476, T_MASK XOR 0x67452301, 0x10325476)\<rparr>"

function process_full :: "abcd \<Rightarrow> u8 list \<Rightarrow> abcd \<times> u8 list" where
  "process_full abcd p =
     (if length p \<ge> 64 then process_full (md5_process abcd (take 64 p)) (drop 64 p) else (abcd, p))"
  by pat_completeness auto
termination by (relation "measure (\<lambda>(abcd, p). length p)") auto

declare process_full.simps [simp del]

definition md5_append :: "md5_state \<Rightarrow> u8 list \<Rightarrow> md5_state" where
  "md5_append pms data =
     (let nbytes = length data;
          offset = unat (drop_bit 3 (count0 pms) AND 63);
          nbits = push_bit 3 (of_nat nbytes) :: u32
      in if nbytes = 0 then pms
      else
        let c1 = count1 pms + of_nat (drop_bit 29 nbytes);
            c0 = count0 pms + nbits;
            c1 = (if c0 < nbits then c1 + 1 else c1);
            pms = pms\<lparr>count0 := c0, count1 := c1\<rparr>;
            copy = (if offset + nbytes > 64 then 64 - offset else nbytes);
            buf = blit (md5_buf pms) offset (take copy data)
        in if offset \<noteq> 0 \<and> offset + copy < 64 then pms\<lparr>md5_buf := buf\<rparr>
        else
          let pms1 = (if offset \<noteq> 0
                      then pms\<lparr>md5_buf := buf, md5_abcd := md5_process (md5_abcd pms) buf\<rparr> else pms);
              p = (if offset \<noteq> 0 then drop copy data else data);
              (abcd, left) = process_full (md5_abcd pms1) p;
              pms2 = pms1\<lparr>md5_abcd := abcd\<rparr>
          in if left \<noteq> [] then pms2\<lparr>md5_buf := blit (md5_buf pms2) 0 left\<rparr> else pms2)"

text \<open>\<open>data[i]\<close> and \<open>digest[i]\<close> of \<open>md5_finish\<close>: byte \<open>i\<close> of an array of words.\<close>

definition word_byte :: "u32 list \<Rightarrow> nat \<Rightarrow> u8" where
  "word_byte ws i = ucast (drop_bit ((i mod 4) * 8) (ws ! (i div 4)))"

definition abcd_list :: "abcd \<Rightarrow> u32 list" where
  "abcd_list abcd = (case abcd of (a, b, c, d) \<Rightarrow> [a, b, c, d])"

text \<open>The state that \<open>md5_finish\<close> leaves behind, and the digest it returns.\<close>

definition md5_finish_state :: "md5_state \<Rightarrow> md5_state" where
  "md5_finish_state pms =
     (let pad = 0x80 # replicate 63 0;
          data = map (word_byte [count0 pms, count1 pms]) [0..<8];
          pms1 = md5_append pms (take (unat ((55 - drop_bit 3 (count0 pms)) AND 63) + 1) pad)
      in md5_append pms1 data)"

definition md5_finish :: "md5_state \<Rightarrow> u8 list" where
  "md5_finish pms = map (word_byte (abcd_list (md5_abcd (md5_finish_state pms)))) [0..<16]"

section \<open>Streaming in Lab 3\<close>

record MD5_CONTEXT =
  regs :: abcd
  nblocks :: u32
  cbuf :: "u8 list"
  ccount :: nat
  finalized :: bool

definition md5_init3 :: "MD5_CONTEXT \<Rightarrow> MD5_CONTEXT" where
  "md5_init3 ctx = ctx\<lparr>regs := (0x67452301, 0xefcdab89, 0x98badcfe, 0x10325476),
     nblocks := 0, ccount := 0, finalized := False\<rparr>"

text \<open>The first lines of \<open>md5_update\<close>, which are all of it for a null input.\<close>

definition md5_flush :: "MD5_CONTEXT \<Rightarrow> MD5_CONTEXT" where
  "md5_flush h =
     (if ccount h = 64
      then h\<lparr>regs := transform (regs h) (cbuf h), ccount := 0, nblocks := nblocks h + 1\<rparr>
      else h)"

fun fill_buffer :: "MD5_CONTEXT \<Rightarrow> u8 list \<Rightarrow> MD5_CONTEXT \<times> u8 list" where
  "fill_buffer h [] = (h, [])"
| "fill_buffer h (c # cs) =
     (if ccount h < 64
      then fill_buffer (h\<lparr>cbuf := (cbuf h)[ccount h := c], ccount := ccount h + 1\<rparr>) cs
      else (h, c # cs))"

function transform_full :: "MD5_CONTEXT \<Rightarrow> u8 list \<Rightarrow> MD5_CONTEXT \<times> u8 list" where
  "transform_full h inbuf =
     (if length inbuf \<ge> 64
      then transform_full (h\<lparr>regs := transform (regs h) (take 64 inbuf), ccount := 0,
             nblocks := nblocks h + 1\<rparr>) (drop 64 inbuf)
      else (h, inbuf))"
  by pat_completeness auto
termination by (relation "measure (\<lambda>(h, inbuf). length inbuf)") auto

declare transform_full.simps [simp del]

definition update_blocks :: "MD5_CONTEXT \<Rightarrow> u8 list \<Rightarrow> MD5_CONTEXT" where
  "update_blocks h inbuf = (let (h, rest) = transform_full h inbuf in fst (fill_buffer h rest))"

definition md5_update :: "MD5_CONTEXT \<Rightarrow> u8 list \<Rightarrow> MD5_CONTEXT" where
  "md5_update h inbuf =
     (let h = md5_flush h
      in if ccount h \<noteq> 0
         then (let (h, rest) = fill_buffer h inbuf; h = md5_flush h
               in if rest = [] then h else update_blocks h rest)
         else update_blocks h inbuf)"

text \<open>The bit count that \<open>do_final\<close> appends, as its least and most significant words.\<close>

definition final_bits :: "u32 \<Rightarrow> nat \<Rightarrow> u32 \<times> u32" where
  "final_bits blocks count =
     (let msb = 0; t = blocks;
          lsb = push_bit 6 t;
          msb = (if lsb < t then msb + 1 else msb);
          msb = msb + drop_bit 26 t;
          t = lsb;
          lsb = t + of_nat count;
          msb = (if lsb < t then msb + 1 else msb);
          t = lsb;
          lsb = push_bit 3 t;
          msb = (if lsb < t then msb + 1 else msb);
          msb = msb + drop_bit 29 t
      in (lsb, msb))"

fun zero_pad :: "MD5_CONTEXT \<Rightarrow> nat \<Rightarrow> MD5_CONTEXT" where
  "zero_pad h 0 = h"
| "zero_pad h (Suc n) =
     zero_pad (h\<lparr>cbuf := (cbuf h)[ccount h := 0], ccount := ccount h + 1\<rparr>) n"

definition do_final :: "MD5_CONTEXT \<Rightarrow> MD5_CONTEXT" where
  "do_final h =
     (let h = md5_flush h;
          (lsb, msb) = final_bits (nblocks h) (ccount h);
          room = ccount h < 56;
          h = h\<lparr>cbuf := (cbuf h)[ccount h := 0x80], ccount := ccount h + 1\<rparr>;
          h = (if room then zero_pad h (56 - ccount h)
                else (let h = md5_flush (zero_pad h (64 - ccount h))
                      in h\<lparr>cbuf := blit (cbuf h) 0 (replicate 56 0)\<rparr>));
          buf = blit (cbuf h) 56 (map (word_byte [lsb, msb]) [0..<8]);
          abcd = transform (regs h) buf
      in h\<lparr>regs := abcd, cbuf := blit buf 0 (map (word_byte (abcd_list abcd)) [0..<16]),
            finalized := True\<rparr>)"

definition md5_final :: "MD5_CONTEXT \<Rightarrow> u8 list" where
  "md5_final ctx = take 16 (cbuf (if finalized ctx then ctx else do_final ctx))"

section \<open>Digests as text\<close>

text \<open>
  Six bits per character in Lab 4: when \<open>@\<close> is not allowed, the value it would stand for is
  replaced and only five bits are consumed. Five bits per character in Lab 3.
\<close>

definition text_chars :: string where
  "text_chars = ''abcdefghijklmnopqrstuvwxyzABCDEFGHIJKLMNOPQRSTUVWXYZ0123456789_@''"

definition digest_bits :: "u8 list \<Rightarrow> nat \<Rightarrow> nat" where
  "digest_bits digest pos =
     (let first_char = pos div 8; val = drop_bit (pos mod 8) (unat (digest ! first_char))
      in if pos + 8 > (first_char + 1) * 8 \<and> first_char < 15
         then val + push_bit (8 - pos mod 8) (unat (digest ! (first_char + 1))) else val)"

function finish_text :: "u8 list \<Rightarrow> bool \<Rightarrow> nat \<Rightarrow> string" where
  "finish_text digest allow_at pos =
     (if pos < 128 then
        (let val = digest_bits digest pos
         in if val mod 64 = 63 \<and> \<not> allow_at
            then text_chars ! 31 # finish_text digest allow_at (pos + 5)
            else text_chars ! (val mod 64) # finish_text digest allow_at (pos + 6))
      else [])"
  by pat_completeness auto
termination by (relation "measure (\<lambda>(digest, allow_at, pos). 128 - pos)") auto

declare finish_text.simps [simp del]

definition md5_finish_text :: "md5_state \<Rightarrow> bool \<Rightarrow> string" where
  "md5_finish_text pms allow_at = finish_text (md5_finish pms) allow_at 0"

function final_text :: "u8 list \<Rightarrow> nat \<Rightarrow> string" where
  "final_text buf pos =
     (if pos < 128 then ''abcdefghijklmnopqrstuvwxyz234567'' ! (digest_bits buf pos mod 32) #
        final_text buf (pos + 5)
      else [])"
  by pat_completeness auto
termination by (relation "measure (\<lambda>(buf, pos). 128 - pos)") auto

declare final_text.simps [simp del]

definition md5_final_text :: "MD5_CONTEXT \<Rightarrow> string" where
  "md5_final_text ctx = final_text (cbuf (if finalized ctx then ctx else do_final ctx)) 0"

section \<open>The reference\<close>

definition md5_iv :: abcd where
  "md5_iv = (0x67452301, 0xefcdab89, 0x98badcfe, 0x10325476)"

function md5_blocks :: "abcd \<Rightarrow> u8 list \<Rightarrow> abcd" where
  "md5_blocks abcd xs =
     (if length xs \<ge> 64 then md5_blocks (md5_process abcd (take 64 xs)) (drop 64 xs) else abcd)"
  by pat_completeness auto
termination by (relation "measure (\<lambda>(abcd, xs). length xs)") auto

declare md5_blocks.simps [simp del]

definition le_bytes :: "nat \<Rightarrow> nat \<Rightarrow> u8 list" where
  "le_bytes k n = map (\<lambda>i. of_nat (n div 256 ^ i)) [0..<k]"

text \<open>One bit, zeros up to 56 bytes modulo 64, the bit length in eight bytes.\<close>

definition md5_padding :: "nat \<Rightarrow> u8 list" where
  "md5_padding n = 0x80 # replicate ((119 - n mod 64) mod 64) 0 @ le_bytes 8 (8 * n)"

definition md5_reference :: "u8 list \<Rightarrow> u8 list" where
  "md5_reference msg =
     map (word_byte (abcd_list (md5_blocks md5_iv (msg @ md5_padding (length msg))))) [0..<16]"

lemma md5_blocks_short: "length xs < 64 \<Longrightarrow> md5_blocks a xs = a"
  by (subst md5_blocks.simps) simp

lemma md5_blocks_append: "64 dvd length xs \<Longrightarrow> md5_blocks a (xs @ ys) = md5_blocks (md5_blocks a xs) ys"
proof (induction a xs rule: md5_blocks.induct)
  case (1 a xs)
  show ?case
  proof (cases "length xs \<ge> 64")
    case True
    have "64 dvd length (drop 64 xs)" using "1.prems" by (simp add: dvd_diff_nat)
    then show ?thesis
      using 1 True by (subst (1 2) md5_blocks.simps) simp
  next
    case False
    then have "xs = []" using "1.prems" by (auto dest: dvd_imp_le)
    then show ?thesis by (simp add: md5_blocks_short)
  qed
qed

lemma md5_blocks_one: "length xs = 64 \<Longrightarrow> md5_blocks a xs = md5_process a xs"
  by (subst md5_blocks.simps) (simp add: md5_blocks_short)

lemma md5_blocks_tail:
  "64 dvd length xs \<Longrightarrow> length ys < 64 \<Longrightarrow> md5_blocks a (xs @ ys) = md5_blocks a xs"
  by (simp add: md5_blocks_append md5_blocks_short)

lemma process_full_blocks:
  "process_full a p = (md5_blocks a p, drop (64 * (length p div 64)) p)"
proof (induction a p rule: process_full.induct)
  case (1 a p)
  show ?case
  proof (cases "length p \<ge> 64")
    case True
    then have "length p div 64 = Suc ((length p - 64) div 64)" by (simp add: le_div_geq)
    then show ?thesis
      using 1 True by (subst process_full.simps, subst md5_blocks.simps) (simp add: add.commute)
  next
    case False
    then show ?thesis by (subst process_full.simps) (simp add: md5_blocks_short)
  qed
qed

section \<open>The counters\<close>

text \<open>The two words hold the length in bits.\<close>

definition bit_count :: "u32 \<Rightarrow> u32 \<Rightarrow> nat \<Rightarrow> bool" where
  "bit_count c0 c1 n \<longleftrightarrow> unat c0 + 2 ^ 32 * unat c1 = 8 * n"

lemma bit_count_words:
  assumes "bit_count c0 c1 n"
  shows "unat c0 = 8 * n mod 2 ^ 32" "unat c1 = 8 * n div 2 ^ 32"
proof -
  have lt: "unat c0 < 2 ^ 32" using unat_u32_less [of c0] by simp
  have "8 * n mod 2 ^ 32 = (unat c0 + 2 ^ 32 * unat c1) mod 2 ^ 32"
    "8 * n div 2 ^ 32 = (unat c0 + 2 ^ 32 * unat c1) div 2 ^ 32"
    using assms by (simp_all add: bit_count_def)
  then show "unat c0 = 8 * n mod 2 ^ 32" "unat c1 = 8 * n div 2 ^ 32" using lt by simp_all
qed

lemma unat_low_bits: "unat (drop_bit 3 (x :: u32) AND 63) = unat x div 8 mod 64"
proof -
  have m: "(63 :: u32) = mask 6" by (simp add: mask_eq_exp_minus_1)
  have "unat (drop_bit 3 x AND mask 6) = take_bit 6 (drop_bit 3 (unat x))"
    by (simp only: take_bit_eq_mask [symmetric] unsigned_take_bit_eq unsigned_drop_bit_eq)
      (simp add: take_bit_eq_mod)
  then show ?thesis unfolding m by (simp add: take_bit_eq_mod drop_bit_eq_div)
qed

lemma bit_count_offset: "bit_count c0 c1 n \<Longrightarrow> unat (drop_bit 3 c0 AND 63) = n mod 64"
proof -
  assume "bit_count c0 c1 n"
  from bit_count_words(1) [OF this] have "unat c0 = 8 * (n mod 2 ^ 29)"
    using mult_mod_right [of 8 n "2 ^ 29"] by simp
  then show ?thesis unfolding unat_low_bits by (simp add: mod_mod_cancel)
qed

lemma bit_count_add:
  assumes "bit_count c0 c1 n" "8 * (n + k) < 2 ^ 64"
    and "nb = push_bit 3 (of_nat k)" "c0' = c0 + nb"
    and "c1' = c1 + of_nat (drop_bit 29 k)"
  shows "bit_count c0' (if c0' < nb then c1' + 1 else c1') (n + k)"
proof -
  define A B m h where "A = unat c0" and "B = unat c1" and "m = 8 * k mod 2 ^ 32" and "h = 8 * k div 2 ^ 32"
  have nb: "unat nb = m"
    unfolding assms(3) m_def
    by (simp add: push_bit_eq_mult unat_mult_u32 unsigned_of_nat take_bit_eq_mod mod_mult_left_eq)
      (simp add: mult.commute)
  have AB: "A + 2 ^ 32 * B = 8 * n" using assms(1) by (simp add: bit_count_def A_def B_def)
  have km: "8 * k = m + 2 ^ 32 * h" unfolding m_def h_def by (rule mod_mult_div_eq [symmetric])
  have lt: "A < 2 ^ 32" "m < 2 ^ 32" unfolding A_def m_def using unat_u32_less [of c0] by simp_all
  have tot: "A + m + 2 ^ 32 * (B + h) < 2 ^ 64" using assms(2) AB km by (simp add: algebra_simps)
  have c0': "unat c0' = (A + m) mod 2 ^ 32" unfolding assms(4) by (simp add: unat_plus_u32 nb A_def)
  have h29: "drop_bit 29 k = h" unfolding h_def by (simp add: drop_bit_eq_div)
  have c1': "unat c1' = (B + h) mod 2 ^ 32"
    unfolding assms(5) h29 by (simp add: unat_plus_u32 unsigned_of_nat take_bit_eq_mod B_def mod_add_right_eq)
  have Bh: "B + h < 2 ^ 32" using tot by simp
  have lt_iff: "c0' < nb \<longleftrightarrow> 2 ^ 32 \<le> A + m"
  proof (cases "2 ^ 32 \<le> A + m")
    case True
    then have "unat c0' = A + m - 2 ^ 32" unfolding c0' using lt by (simp add: le_mod_geq)
    then show ?thesis using True lt by (simp add: word_less_nat_alt nb)
  next
    case False
    then show ?thesis by (simp add: word_less_nat_alt nb c0')
  qed
  show ?thesis
  proof (cases "2 ^ 32 \<le> A + m")
    case True
    have "B + h + 1 < 2 ^ 32" using tot True by simp
    then have "unat (c1' + 1) = B + h + 1" using c1' by (simp add: unat_plus_u32)
    moreover have "unat c0' = A + m - 2 ^ 32" unfolding c0' using True lt by (simp add: le_mod_geq)
    ultimately show ?thesis
      using True lt_iff AB km unfolding bit_count_def by (simp add: algebra_simps)
  next
    case False
    then show ?thesis using lt_iff c0' c1' Bh AB km unfolding bit_count_def by (simp add: algebra_simps)
  qed
qed

section \<open>Appending keeps the reference\<close>

definition md5_holds :: "u8 list \<Rightarrow> abcd \<Rightarrow> u8 list \<Rightarrow> bool" where
  "md5_holds msg abcd buf \<longleftrightarrow> length buf = 64 \<and> abcd = md5_blocks md5_iv msg \<and>
     take (length msg mod 64) buf = drop (64 * (length msg div 64)) msg"

lemma length_blit [simp]: "off + length xs \<le> length buf \<Longrightarrow> length (blit buf off xs) = length buf"
  by (simp add: blit_def)

lemma take_blit: "off + length xs \<le> length buf \<Longrightarrow> take (off + length xs) (blit buf off xs) = take off buf @ xs"
  by (simp add: blit_def)

lemma whole_blocks:
  "msg = take (64 * (length msg div 64)) msg @ drop (64 * (length msg div 64)) msg"
  "64 dvd length (take (64 * (length msg div 64)) msg)"
  "length (drop (64 * (length msg div 64)) msg) = length msg mod 64"
proof -
  have "64 * (length msg div 64) \<le> length msg" by simp
  then show "64 dvd length (take (64 * (length msg div 64)) msg)" by (simp add: min_absorb2)
qed (simp_all add: minus_mult_div_eq_mod)

lemma md5_holds_partial:
  assumes "md5_holds msg abcd buf" "length msg mod 64 + length data < 64"
  shows "md5_holds (msg @ data) abcd (blit buf (length msg mod 64) data)"
proof -
  let ?o = "length msg mod 64" and ?w = "64 * (length msg div 64)"
  have h: "length buf = 64" "abcd = md5_blocks md5_iv msg" "take ?o buf = drop ?w msg"
    using assms(1) by (simp_all add: md5_holds_def)
  have d: "length (msg @ data) div 64 = length msg div 64" "length (msg @ data) mod 64 = ?o + length data"
  proof -
    have "length msg + length data = 64 * (length msg div 64) + (?o + length data)" by simp
    then show "length (msg @ data) div 64 = length msg div 64" "length (msg @ data) mod 64 = ?o + length data"
      using assms(2) by (metis div_mult_self4 div_less length_append add.right_neutral add.commute zero_neq_numeral,
          metis mod_mult_self4 mod_less length_append)
  qed
  have "md5_blocks md5_iv (take ?w msg @ (drop ?w msg @ data)) = md5_blocks md5_iv (take ?w msg)"
    using assms(2) whole_blocks(2,3) [of msg] by (intro md5_blocks_tail) simp_all
  moreover have "md5_blocks md5_iv (take ?w msg @ drop ?w msg) = md5_blocks md5_iv (take ?w msg)"
    using whole_blocks(2,3) [of msg] by (intro md5_blocks_tail) simp_all
  ultimately have "md5_blocks md5_iv (msg @ data) = md5_blocks md5_iv msg"
    using whole_blocks(1) [of msg] by (metis append.assoc)
  moreover have "?w \<le> length msg" by simp
  ultimately show ?thesis
    using h assms(2) unfolding md5_holds_def d by (simp add: take_blit)
qed

lemma md5_holds_fill:
  assumes "md5_holds msg abcd buf" "length msg mod 64 + length data = 64"
  shows "md5_holds (msg @ data) (md5_process abcd (blit buf (length msg mod 64) data))
    (blit buf (length msg mod 64) data)" and "64 dvd length (msg @ data)"
proof -
  let ?o = "length msg mod 64" and ?w = "64 * (length msg div 64)"
  have h: "length buf = 64" "abcd = md5_blocks md5_iv msg" "take ?o buf = drop ?w msg"
    using assms(1) by (simp_all add: md5_holds_def)
  have "length msg + length data = 64 * (length msg div 64 + 1)"
    using assms(2) mult_div_mod_eq [of 64 "length msg"] by (simp only: distrib_left)
  then show dvd: "64 dvd length (msg @ data)" by (metis dvd_triv_left length_append)
  have b: "blit buf ?o data = drop ?w msg @ data"
    using h assms(2) by (simp add: blit_def)
  have "md5_blocks md5_iv (take ?w msg @ (drop ?w msg @ data)) =
      md5_blocks (md5_blocks md5_iv (take ?w msg)) (drop ?w msg @ data)"
    by (rule md5_blocks_append [OF whole_blocks(2)])
  also have "\<dots> = md5_process (md5_blocks md5_iv (take ?w msg)) (drop ?w msg @ data)"
    using assms(2) whole_blocks(3) [of msg] by (intro md5_blocks_one) simp
  also have "md5_blocks md5_iv (take ?w msg) = abcd"
    using h(2) whole_blocks [of msg] md5_blocks_tail [of "take ?w msg" "drop ?w msg" md5_iv] by simp
  finally have "md5_blocks md5_iv (msg @ data) = md5_process abcd (blit buf ?o data)"
    unfolding b using whole_blocks(1) [of msg] by (metis append.assoc)
  then show "md5_holds (msg @ data) (md5_process abcd (blit buf ?o data)) (blit buf ?o data)"
    using dvd h(1) assms(2) by (auto simp: md5_holds_def)
qed

lemma md5_holds_full:
  assumes "md5_holds msg abcd buf" "64 dvd length msg"
  shows "md5_holds (msg @ data) (md5_blocks abcd data)
    (blit buf 0 (drop (64 * (length data div 64)) data))"
proof -
  have h: "length buf = 64" "abcd = md5_blocks md5_iv msg" using assms(1) by (simp_all add: md5_holds_def)
  have d: "length (msg @ data) mod 64 = length data mod 64"
    "64 * (length (msg @ data) div 64) = length msg + 64 * (length data div 64)"
    using assms(2) by (auto elim!: dvdE)
  let ?l = "drop (64 * (length data div 64)) data"
  have l: "length ?l = length data mod 64" by (rule whole_blocks(3))
  have "take (length data mod 64) (blit buf 0 ?l) = ?l"
    using take_blit [of 0 ?l buf] h(1) l by simp
  moreover have "md5_blocks md5_iv (msg @ data) = md5_blocks abcd data"
    using md5_blocks_append [OF assms(2)] h(2) by simp
  ultimately show ?thesis
    using h(1) l assms(2) unfolding md5_holds_def d by (simp add: dvd_imp_le)
qed

definition md5_rep :: "md5_state \<Rightarrow> u8 list \<Rightarrow> bool" where
  "md5_rep pms msg \<longleftrightarrow>
     md5_holds msg (md5_abcd pms) (md5_buf pms) \<and> bit_count (count0 pms) (count1 pms) (length msg)"

lemma md5_init_rep: "length (md5_buf pms) = 64 \<Longrightarrow> md5_rep (md5_init pms) []"
  by (simp add: md5_rep_def md5_init_def md5_holds_def md5_blocks_short md5_iv_def T_MASK_def
      bit_count_def)

lemma blit_nothing: "blit buf 0 [] = buf"
  by (simp add: blit_def)

lemma md5_append_rep:
  assumes "md5_rep pms msg" "8 * (length msg + length data) < 2 ^ 64"
  shows "md5_rep (md5_append pms data) (msg @ data)"
proof (cases "data = []")
  case True
  then show ?thesis using assms(1) by (simp add: md5_append_def Let_def)
next
  case False
  define n off where "n = length data" and "off = length msg mod 64"
  define nb where "nb = (push_bit 3 (of_nat n) :: u32)"
  define c0 where "c0 = count0 pms + nb"
  define c1 where "c1 = (if c0 < nb then count1 pms + of_nat (drop_bit 29 n) + 1
    else count1 pms + of_nat (drop_bit 29 n))"
  define pms1 where "pms1 = pms\<lparr>count0 := c0, count1 := c1\<rparr>"
  have h: "md5_holds msg (md5_abcd pms1) (md5_buf pms1)" and b: "bit_count (count0 pms) (count1 pms) (length msg)"
    using assms(1) by (simp_all add: md5_rep_def pms1_def)
  have cnt: "bit_count c0 c1 (length (msg @ data))"
    using bit_count_add [OF b, of n nb c0 _] assms(2)
    by (auto simp: c1_def c0_def nb_def n_def)
  have off: "unat (drop_bit 3 (count0 pms) AND 63) = off"
    using bit_count_offset [OF b] by (simp add: off_def)
  have o64: "off < 64" by (simp add: off_def)
  let ?copy = "if off + n > 64 then 64 - off else n"
  let ?buf = "blit (md5_buf pms1) off (take ?copy data)"
  have run: "md5_append pms data =
      (if off \<noteq> 0 \<and> off + ?copy < 64 then pms1\<lparr>md5_buf := ?buf\<rparr>
       else
         let pms2 = (if off \<noteq> 0
                     then pms1\<lparr>md5_buf := ?buf, md5_abcd := md5_process (md5_abcd pms1) ?buf\<rparr> else pms1);
             p = (if off \<noteq> 0 then drop ?copy data else data);
             (abcd, left) = process_full (md5_abcd pms2) p;
             pms3 = pms2\<lparr>md5_abcd := abcd\<rparr>
         in if left \<noteq> [] then pms3\<lparr>md5_buf := blit (md5_buf pms3) 0 left\<rparr> else pms3)"
    using False unfolding md5_append_def off pms1_def c1_def c0_def nb_def n_def
    by (simp add: Let_def)
  have finish: "md5_rep (let (abcd, left) = process_full (md5_abcd q) p; q3 = q\<lparr>md5_abcd := abcd\<rparr>
      in if left \<noteq> [] then q3\<lparr>md5_buf := blit (md5_buf q3) 0 left\<rparr> else q3) (m @ p)"
    if "md5_holds m (md5_abcd q) (md5_buf q)" "64 dvd length m"
      "bit_count (count0 q) (count1 q) (length (m @ p))" for q m p
    using md5_holds_full [OF that(1,2), of p] that(3)
    by (auto simp: process_full_blocks md5_rep_def blit_nothing Let_def)
  show ?thesis
  proof (cases "off = 0")
    case True
    then have "64 dvd length msg" by (simp add: off_def mod_eq_0_iff_dvd)
    then show ?thesis
      using finish [OF h] cnt True unfolding run by (simp add: pms1_def Let_def)
  next
    case o: False
    show ?thesis
    proof (cases "off + n < 64")
      case True
      have "md5_holds (msg @ data) (md5_abcd pms1) (blit (md5_buf pms1) off data)"
        using md5_holds_partial [OF h] True by (simp add: off_def n_def)
      then show ?thesis using o True cnt unfolding run by (simp add: n_def md5_rep_def pms1_def)
    next
      case full: False
      then have c: "?copy = 64 - off" "64 - off \<le> n" by auto
      let ?d = "take (64 - off) data"
      have d: "length msg mod 64 + length ?d = 64" using c(2) o64 by (simp add: off_def n_def)
      let ?q = "pms1\<lparr>md5_buf := ?buf, md5_abcd := md5_process (md5_abcd pms1) ?buf\<rparr>"
      have "md5_holds (msg @ ?d) (md5_abcd ?q) (md5_buf ?q)"
        using md5_holds_fill(1) [OF h d] unfolding c(1) by (simp add: off_def)
      moreover have "64 dvd length (msg @ ?d)" by (rule md5_holds_fill(2) [OF h d])
      moreover have "bit_count (count0 ?q) (count1 ?q) (length ((msg @ ?d) @ drop (64 - off) data))"
        using cnt by (simp add: pms1_def)
      ultimately have "md5_rep (let (abcd, left) = process_full (md5_abcd ?q) (drop (64 - off) data);
          q3 = ?q\<lparr>md5_abcd := abcd\<rparr>
        in if left \<noteq> [] then q3\<lparr>md5_buf := blit (md5_buf q3) 0 left\<rparr> else q3) ((msg @ ?d) @ drop (64 - off) data)"
        by (rule finish)
      moreover have "\<not> (off \<noteq> 0 \<and> off + ?copy < 64)" using c o64 by simp
      ultimately show ?thesis
        using o unfolding run c(1) by (simp only: if_False simp_thms if_True Let_def append_assoc append_take_drop_id)
    qed
  qed
qed

section \<open>Finishing in Lab 4\<close>

lemma word_byte_nat:
  assumes "i < 8"
  shows "word_byte [of_nat N, of_nat (N div 2 ^ 32)] i = of_nat (N div 256 ^ i)"
proof (rule bit_word_eqI)
  fix k assume "k < LENGTH(8)"
  have N: "N div 256 ^ i = drop_bit (8 * i) N" by (simp add: drop_bit_eq_div power_mult)
  have M: "N div 2 ^ 32 = drop_bit 32 N" by (simp add: drop_bit_eq_div)
  consider "i < 4" | "i = 4 + (i - 4)" "i - 4 < 4" using assms by linarith
  then show "bit (word_byte [of_nat N, of_nat (N div 2 ^ 32)] i) k = bit (of_nat (N div 256 ^ i) :: u8) k"
  proof cases
    case 1
    then show ?thesis using \<open>k < LENGTH(8)\<close>
      unfolding N M by (auto simp: word_byte_def bit_simps mult.commute)
  next
    case 2
    define j where "j = i - 4"
    have "i = 4 + j" "j < 4" using 2 by (simp_all add: j_def)
    then show ?thesis using \<open>k < LENGTH(8)\<close>
      unfolding N M by (auto simp: word_byte_def bit_simps algebra_simps)
  qed
qed

lemma le_bytes_words: "map (word_byte [of_nat N, of_nat (N div 2 ^ 32)]) [0..<8] = le_bytes 8 N"
  unfolding le_bytes_def by (intro map_cong refl word_byte_nat) simp

lemma bit_count_bytes:
  assumes "bit_count c0 c1 n"
  shows "map (word_byte [c0, c1]) [0..<8] = le_bytes 8 (8 * n)"
proof -
  have "c0 = of_nat (8 * n mod 2 ^ 32)" "c1 = of_nat (8 * n div 2 ^ 32)"
    using bit_count_words [OF assms] by (metis of_nat_unat ucast_id)+
  moreover have "(of_nat (8 * n mod 2 ^ 32) :: u32) = of_nat (8 * n)"
    by (rule word_unat_eq_iff [THEN iffD2]) (simp only: unsigned_of_nat take_bit_eq_mod mod_mod_trivial len_bit0 len_num1, simp)
  ultimately show ?thesis using le_bytes_words [of "8 * n"] by simp
qed

lemma pad_length:
  assumes "bit_count c0 c1 n"
  shows "unat ((55 - drop_bit 3 c0) AND 63) = (119 - n mod 64) mod 64"
proof -
  have m: "(63 :: u32) = mask 6" by (simp add: mask_eq_exp_minus_1)
  have low: "uint (x AND 63) = uint x mod 64" for x :: u32
    unfolding m take_bit_eq_mask [symmetric] by (simp only: unsigned_take_bit_eq) (simp add: take_bit_eq_mod)
  let ?x = "drop_bit 3 c0"
  have "int (unat (?x AND 63)) = int (n mod 64)" using bit_count_offset [OF assms] by simp
  then have x: "uint ?x mod 64 = int n mod 64" by (simp only: uint_nat [symmetric] low zmod_int of_nat_numeral)
  have "uint ((55 - ?x) AND 63) = (55 - uint ?x) mod 2 ^ 32 mod 64"
    unfolding low by (simp add: uint_word_ariths)
  also have "\<dots> = (55 - uint ?x) mod 64" by (rule mod_mod_cancel) simp
  also have "\<dots> = (55 - int n mod 64) mod 64" unfolding x [symmetric] by (simp only: mod_diff_right_eq)
  also have "\<dots> = (119 - int n mod 64) mod 64"
  proof -
    have "119 - int n mod 64 = (55 - int n mod 64) + 64" by simp
    then show ?thesis by (simp only: mod_add_self2)
  qed
  also have "\<dots> = int ((119 - n mod 64) mod 64)"
    by (simp add: zmod_int of_nat_diff)
  finally show ?thesis by (simp only: uint_nat of_nat_eq_iff)
qed

lemma md5_finish_state_rep:
  assumes "md5_rep pms msg" "length msg < 2 ^ 60"
  shows "md5_rep (md5_finish_state pms) (msg @ md5_padding (length msg))"
proof -
  define k where "k = (119 - length msg mod 64) mod 64"
  have k: "k < 64" by (simp add: k_def)
  have b: "bit_count (count0 pms) (count1 pms) (length msg)" using assms(1) by (simp add: md5_rep_def)
  let ?z = "0x80 # replicate k (0 :: u8)"
  let ?l = "le_bytes 8 (8 * length msg)"
  have z: "take (k + 1) (0x80 # replicate 63 (0 :: u8)) = ?z"
    using k by (simp add: min_def)
  have "md5_rep (md5_append pms ?z) (msg @ ?z)"
    by (rule md5_append_rep [OF assms(1)]) (use assms(2) k in simp)
  then have "md5_rep (md5_append (md5_append pms ?z) ?l) ((msg @ ?z) @ ?l)"
    by (rule md5_append_rep) (use assms(2) k in \<open>simp add: le_bytes_def\<close>)
  moreover have "md5_finish_state pms = md5_append (md5_append pms ?z) ?l"
    unfolding md5_finish_state_def Let_def pad_length [OF b] bit_count_bytes [OF b] k_def [symmetric] z ..
  ultimately show ?thesis by (simp add: md5_padding_def k_def)
qed

lemma md5_finish_rep:
  assumes "md5_rep pms msg" "length msg < 2 ^ 60"
  shows "md5_finish pms = md5_reference msg"
  using md5_finish_state_rep [OF assms]
  by (simp add: md5_finish_def md5_reference_def md5_rep_def md5_holds_def)

lemma md5_fold_rep:
  "md5_rep st m \<Longrightarrow> length (m @ concat ps) < 2 ^ 60 \<Longrightarrow>
   md5_rep (fold (\<lambda>piece st. md5_append st piece) ps st) (m @ concat ps)"
proof (induction ps arbitrary: st m)
  case (Cons p ps)
  have "md5_rep (md5_append st p) (m @ p)"
    by (rule md5_append_rep) (use Cons.prems in simp_all)
  then show ?case using Cons.IH [of "md5_append st p" "m @ p"] Cons.prems(2) by simp
qed simp

text \<open>C25: Lab 4's MD5 is a streaming implementation of the reference: initialise the state, append
  the message in any pieces (also empty ones), and \<open>md5_finish\<close> yields the digest of the
  concatenation: the padded message cut into blocks and folded, for messages below
  \<open>2 ^ 60\<close> bytes.
\<close>

theorem md5_stream:
  assumes "length (md5_buf pms) = 64" and "length (concat pieces) < 2 ^ 60"
  shows "md5_finish (fold (\<lambda>piece st. md5_append st piece) pieces (md5_init pms)) = md5_reference (concat pieces)"
  using md5_fold_rep [OF md5_init_rep [OF assms(1)], of pieces] md5_finish_rep assms(2) by simp

lemma md5_stream_witness:
  "md5_finish (fold (\<lambda>piece st. md5_append st piece) [[0x61], [], [0x62, 0x63]]
     (md5_init \<lparr>count0 = 7, count1 = 7, md5_abcd = (0, 0, 0, 0), md5_buf = replicate 64 0\<rparr>)) =
   md5_reference [0x61, 0x62, 0x63]"
  using md5_stream [of "\<lparr>count0 = 7, count1 = 7, md5_abcd = (0, 0, 0, 0), md5_buf = replicate 64 0\<rparr>"
      "[[0x61], [], [0x62, 0x63]]"]
  by (simp del: fold_simps)

section \<open>Lab 3 keeps the reference\<close>

text \<open>The context has consumed \<open>whole\<close> blocks and holds the rest of the message in its buffer.\<close>

definition ctx_rep :: "MD5_CONTEXT \<Rightarrow> u8 list \<Rightarrow> bool" where
  "ctx_rep h msg \<longleftrightarrow> length (cbuf h) = 64 \<and> ccount h \<le> 64 \<and>
     (\<exists>whole. msg = whole @ take (ccount h) (cbuf h) \<and> length whole = 64 * unat (nblocks h) \<and>
        regs h = md5_blocks md5_iv whole)"

lemma ctx_repE:
  assumes "ctx_rep h msg"
  obtains whole where "msg = whole @ take (ccount h) (cbuf h)" "length whole = 64 * unat (nblocks h)"
    "regs h = md5_blocks md5_iv whole" "length (cbuf h) = 64" "ccount h \<le> 64"
    "length msg = 64 * unat (nblocks h) + ccount h"
  using assms by (fastforce simp: ctx_rep_def)

lemma next_block:
  assumes "length whole = 64 * unat b" "length blk = 64" "length (whole @ blk) < 2 ^ 38"
  shows "length (whole @ blk) = 64 * unat (b + 1 :: u32)"
    "md5_blocks md5_iv (whole @ blk) = transform (md5_blocks md5_iv whole) blk"
proof -
  have "unat b + 1 < 2 ^ 32" using assms by simp
  then show "length (whole @ blk) = 64 * unat (b + 1)" using assms by (simp add: unat_plus_u32)
  show "md5_blocks md5_iv (whole @ blk) = transform (md5_blocks md5_iv whole) blk"
    using assms(1,2) by (simp add: md5_blocks_append md5_blocks_one transform_is_md5_process)
qed

lemma md5_init3_rep: "length (cbuf h) = 64 \<Longrightarrow> ctx_rep (md5_init3 h) []"
  by (simp add: ctx_rep_def md5_init3_def md5_blocks_short md5_iv_def)

lemma md5_flush_rep:
  assumes "ctx_rep h msg" "length msg < 2 ^ 38"
  shows "ctx_rep (md5_flush h) msg" and "ccount (md5_flush h) < 64"
proof -
  from assms(1) obtain whole where w: "msg = whole @ take (ccount h) (cbuf h)" "length whole = 64 * unat (nblocks h)"
    "regs h = md5_blocks md5_iv whole" "length (cbuf h) = 64" "ccount h \<le> 64"
    by (rule ctx_repE)
  show "ccount (md5_flush h) < 64" using w(5) by (simp add: md5_flush_def)
  show "ctx_rep (md5_flush h) msg"
  proof (cases "ccount h = 64")
    case True
    then have "msg = whole @ cbuf h" using w by simp
    then show ?thesis
      using next_block [OF w(2,4)] w True assms(2) by (simp add: md5_flush_def ctx_rep_def)
  qed (simp add: md5_flush_def assms(1))
qed

lemma fill_buffer_rep:
  assumes "ctx_rep h msg" "fill_buffer h cs = (h', rest)"
  shows "\<exists>used. cs = used @ rest \<and> ctx_rep h' (msg @ used) \<and> (rest = [] \<or> ccount h' = 64)"
  using assms
proof (induction h cs arbitrary: msg rule: fill_buffer.induct)
  case (2 h c cs)
  show ?case
  proof (cases "ccount h < 64")
    case True
    let ?h = "h\<lparr>cbuf := (cbuf h)[ccount h := c], ccount := ccount h + 1\<rparr>"
    have "ctx_rep ?h (msg @ [c])"
      using "2.prems"(1) True unfolding ctx_rep_def
      by (auto simp: take_Suc_conv_app_nth)
    from "2.IH" [OF True this] show ?thesis using "2.prems"(2) True by fastforce
  next
    case False
    then have "ccount h = 64" using "2.prems"(1) by (simp add: ctx_rep_def)
    then show ?thesis using 2 False by auto
  qed
qed auto

lemma fill_buffer_fits: "ccount h + length cs \<le> 64 \<Longrightarrow> snd (fill_buffer h cs) = []"
  by (induction h cs rule: fill_buffer.induct) auto

lemma transform_full_rep:
  assumes "ctx_rep h msg" "ccount h = 0" "transform_full h cs = (h', rest)" "length (msg @ cs) < 2 ^ 38"
  shows "\<exists>used. cs = used @ rest \<and> ctx_rep h' (msg @ used) \<and> ccount h' = 0 \<and> length rest < 64"
  using assms
proof (induction h cs arbitrary: msg rule: transform_full.induct)
  case (1 h cs)
  show ?case
  proof (cases "length cs \<ge> 64")
    case True
    let ?h = "h\<lparr>regs := transform (regs h) (take 64 cs), ccount := 0, nblocks := nblocks h + 1\<rparr>"
    from "1.prems"(1) obtain whole where w: "msg = whole @ take (ccount h) (cbuf h)" "length whole = 64 * unat (nblocks h)"
      "regs h = md5_blocks md5_iv whole" "length (cbuf h) = 64"
      by (rule ctx_repE)
    have rep: "ctx_rep ?h (msg @ take 64 cs)"
      using next_block [OF w(2), of "take 64 cs"] w True "1.prems"(2,4) by (simp add: ctx_rep_def)
    have "\<exists>used. drop 64 cs = used @ rest \<and> ctx_rep h' ((msg @ take 64 cs) @ used) \<and> ccount h' = 0 \<and> length rest < 64"
      using "1.IH" [OF True rep] "1.prems"(3,4) True by (simp add: transform_full.simps [of h])
    then show ?thesis by (metis append.assoc append_take_drop_id)
  next
    case False
    then show ?thesis using "1.prems" by (auto simp: transform_full.simps [of h])
  qed
qed

lemma update_blocks_rep:
  assumes "ctx_rep h msg" "ccount h = 0" "length (msg @ cs) < 2 ^ 38"
  shows "ctx_rep (update_blocks h cs) (msg @ cs)"
proof -
  obtain h1 rest h2 rest2 where r: "transform_full h cs = (h1, rest)" "fill_buffer h1 rest = (h2, rest2)"
    by fastforce
  from transform_full_rep [OF assms(1,2) r(1) assms(3)] obtain used where u: "cs = used @ rest"
    "ctx_rep h1 (msg @ used)" "ccount h1 = 0" "length rest < 64" by blast
  from fill_buffer_rep [OF u(2) r(2)] obtain used2 where v: "rest = used2 @ rest2"
    "ctx_rep h2 ((msg @ used) @ used2)" "rest2 = [] \<or> ccount h2 = 64" by blast
  have "rest2 = []" using fill_buffer_fits [of h1 rest] u(3,4) r(2) by simp
  then show ?thesis using r u v by (simp add: update_blocks_def)
qed

lemma md5_update_rep:
  assumes "ctx_rep h msg" "length (msg @ data) < 2 ^ 38"
  shows "ctx_rep (md5_update h data) (msg @ data)"
proof -
  have f: "ctx_rep (md5_flush h) msg" "ccount (md5_flush h) < 64"
    using md5_flush_rep [OF assms(1)] assms(2) by simp_all
  obtain h1 rest where r: "fill_buffer (md5_flush h) data = (h1, rest)" by fastforce
  from fill_buffer_rep [OF f(1) r] obtain used where u: "data = used @ rest" "ctx_rep h1 (msg @ used)"
    "rest = [] \<or> ccount h1 = 64" by blast
  have "ctx_rep (md5_flush h1) (msg @ used)" using md5_flush_rep(1) [OF u(2)] u(1) assms(2) by simp
  moreover have "rest \<noteq> [] \<Longrightarrow> ccount (md5_flush h1) = 0" using u(3) by (simp add: md5_flush_def)
  ultimately have "ctx_rep (if rest = [] then md5_flush h1 else update_blocks (md5_flush h1) rest) (msg @ data)"
    using update_blocks_rep [of "md5_flush h1" "msg @ used" rest] u(1) assms(2) by auto
  moreover have "ccount (md5_flush h) = 0 \<Longrightarrow> ctx_rep (update_blocks (md5_flush h) data) (msg @ data)"
    using update_blocks_rep [OF f(1)] assms(2) by simp
  ultimately show ?thesis by (simp add: md5_update_def Let_def r)
qed

section \<open>Finishing in Lab 3\<close>

lemma unat_push_u32: "unat (push_bit k (x :: u32)) = 2 ^ k * unat x mod 2 ^ 32"
  by (simp only: unsigned_push_bit_eq) (simp add: take_bit_eq_mod push_bit_eq_mult mult.commute)

lemma unat_drop_u32: "unat (drop_bit k (x :: u32)) = unat x div 2 ^ k"
proof -
  have "take_bit 32 (unat x) = unat x"
    by (rule take_bit_nat_eq_self) (use unat_u32_less [of x] in simp)
  then show ?thesis by (simp only: unsigned_drop_bit_eq len_bit0 len_num1) (simp add: drop_bit_eq_div)
qed

lemma final_bits_exact:
  assumes "64 * unat b + c < 2 ^ 29" "c < 64"
  shows "final_bits b c = (of_nat (8 * (64 * unat b + c)), 0)"
proof -
  let ?l = "push_bit 6 b"
  have l: "unat ?l = 64 * unat b" using assms by (simp add: unat_push_u32)
  have lc: "unat (?l + of_nat c) = 64 * unat b + c"
    using assms by (simp add: unat_plus_u32 l unsigned_of_nat take_bit_eq_mod)
  have "unat (push_bit 3 (?l + of_nat c)) = 8 * (64 * unat b + c)"
    using assms by (simp add: unat_push_u32 lc)
  then have "push_bit 3 (?l + of_nat c) = of_nat (8 * (64 * unat b + c))"
    by (metis of_nat_unat ucast_id)
  moreover have "drop_bit 26 b = 0" "drop_bit 29 (?l + of_nat c) = 0"
    using assms lc unfolding unat_eq_iff_u32 unat_drop_u32 by simp_all
  moreover have "\<not> ?l < b" "\<not> ?l + of_nat c < ?l" "\<not> push_bit 3 (?l + of_nat c) < ?l + of_nat c"
    using l lc \<open>unat (push_bit 3 (?l + of_nat c)) = _\<close> by (simp_all add: word_less_nat_alt)
  ultimately show ?thesis by (simp add: final_bits_def Let_def)
qed

lemma zero_pad_blit:
  "ccount h + k \<le> length (cbuf h) \<Longrightarrow>
   zero_pad h k = h\<lparr>cbuf := take (ccount h) (cbuf h) @ replicate k 0 @ drop (ccount h + k) (cbuf h),
     ccount := ccount h + k\<rparr>"
proof (induction k arbitrary: h)
  case (Suc k)
  let ?h = "h\<lparr>cbuf := (cbuf h)[ccount h := 0], ccount := ccount h + 1\<rparr>"
  have "zero_pad h (Suc k) = ?h\<lparr>cbuf := take (ccount ?h) (cbuf ?h) @ replicate k 0 @ drop (ccount ?h + k) (cbuf ?h),
     ccount := ccount ?h + k\<rparr>"
    using Suc.IH [of ?h] Suc.prems by simp
  then show ?case using Suc.prems by (simp add: take_Suc_conv_app_nth)
qed simp

lemma do_final_rep:
  assumes "ctx_rep h msg" "length msg < 2 ^ 29"
  shows "take 16 (cbuf (do_final h)) = md5_reference msg"
proof -
  define g c whole where "g = md5_flush h" and "c = ccount g" and
    "whole = take (64 * unat (nblocks g)) msg"
  have g: "ctx_rep g msg" and c: "c < 64"
    using md5_flush_rep [OF assms(1)] assms(2) by (simp_all add: g_def c_def)
  from g have w: "msg = whole @ take c (cbuf g)" "length whole = 64 * unat (nblocks g)"
    "regs g = md5_blocks md5_iv whole" "length (cbuf g) = 64"
    by (auto simp: ctx_rep_def c_def whole_def)
  have n: "length msg = 64 * unat (nblocks g) + c" using w c by (metis length_append length_take min.absorb2 min_def nat_less_le)
  define L where "L = le_bytes 8 (8 * length msg)"
  obtain lsb msb where bits: "final_bits (nblocks g) c = (lsb, msb)" and le: "map (word_byte [lsb, msb]) [0..<8] = L"
  proof
    show "final_bits (nblocks g) c = (of_nat (8 * length msg), of_nat (8 * length msg div 2 ^ 32))"
      using final_bits_exact [of "nblocks g" c] assms(2) c n by simp
  qed (simp only: L_def le_bytes_words)
  have ll: "length L = 8" by (simp add: L_def le_bytes_def)
  have dvd: "64 dvd length whole" using w(2) by simp
  have pad: "md5_padding (length msg) = 0x80 # replicate ((119 - c) mod 64) 0 @ L"
    using c n by (simp add: md5_padding_def L_def)
  have fin: "take 16 (blit (blit buf 56 L) 0 (map (word_byte (abcd_list (transform r (blit buf 56 L)))) [0..<16]))
      = md5_reference msg"
    if "length buf = 64" "md5_blocks md5_iv (msg @ md5_padding (length msg)) = md5_process r (take 56 buf @ L)" for buf r
    using that ll by (simp add: blit_def md5_reference_def transform_is_md5_process)
  have flush: "md5_flush h = g" by (simp add: g_def)
  show ?thesis
  proof (cases "c < 56")
    case True
    have "(119 - c) mod 64 = 55 - c" using True by (simp add: le_mod_geq)
    then have "msg @ md5_padding (length msg) = whole @ (take c (cbuf g) @ 0x80 # replicate (55 - c) 0 @ L)"
      using w(1) pad by simp
    then have "md5_blocks md5_iv (msg @ md5_padding (length msg)) =
        md5_process (regs g) (take c (cbuf g) @ 0x80 # replicate (55 - c) 0 @ L)"
      using True w ll by (simp add: md5_blocks_append [OF dvd] md5_blocks_one)
    then have "take 16 (blit (blit (take c (cbuf g) @ 0x80 # replicate (55 - c) 0 @ drop 56 (cbuf g)) 56 L) 0
        (map (word_byte (abcd_list (transform (regs g)
          (blit (take c (cbuf g) @ 0x80 # replicate (55 - c) 0 @ drop 56 (cbuf g)) 56 L)))) [0..<16])) = md5_reference msg"
      using True w(4) by (intro fin) (simp_all add: Suc_diff_le take_Cons')
    then show ?thesis
      using True w(4) unfolding do_final_def flush Let_def
      by (simp add: bits c_def [symmetric] le zero_pad_blit take_Suc_conv_app_nth)
  next
    case False
    define B where "B = take c (cbuf g) @ 0x80 # replicate (63 - c) 0"
    have B: "length B = 64" using w(4) c by (simp add: B_def)
    have "(119 - c) mod 64 = (63 - c) + 56" using False c by simp
    then have "msg @ md5_padding (length msg) =
        whole @ B @ (replicate 56 0 @ L)"
      using w(1) pad \<open>(119 - c) mod 64 = _\<close> by (simp only: replicate_add B_def append_assoc append_Cons)
    moreover have "md5_blocks (regs g) (B @ (replicate 56 0 @ L)) =
        md5_process (md5_process (regs g) B) (replicate 56 0 @ L)"
      using B ll by (subst md5_blocks_append) (simp_all add: md5_blocks_one)
    ultimately have "md5_blocks md5_iv (msg @ md5_padding (length msg)) =
        md5_process (md5_process (regs g) B) (replicate 56 0 @ L)"
      by (simp only: md5_blocks_append [OF dvd] w(3) [symmetric])
    then have "take 16 (blit (blit (replicate 56 0 @ drop 56 B) 56 L) 0
        (map (word_byte (abcd_list (transform (transform (regs g) B)
          (blit (replicate 56 0 @ drop 56 B) 56 L)))) [0..<16])) = md5_reference msg"
      using B by (intro fin) (simp_all add: transform_is_md5_process)
    moreover have "cbuf (do_final h) = blit (blit (replicate 56 0 @ drop 56 B) 56 L) 0
        (map (word_byte (abcd_list (transform (transform (regs g) B) (blit (replicate 56 0 @ drop 56 B) 56 L)))) [0..<16])"
      using False c w(4) unfolding do_final_def flush Let_def
      by (simp add: bits c_def [symmetric] le zero_pad_blit take_Suc_conv_app_nth md5_flush_def
          B_def blit_def [of _ 0 "replicate _ _"])
    ultimately show ?thesis by simp
  qed
qed

lemma md5_update_fold_rep:
  "ctx_rep h msg \<Longrightarrow> length (msg @ concat pieces) < 2 ^ 38 \<Longrightarrow>
   ctx_rep (fold (\<lambda>piece h. md5_update h piece) pieces h) (msg @ concat pieces)"
proof (induction pieces arbitrary: h msg)
  case (Cons p ps)
  have "ctx_rep (md5_update h p) (msg @ p)" using Cons.prems by (intro md5_update_rep) simp_all
  then show ?case using Cons.IH [of "md5_update h p" "msg @ p"] Cons.prems(2) by simp
qed simp

lemma finalized_md5_flush [simp]: "finalized (md5_flush h) = finalized h"
  by (simp add: md5_flush_def)

lemma finalized_fill_buffer [simp]: "finalized (fst (fill_buffer h cs)) = finalized h"
  by (induction h cs rule: fill_buffer.induct) simp_all

lemma finalized_transform_full [simp]: "finalized (fst (transform_full h cs)) = finalized h"
  by (induction h cs rule: transform_full.induct) (simp add: transform_full.simps)

lemma finalized_md5_update [simp]: "finalized (md5_update h cs) = finalized h"
  by (simp add: md5_update_def update_blocks_def Let_def case_prod_unfold)

lemma md5_update_fold_finalized:
  "finalized (fold (\<lambda>piece h. md5_update h piece) pieces h) = finalized h"
  by (induction pieces arbitrary: h) simp_all

text \<open>C26: Lab 3's implementation agrees with Lab 4's: a context fed any pieces and one state fed any
  pieces give the same digest when the pieces concatenate to the same message, for messages
  below \<open>2 ^ 29\<close> bytes, although the buffering, the padding and the length counters are written
  differently.
\<close>

theorem md5_final_is_md5_finish:
  assumes "length (cbuf ctx) = 64" and "length (md5_buf pms) = 64"
    and "concat pieces3 = concat pieces4" and "length (concat pieces4) < 2 ^ 29"
  shows "md5_final (fold (\<lambda>piece h. md5_update h piece) pieces3 (md5_init3 ctx)) =
    md5_finish (fold (\<lambda>piece st. md5_append st piece) pieces4 (md5_init pms))"
proof -
  let ?h = "fold (\<lambda>piece h. md5_update h piece) pieces3 (md5_init3 ctx)"
  have "md5_rep (fold (\<lambda>piece st. md5_append st piece) pieces4 (md5_init pms)) (concat pieces4)"
    using md5_fold_rep [OF md5_init_rep [OF assms(2)]] assms(4) by simp
  then have four: "md5_finish (fold (\<lambda>piece st. md5_append st piece) pieces4 (md5_init pms)) =
      md5_reference (concat pieces4)"
    by (rule md5_finish_rep) (use assms(4) in simp)
  have "ctx_rep ?h (concat pieces3)"
    using md5_update_fold_rep [OF md5_init3_rep [OF assms(1)], of pieces3] assms(3,4) by simp
  then have "md5_final ?h = md5_reference (concat pieces3)"
    using do_final_rep assms(3,4) md5_update_fold_finalized [of pieces3 "md5_init3 ctx"]
    by (simp add: md5_final_def md5_init3_def)
  then show ?thesis using four assms(3) by simp
qed

lemma md5_final_is_md5_finish_witness:
  "md5_final (fold (\<lambda>piece h. md5_update h piece) [[0x61, 0x62], [0x63]]
     (md5_init3 \<lparr>regs = (0, 0, 0, 0), nblocks = 7, cbuf = replicate 64 0, ccount = 7, finalized = True\<rparr>)) =
   md5_finish (fold (\<lambda>piece st. md5_append st piece) [[0x61], [], [0x62, 0x63]]
     (md5_init \<lparr>count0 = 7, count1 = 7, md5_abcd = (0, 0, 0, 0), md5_buf = replicate 64 0\<rparr>))"
  by (rule md5_final_is_md5_finish) simp_all

text \<open>\<open>do_final\<close> counts the length wrongly from \<open>2 ^ 29\<close> bytes on: each doubling step adds a carry
  to the high word and then adds the shifted-out bits again. For \<open>2 ^ 29\<close> bytes (2 ^ 23 blocks and an
  empty buffer) the padding says \<open>2 ^ 33\<close> bits instead of \<open>2 ^ 32\<close>, so the digest is not MD5.
\<close>

theorem final_bits_double_count:
  "final_bits (2 ^ 23) 0 = (0, 2) \<and> 64 * 2 ^ 23 * 8 = (2 ^ 32 * 1 + 0 :: nat)"
  by (simp add: final_bits_def Let_def)

section \<open>Digests as text\<close>

lemma finish_text_length:
  "128 - pos \<le> 6 * length (finish_text d allow_at pos) \<and>
   5 * length (finish_text d allow_at pos) \<le> 132 - pos \<and>
   (allow_at \<longrightarrow> 6 * length (finish_text d allow_at pos) \<le> 133 - pos)"
proof (induction d allow_at pos rule: finish_text.induct)
  case (1 d allow_at pos)
  show ?case
  proof (cases "pos < 128")
    case True
    show ?thesis
    proof (cases "digest_bits d pos mod 64 = 63 \<and> \<not> allow_at")
      case c: True
      have "length (finish_text d allow_at pos) = Suc (length (finish_text d allow_at (pos + 5)))"
        using True c by (subst finish_text.simps) (simp add: Let_def)
      then show ?thesis using "1.IH"(1) [OF True refl c] True c by auto
    next
      case c: False
      have "length (finish_text d allow_at pos) = Suc (length (finish_text d allow_at (pos + 6)))"
        using True c by (subst finish_text.simps) (auto simp: Let_def)
      then show ?thesis using "1.IH"(2) [OF True refl c] True by auto
    qed
  qed (simp add: finish_text.simps)
qed

lemma text_chars_at: "i < 64 \<Longrightarrow> (text_chars ! i = CHR ''@'') = (i = 63)"
proof -
  assume "i < 64"
  have "\<forall>i \<in> set [0..<64]. (text_chars ! i = CHR ''@'') = (i = 63)" by code_simp
  then show ?thesis using \<open>i < 64\<close> by simp
qed

lemma finish_text_chars:
  "set (finish_text d allow_at pos) \<subseteq> set text_chars - (if allow_at then {} else {CHR ''@''})"
proof (induction d allow_at pos rule: finish_text.induct)
  case (1 d allow_at pos)
  have len: "length text_chars = 64" by (simp add: text_chars_def)
  have c: "\<not> (n mod 64 = 63 \<and> \<not> allow_at) \<Longrightarrow>
      text_chars ! (n mod 64) \<in> set text_chars - (if allow_at then {} else {CHR ''@''})" for n
    using text_chars_at [of "n mod 64"] nth_mem [of "n mod 64" text_chars] by (auto simp: len)
  have d: "text_chars ! 31 \<in> set text_chars - (if allow_at then {} else {CHR ''@''})"
    using text_chars_at [of 31] nth_mem [of 31 text_chars] by (simp add: len)
  show ?case
  proof (cases "pos < 128 \<and> \<not> (digest_bits d pos mod 64 = 63 \<and> \<not> allow_at)")
    case True
    then show ?thesis using 1(2) c by (subst finish_text.simps) (simp only: Let_def if_True if_False list.set insert_subset simp_thms)
  next
    case False
    then show ?thesis
    proof (cases "pos < 128")
      case True
      then have "digest_bits d pos mod 64 = 63" "\<not> allow_at" using False by blast+
      then show ?thesis using 1(1) True d by (subst finish_text.simps) (simp add: Let_def)
    qed (simp add: finish_text.simps)
  qed
qed

text \<open>The textual digest of \<open>md5_finish_text\<close> keeps the promise of the header: between
  \<open>MD5_TEXT_DIGEST_SIZE\<close> (22) and \<open>MD5_TEXT_DIGEST_MAX_SIZE\<close> (26) characters of the alphabet,
  exactly 22 when \<open>@\<close> is allowed (so the buffers of \<open>osppeer.c\<close> suffice), and never an \<open>@\<close>
  otherwise.
\<close>

theorem md5_finish_text_bounds:
  "length (md5_finish_text pms True) = 22 \<and>
   22 \<le> length (md5_finish_text pms allow_at) \<and> length (md5_finish_text pms allow_at) \<le> 26 \<and>
   set (md5_finish_text pms False) \<subseteq> set text_chars - {CHR ''@''}"
proof -
  have L: "128 \<le> 6 * length (md5_finish_text pms allow_at) \<and> 5 * length (md5_finish_text pms allow_at) \<le> 132"
    for allow_at using finish_text_length [of 0] by (simp add: md5_finish_text_def)
  have "6 * length (md5_finish_text pms True) \<le> 133"
    using finish_text_length [of 0 _ True] by (simp add: md5_finish_text_def)
  then have "length (md5_finish_text pms True) = 22" using L [of True] by linarith
  moreover have "22 \<le> length (md5_finish_text pms allow_at) \<and> length (md5_finish_text pms allow_at) \<le> 26"
    using L [of allow_at] by linarith
  moreover have "set (md5_finish_text pms False) \<subseteq> set text_chars - {CHR ''@''}"
    using finish_text_chars [of "md5_finish pms" False 0] by (simp add: md5_finish_text_def)
  ultimately show ?thesis by blast
qed

lemma final_text_length:
  "128 - pos \<le> 5 * length (final_text buf pos) \<and> 5 * length (final_text buf pos) \<le> 132 - pos"
proof (induction buf pos rule: final_text.induct)
  case (1 buf pos)
  show ?case
  proof (cases "pos < 128")
    case True
    then have "length (final_text buf pos) = Suc (length (final_text buf (pos + 5)))"
      by (subst final_text.simps) simp
    then show ?thesis using 1 [OF True] True by auto
  qed (simp add: final_text.simps)
qed

lemma md5_final_text_length: "length (md5_final_text ctx) = 26"
proof -
  have "128 \<le> 5 * length (md5_final_text ctx) \<and> 5 * length (md5_final_text ctx) \<le> 132"
    using final_text_length [of 0] by (simp add: md5_final_text_def)
  then show ?thesis by linarith
qed

end
