(* ===== verification/Writescan.thy ===== *)
theory Writescan
  imports Prelude
begin

text \<open>
  The message format of the peer-to-peer client, \<open>Lab4/writescan.c\<close>: \<open>osp2p_writef\<close> prints a format
  with quoted strings, addresses and numbers, and \<open>osp2p_vsnscanf\<close> reads one back. The scanner works
  on a buffer \<open>m\<close> with the end of the input at position \<open>e\<close>; like the C code it may look behind \<open>e\<close>, and
  \<open>None\<close> says that it left the buffer. An address is its 32-bit value, most significant octet first.
\<close>

section \<open>Characters\<close>

definition is_digit :: "u8 \<Rightarrow> bool" where "is_digit c \<longleftrightarrow> 48 \<le> c \<and> c \<le> 57"
definition is_space :: "u8 \<Rightarrow> bool" where "is_space c \<longleftrightarrow> c = 32 \<or> (9 \<le> c \<and> c \<le> 13)"

definition is_alnum :: "u8 \<Rightarrow> bool" where
  "is_alnum c \<longleftrightarrow> is_digit c \<or> (65 \<le> c \<and> c \<le> 90) \<or> (97 \<le> c \<and> c \<le> 122)"

definition is_xdigit :: "u8 \<Rightarrow> bool" where
  "is_xdigit c \<longleftrightarrow> is_digit c \<or> (65 \<le> c \<and> c \<le> 70) \<or> (97 \<le> c \<and> c \<le> 102)"

definition to_lower :: "u8 \<Rightarrow> u8" where
  "to_lower c = (if 65 \<le> c \<and> c \<le> 90 then c + 32 else c)"

section \<open>Writing\<close>

text \<open>The characters \<open>$ - _ . + ! * ' ( ) ,\<close> and alphanumeric ones are not quoted.\<close>

definition plain_char :: "u8 \<Rightarrow> bool" where
  "plain_char c \<longleftrightarrow> is_alnum c \<or> c \<in> {36, 45, 95, 46, 43, 33, 42, 39, 40, 41, 44}"

definition hex_digit :: "u8 \<Rightarrow> u8" where
  "hex_digit d = (if d < 10 then 48 + d else 55 + d)"

fun http_quote :: "u8 list \<Rightarrow> u8 list" where
  "http_quote [] = []"
| "http_quote (c # s) =
     (if plain_char c then c # http_quote s
      else 37 # hex_digit (c div 16) # hex_digit (c AND 15) # http_quote s)"

fun decimal_nat :: "nat \<Rightarrow> u8 list" where
  "decimal_nat n = (if n < 10 then [48 + of_nat n] else decimal_nat (n div 10) @ [48 + of_nat (n mod 10)])"

declare decimal_nat.simps [simp del]

definition decimal_int :: "int \<Rightarrow> u8 list" where
  "decimal_int i = (if i < 0 then 45 # decimal_nat (nat (- i)) else decimal_nat (nat i))"

definition octet :: "nat \<Rightarrow> u32 \<Rightarrow> nat" where
  "octet k a = unat (drop_bit (8 * k) a AND 255)"

definition inet_ntoa :: "u32 \<Rightarrow> u8 list" where
  "inet_ntoa a = decimal_nat (octet 3 a) @ [46] @ decimal_nat (octet 2 a) @ [46] @
     decimal_nat (octet 1 a) @ [46] @ decimal_nat (octet 0 a)"

datatype arg = Str "u8 list" | Addr u32 | Num int

text \<open>The arguments of the conversions of the format, in order.\<close>

fun writef_text :: "u8 list \<Rightarrow> arg list \<Rightarrow> u8 list" where
  "writef_text [] as = []"
| "writef_text (c # f) as =
     (case (c, f, as) of
        (c, d # f', as) \<Rightarrow>
          if c = 37 \<and> d = 115 then (case as of Str s # as' \<Rightarrow> http_quote s @ writef_text f' as' | _ \<Rightarrow> [])
          else if c = 37 \<and> d = 100 then (case as of Num i # as' \<Rightarrow> decimal_int i @ writef_text f' as' | _ \<Rightarrow> [])
          else if c = 37 \<and> d = 73 then (case as of Addr a # as' \<Rightarrow> inet_ntoa a @ writef_text f' as' | _ \<Rightarrow> [])
          else if c = 37 \<and> d = 37 then 37 # writef_text f' as
          else c # writef_text f as
      | (c, [], as) \<Rightarrow> c # writef_text f as)"

text \<open>The loop that sends the text. \<open>None\<close> for a call that fails; the loop retries an interrupted one.
  The results are the bytes that arrived, and whether the function returned 0.\<close>

datatype sent = Again | Refuses | Takes nat

fun send_all :: "u8 list \<Rightarrow> sent list \<Rightarrow> (u8 list \<times> bool) option" where
  "send_all [] ws = Some ([], True)"
| "send_all (b # bs) [] = None"
| "send_all (b # bs) (Again # ws) = send_all (b # bs) ws"
| "send_all (b # bs) (Refuses # ws) = Some ([], False)"
| "send_all (b # bs) (Takes n # ws) =
     (if n = 0 then Some ([], False)
      else (case send_all (drop n (b # bs)) ws of
              None \<Rightarrow> None | Some (xs, ok) \<Rightarrow> Some (take n (b # bs) @ xs, ok)))"

definition osp2p_writef :: "u8 list \<Rightarrow> arg list \<Rightarrow> sent list \<Rightarrow> (u8 list \<times> bool) option" where
  "osp2p_writef format as ws = send_all (writef_text format as) ws"

section \<open>Scanning\<close>

definition xvalue :: "u8 \<Rightarrow> u8" where
  "xvalue c = (if 48 \<le> c \<and> c \<le> 57 then c - 48 else to_lower c - 97 + 10)"

definition emit :: "u8 \<Rightarrow> (u8 list \<times> nat) option \<Rightarrow> (u8 list \<times> nat) option" where
  "emit c = map_option (\<lambda>(str, p). (c # str, p))"

text \<open>\<open>%s\<close>: the unquoted string and the position behind it.\<close>

function scan_string :: "u8 list \<Rightarrow> nat \<Rightarrow> nat \<Rightarrow> (u8 list \<times> nat) option" where
  "scan_string m e s =
     (if s = e then Some ([], s)
      else if s \<ge> length m then None
      else if is_space (m ! s) then Some ([], s)
      else if m ! s = 37 then
        (if s + 1 \<ge> length m then None
         else if is_xdigit (m ! (s + 1)) then
           (if s + 2 \<ge> length m then None
            else if is_xdigit (m ! (s + 2)) then
              emit (xvalue (m ! (s + 1)) * 16 + xvalue (m ! (s + 2))) (scan_string m e (s + 3))
            else emit (m ! s) (scan_string m e (s + 1)))
         else emit (m ! s) (scan_string m e (s + 1)))
      else emit (m ! s) (scan_string m e (s + 1)))"
  by pat_completeness auto
termination by (relation "measure (\<lambda>(m, e, s). length m - s)") auto

text \<open>The inner loop of \<open>%I\<close>: \<open>x\<close> is -1 before the first digit.\<close>

function scan_octet :: "u8 list \<Rightarrow> nat \<Rightarrow> int \<Rightarrow> nat \<Rightarrow> (int \<times> nat) option" where
  "scan_octet m e x s =
     (if s = e then Some (x, s)
      else if s \<ge> length m then None
      else if is_digit (m ! s) \<and> x \<le> 255
           then scan_octet m e ((if x < 0 then 0 else 10 * x) + (uint (m ! s) - 48)) (s + 1)
      else Some (x, s))"
  by pat_completeness auto
termination by (relation "measure (\<lambda>(m, e, x, s). length m - s)") auto

declare scan_string.simps [simp del] scan_octet.simps [simp del]

datatype 'a conv = Conv 'a nat | Mismatch | Overrun

text \<open>\<open>left\<close> octets follow the one to be read.\<close>

fun scan_addr :: "u8 list \<Rightarrow> nat \<Rightarrow> nat \<Rightarrow> u32 \<Rightarrow> nat \<Rightarrow> u32 conv" where
  "scan_addr m e left value s =
     (case scan_octet m e (-1) s of
        None \<Rightarrow> Overrun
      | Some (x, s) \<Rightarrow>
          if x < 0 \<or> x > 255 then Mismatch
          else
            let value' = push_bit 8 value + of_int x in
            (case left of
               0 \<Rightarrow> Conv value' s
             | Suc left' \<Rightarrow>
                 if s = e then Mismatch
                 else if s \<ge> length m then Overrun
                 else if m ! s \<noteq> 46 then Mismatch
                 else scan_addr m e left' value' (s + 1)))"

declare scan_addr.simps [simp del]

definition INT_MAX :: int where "INT_MAX = 2147483647"

function scan_digits :: "u8 list \<Rightarrow> nat \<Rightarrow> int \<Rightarrow> nat \<Rightarrow> int conv" where
  "scan_digits m e value s =
     (if s = e then Conv value s
      else if s \<ge> length m then Overrun
      else if is_digit (m ! s) then
        (if value < (INT_MAX - (uint (m ! s) - 48)) div 10
         then scan_digits m e (10 * value + (uint (m ! s) - 48)) (s + 1)
         else Mismatch)
      else Conv value s)"
  by pat_completeness auto
termination by (relation "measure (\<lambda>(m, e, value, s). length m - s)") auto

declare scan_digits.simps [simp del]

definition scan_num :: "u8 list \<Rightarrow> nat \<Rightarrow> nat \<Rightarrow> int conv" where
  "scan_num m e s =
     (if s = e then Mismatch
      else if s \<ge> length m then Overrun
      else if is_digit (m ! s) then scan_digits m e 0 s else Mismatch)"

function skip_space :: "u8 list \<Rightarrow> nat \<Rightarrow> nat \<Rightarrow> nat option" where
  "skip_space m e s =
     (if s = e then Some s
      else if s \<ge> length m then None
      else if is_space (m ! s) then skip_space m e (s + 1) else Some s)"
  by pat_completeness auto
termination by (relation "measure (\<lambda>(m, e, s). length m - s)") auto

declare skip_space.simps [simp del]

text \<open>What has been stored in the arguments, and whether the whole format was matched (the function
  returns 0).\<close>

datatype scanned = Scanned "arg list" bool | Left_buffer

fun stored :: "arg \<Rightarrow> scanned \<Rightarrow> scanned" where
  "stored a (Scanned as ok) = Scanned (a # as) ok"
| "stored a Left_buffer = Left_buffer"

function osp2p_vsnscanf :: "u8 list \<Rightarrow> nat \<Rightarrow> nat \<Rightarrow> nat \<Rightarrow> u8 list \<Rightarrow> scanned" where
  "osp2p_vsnscanf m begin_s e s format =
     (case format of
        [] \<Rightarrow> Scanned [] True
      | c # f \<Rightarrow>
          if c = 37 \<and> f \<noteq> [] \<and> f ! 0 = 115 then
            (case scan_string m e s of None \<Rightarrow> Left_buffer
             | Some (str, s) \<Rightarrow> stored (Str str) (osp2p_vsnscanf m begin_s e s (tl f)))
          else if c = 37 \<and> f \<noteq> [] \<and> f ! 0 = 73 then
            (case scan_addr m e 3 0 s of Overrun \<Rightarrow> Left_buffer | Mismatch \<Rightarrow> Scanned [] False
             | Conv a s \<Rightarrow> stored (Addr a) (osp2p_vsnscanf m begin_s e s (tl f)))
          else if c = 37 \<and> f \<noteq> [] \<and> f ! 0 = 100 then
            (case scan_num m e s of Overrun \<Rightarrow> Left_buffer | Mismatch \<Rightarrow> Scanned [] False
             | Conv i s \<Rightarrow> stored (Num i) (osp2p_vsnscanf m begin_s e s (tl f)))
          else if c = 37 \<and> f \<noteq> [] \<and> f ! 0 = 110 then
            stored (Num (int s - int begin_s)) (osp2p_vsnscanf m begin_s e s (tl f))
          else if c = 37 \<and> f \<noteq> [] \<and> f ! 0 = 37 then
            (if s = e then Scanned [] False else if s \<ge> length m then Left_buffer
             else if m ! s \<noteq> 37 then Scanned [] False else osp2p_vsnscanf m begin_s e (s + 1) (tl f))
          else if is_space c then
            (if s = e then Scanned [] False else if s \<ge> length m then Left_buffer
             else if \<not> is_space (m ! s) then Scanned [] False
             else (case skip_space m e s of None \<Rightarrow> Left_buffer
                   | Some s \<Rightarrow> osp2p_vsnscanf m begin_s e s (dropWhile is_space f)))
          else
            (if s = e then Scanned [] False else if s \<ge> length m then Left_buffer
             else if m ! s \<noteq> c then Scanned [] False else osp2p_vsnscanf m begin_s e (s + 1) f))"
  by pat_completeness auto
termination
  by (relation "measure (\<lambda>(m, begin_s, e, s, format). length format)")
    (auto simp: length_dropWhile_le le_imp_less_Suc)

declare osp2p_vsnscanf.simps [simp del]

definition osp2p_snscanf :: "u8 list \<Rightarrow> nat \<Rightarrow> u8 list \<Rightarrow> scanned" where
  "osp2p_snscanf m len format = osp2p_vsnscanf m 0 len 0 format"

text \<open>A C string is followed by its NUL.\<close>

definition osp2p_sscanf :: "u8 list \<Rightarrow> u8 list \<Rightarrow> scanned" where
  "osp2p_sscanf str format = osp2p_vsnscanf (str @ [0]) 0 (length str) 0 format"

section \<open>Reading back what was written\<close>

lemma hex_digit_value:
  assumes "d < (16 :: u8)"
  shows "xvalue (hex_digit d) = d" "is_xdigit (hex_digit d)"
proof -
  have "\<forall>n \<in> set [0..<16]. xvalue (hex_digit (of_nat n)) = of_nat n \<and> is_xdigit (hex_digit (of_nat n))"
    by code_simp
  moreover have "unat d < 16" using assms by (simp add: word_less_nat_alt)
  moreover have "d = of_nat (unat d)" by simp
  ultimately show "xvalue (hex_digit d) = d" "is_xdigit (hex_digit d)" by (metis atLeastLessThan_iff set_upt zero_le)+
qed

lemma nibbles:
  fixes c :: u8
  shows "c div 16 < 16" "c AND 15 < 16" "c div 16 * 16 + (c AND 15) = c"
proof -
  have m: "(15 :: u8) = mask 4" by (simp add: mask_eq_exp_minus_1)
  have a: "c AND 15 = c mod 16" unfolding m take_bit_eq_mask [symmetric] by (simp add: take_bit_eq_mod)
  show "c AND 15 < 16" unfolding a by (simp add: word_mod_less_divisor)
  have "unat c < 256" using unsigned_less [of c] by simp
  then show "c div 16 < 16" by (simp add: word_less_nat_alt unat_div)
  show "c div 16 * 16 + (c AND 15) = c" unfolding a by (rule div_mult_mod_eq)
qed

lemma plain_not_special: "plain_char c \<Longrightarrow> \<not> is_space c \<and> c \<noteq> 37"
  by (auto simp: plain_char_def is_alnum_def is_digit_def is_space_def word_le_nat_alt)

text \<open>Where a conversion ends: at the end of the input, or before a character of the given kind.\<close>

definition stops :: "(u8 \<Rightarrow> bool) \<Rightarrow> u8 list \<Rightarrow> nat \<Rightarrow> nat \<Rightarrow> bool" where
  "stops kind m e s \<longleftrightarrow> s = e \<or> (s < length m \<and> kind (m ! s))"

lemma scan_string_quoted:
  assumes "m = pre @ http_quote str @ post" "length pre + length (http_quote str) \<le> e"
    and "stops is_space m e (length pre + length (http_quote str))"
  shows "scan_string m e (length pre) = Some (str, length pre + length (http_quote str))"
  using assms
proof (induction str arbitrary: pre)
  case Nil
  then show ?case by (subst scan_string.simps) (auto simp: stops_def)
next
  case (Cons c str)
  show ?case
  proof (cases "plain_char c")
    case True
    then have "m = (pre @ [c]) @ http_quote str @ post" using Cons.prems(1) by simp
    then have ih: "scan_string m e (length (pre @ [c])) = Some (str, length (pre @ [c]) + length (http_quote str))"
      by (rule Cons.IH) (use Cons.prems(2,3) True in simp_all)
    have "m ! length pre = c" "length pre < length m" "length pre \<noteq> e" using Cons.prems True by simp_all
    then show ?thesis
      using ih True plain_not_special [OF True] by (subst scan_string.simps) (simp add: emit_def)
  next
    case False
    let ?h = "hex_digit (c div 16)" and ?l = "hex_digit (c AND 15)"
    have "m = (pre @ [37, ?h, ?l]) @ http_quote str @ post" using Cons.prems(1) False by simp
    then have "scan_string m e (length (pre @ [37, ?h, ?l])) =
        Some (str, length (pre @ [37, ?h, ?l]) + length (http_quote str))"
      by (rule Cons.IH) (use Cons.prems(2,3) False in simp_all)
    then have ih: "scan_string m e (length pre + 3) = Some (str, length pre + 3 + length (http_quote str))"
      by (simp add: numeral_3_eq_3)
    have "m ! length pre = 37" "m ! Suc (length pre) = ?h" "m ! Suc (Suc (length pre)) = ?l"
      "Suc (Suc (length pre)) < length m" "length pre \<noteq> e"
      using Cons.prems False by (simp_all add: nth_append)
    then show ?thesis
      using ih False by (subst scan_string.simps)
        (simp add: emit_def hex_digit_value nibbles is_space_def)
  qed
qed

subsection \<open>Numbers\<close>

definition run_digits :: "int \<Rightarrow> u8 list \<Rightarrow> int" where
  "run_digits x ds = foldl (\<lambda>x c. (if x < 0 then 0 else 10 * x) + (uint c - 48)) x ds"

lemma digit_char: "n < 10 \<Longrightarrow> is_digit (48 + of_nat n) \<and> uint (48 + of_nat n :: u8) - 48 = int n"
proof -
  assume "n < 10"
  moreover have "\<forall>n \<in> set [0..<10]. is_digit (48 + of_nat n) \<and> uint (48 + of_nat n :: u8) - 48 = int n" by code_simp
  ultimately show ?thesis by simp
qed

lemma decimal_digits: "set (decimal_nat n) \<subseteq> {c. is_digit c}" "decimal_nat n \<noteq> []"
proof (induction n rule: decimal_nat.induct)
  case (1 n)
  have "set (decimal_nat n) \<subseteq> {c. is_digit c} \<and> decimal_nat n \<noteq> []"
    using 1 digit_char [of "n mod 10"] digit_char [of n] by (subst (1 2) decimal_nat.simps) auto
  then show "set (decimal_nat n) \<subseteq> {c. is_digit c}" "decimal_nat n \<noteq> []" by blast+
qed

lemma run_decimal:
  assumes "x = -1 \<or> x = 0"
  shows "run_digits x (decimal_nat n) = int n"
proof (induction n rule: decimal_nat.induct)
  case (1 n)
  show ?case
  proof (cases "n < 10")
    case True
    then show ?thesis
      using digit_char [of n] assms by (subst decimal_nat.simps) (auto simp: run_digits_def)
  next
    case False
    then show ?thesis
      using 1 digit_char [of "n mod 10"] by (subst decimal_nat.simps) (simp add: run_digits_def zmod_int zdiv_int)
  qed
qed

lemma run_prefix:
  assumes "x = -1 \<or> x = 0" "k < length (decimal_nat n)"
  shows "run_digits x (take k (decimal_nat n)) \<le> int (n div 10)"
  using assms(2)
proof (induction n arbitrary: k rule: decimal_nat.induct)
  case (1 n)
  show ?case
  proof (cases "n < 10")
    case True
    then have "k = 0" using "1.prems" by (subst (asm) decimal_nat.simps) simp
    then show ?thesis using assms(1) by (auto simp: run_digits_def)
  next
    case False
    then have d: "decimal_nat n = decimal_nat (n div 10) @ [48 + of_nat (n mod 10)]" by (subst decimal_nat.simps) simp
    show ?thesis
    proof (cases "k = length (decimal_nat (n div 10))")
      case True
      then show ?thesis using run_decimal [OF assms(1), of "n div 10"] by (simp add: d)
    next
      case k: False
      then have lt: "k < length (decimal_nat (n div 10))" using "1.prems" by (simp add: d)
      from "1.IH" [OF False lt] have "run_digits x (take k (decimal_nat n)) \<le> int (n div 10 div 10)"
        using lt by (simp add: d)
      also have "\<dots> \<le> int (n div 10)" by simp
      finally show ?thesis .
    qed
  qed
qed

lemma scan_octet_run:
  assumes "m = pre @ ds @ post" "length pre + length ds \<le> e" "set ds \<subseteq> {c. is_digit c}"
    and "\<And>k. k < length ds \<Longrightarrow> run_digits x (take k ds) \<le> 255"
  shows "scan_octet m e x (length pre) = scan_octet m e (run_digits x ds) (length pre + length ds)"
  using assms
proof (induction ds arbitrary: pre x)
  case (Cons d ds)
  let ?x = "(if x < 0 then 0 else 10 * x) + (uint d - 48)"
  have "scan_octet m e x (length pre) = scan_octet m e ?x (length (pre @ [d]))"
    using Cons.prems(1-3) Cons.prems(4) [of 0] by (subst scan_octet.simps) (simp add: run_digits_def)
  also have "\<dots> = scan_octet m e (run_digits ?x ds) (length (pre @ [d]) + length ds)"
  proof (rule Cons.IH)
    show "run_digits ?x (take k ds) \<le> 255" if "k < length ds" for k
      using Cons.prems(4) [of "Suc k"] that by (simp add: run_digits_def)
  qed (use Cons.prems(1-3) in simp_all)
  finally show ?case by (simp add: run_digits_def)
qed (simp add: run_digits_def)

lemma scan_octet_decimal:
  assumes "m = pre @ decimal_nat n @ post" "length pre + length (decimal_nat n) \<le> e" "n \<le> 255"
    and "stops (\<lambda>c. \<not> is_digit c) m e (length pre + length (decimal_nat n))"
  shows "scan_octet m e (-1) (length pre) = Some (int n, length pre + length (decimal_nat n))"
proof -
  have "run_digits (-1) (take k (decimal_nat n)) \<le> 255" if "k < length (decimal_nat n)" for k
    using run_prefix [OF _ that, of "-1"] assms(3) by simp
  then have "scan_octet m e (-1) (length pre) =
      scan_octet m e (run_digits (-1) (decimal_nat n)) (length pre + length (decimal_nat n))"
    by (rule scan_octet_run [OF assms(1,2) decimal_digits(1)])
  then show ?thesis
    using assms(4) run_decimal [of "-1" n] by (subst (asm) (2) scan_octet.simps) (auto simp: stops_def)
qed

lemma scan_digits_run:
  assumes "m = pre @ ds @ post" "length pre + length ds \<le> e" "set ds \<subseteq> {c. is_digit c}" "0 \<le> x"
    and "\<And>k. k < length ds \<Longrightarrow> run_digits x (take k ds) < 214748363"
  shows "scan_digits m e x (length pre) = scan_digits m e (run_digits x ds) (length pre + length ds)"
  using assms
proof (induction ds arbitrary: pre x)
  case (Cons d ds)
  have d: "is_digit d" "48 \<le> uint d" "uint d \<le> 57"
    using Cons.prems(3) by (auto simp: is_digit_def word_le_def)
  let ?x = "10 * x + (uint d - 48)"
  have "x < 214748363" using Cons.prems(5) [of 0] by (simp add: run_digits_def)
  then have "x < (INT_MAX - (uint d - 48)) div 10" using d by (simp add: INT_MAX_def)
  then have "scan_digits m e x (length pre) = scan_digits m e ?x (length (pre @ [d]))"
    using Cons.prems(1-2) d by (subst scan_digits.simps) simp
  also have "\<dots> = scan_digits m e (run_digits ?x ds) (length (pre @ [d]) + length ds)"
  proof (rule Cons.IH)
    show "run_digits ?x (take k ds) < 214748363" if "k < length ds" for k
      using Cons.prems(5) [of "Suc k"] that Cons.prems(4) by (simp add: run_digits_def)
  qed (use Cons.prems(1-4) d in simp_all)
  finally show ?case using Cons.prems(4) by (simp add: run_digits_def)
qed (simp add: run_digits_def)

lemma scan_num_decimal:
  assumes "m = pre @ decimal_nat n @ post" "length pre + length (decimal_nat n) \<le> e" "n < 2147483630"
    and "stops (\<lambda>c. \<not> is_digit c) m e (length pre + length (decimal_nat n))"
  shows "scan_num m e (length pre) = Conv (int n) (length pre + length (decimal_nat n))"
proof -
  obtain d ds where d: "decimal_nat n = d # ds" "is_digit d"
    using decimal_digits [of n] by (cases "decimal_nat n") auto
  have "run_digits 0 (take k (decimal_nat n)) < 214748363" if "k < length (decimal_nat n)" for k
    using run_prefix [OF _ that, of 0] assms(3) by simp
  then have "scan_digits m e 0 (length pre) =
      scan_digits m e (run_digits 0 (decimal_nat n)) (length pre + length (decimal_nat n))"
    by (intro scan_digits_run [OF assms(1,2) decimal_digits(1)]) simp_all
  moreover have "scan_digits m e (int n) (length pre + length (decimal_nat n)) = Conv (int n) (length pre + length (decimal_nat n))"
    using assms(4) by (subst scan_digits.simps) (auto simp: stops_def)
  ultimately show ?thesis
    using assms(1,2) d run_decimal [of 0 n] by (simp add: scan_num_def)
qed

subsection \<open>Addresses\<close>

lemma octet_less: "octet k a \<le> 255"
proof -
  have m: "(255 :: u32) = mask 8" by (simp add: mask_eq_exp_minus_1)
  have "octet k a = take_bit 8 (unat (drop_bit (8 * k) a))"
    unfolding octet_def m take_bit_eq_mask [symmetric] by (simp add: unsigned_take_bit_eq)
  then show ?thesis by (simp add: take_bit_eq_mod)
qed

lemma octets_value:
  "push_bit 8 (push_bit 8 (push_bit 8 (push_bit 8 0 + of_nat (octet 3 a)) + of_nat (octet 2 a)) +
     of_nat (octet 1 a)) + of_nat (octet 0 a) = (a :: u32)"
proof -
  have m: "(255 :: u32) = mask 8" by (simp add: mask_eq_exp_minus_1)
  have o: "(of_nat (octet k a) :: u32) = take_bit 8 (drop_bit (8 * k) a)" for k
    unfolding octet_def m take_bit_eq_mask [symmetric] by (simp add: of_nat_unat)
  have add: "push_bit 8 x + take_bit 8 y = push_bit 8 x OR take_bit 8 (y :: u32)" for x y
    by (rule disjunctive_add_eq_or) (auto simp: bit_eq_iff bit_simps)
  have "push_bit 8 (push_bit 8 (push_bit 8 (push_bit 8 0 OR take_bit 8 (drop_bit (8 * 3) a)) OR
      take_bit 8 (drop_bit (8 * 2) a)) OR take_bit 8 (drop_bit (8 * 1) a)) OR take_bit 8 (drop_bit (8 * 0) a) = a"
  proof (rule bit_word_eqI)
    fix n assume "n < LENGTH(32)"
    then have "n < 8 \<or> n = 8 + (n - 8) \<and> n - 8 < 8 \<or> n = 16 + (n - 16) \<and> n - 16 < 8 \<or> n = 24 + (n - 24) \<and> n - 24 < 8"
      by auto
    then obtain j where "j < (8::nat)" "n = j \<or> n = 8 + j \<or> n = 16 + j \<or> n = 24 + j" by blast
    then show "bit (push_bit 8 (push_bit 8 (push_bit 8 (push_bit 8 0 OR take_bit 8 (drop_bit (8 * 3) a)) OR
      take_bit 8 (drop_bit (8 * 2) a)) OR take_bit 8 (drop_bit (8 * 1) a)) OR take_bit 8 (drop_bit (8 * 0) a)) n = bit a n"
      by (elim disjE) (simp_all add: bit_simps)
  qed
  then show ?thesis unfolding o add .
qed

lemma scan_addr_step:
  assumes "m = pre @ decimal_nat x @ [46] @ post" "length pre + length (decimal_nat x) < e" "x \<le> 255"
  shows "scan_addr m e (Suc left) value (length pre) =
    scan_addr m e left (push_bit 8 value + of_nat x) (length (pre @ decimal_nat x @ [46]))"
proof -
  have dot: "m ! (length pre + length (decimal_nat x)) = 46" "length pre + length (decimal_nat x) < length m"
    using assms(1) by (simp_all add: nth_append)
  then have "stops (\<lambda>c. \<not> is_digit c) m e (length pre + length (decimal_nat x))" by (simp add: stops_def is_digit_def)
  then have "scan_octet m e (-1) (length pre) = Some (int x, length pre + length (decimal_nat x))"
    using assms by (intro scan_octet_decimal) auto
  then show ?thesis using dot assms(2,3) by (subst scan_addr.simps) (simp add: Let_def)
qed

lemma scan_addr_ntoa:
  assumes "m = pre @ inet_ntoa a @ post" "length pre + length (inet_ntoa a) \<le> e"
    and "stops (\<lambda>c. \<not> is_digit c) m e (length pre + length (inet_ntoa a))"
  shows "scan_addr m e 3 0 (length pre) = Conv a (length pre + length (inet_ntoa a))"
proof -
  let ?d = "\<lambda>k. decimal_nat (octet k a)"
  have len: "length (inet_ntoa a) = length (?d 3) + length (?d 2) + length (?d 1) + length (?d 0) + 3"
    by (simp add: inet_ntoa_def)
  have "scan_addr m e (Suc 2) 0 (length pre) =
      scan_addr m e 2 (push_bit 8 0 + of_nat (octet 3 a)) (length (pre @ ?d 3 @ [46]))"
    by (rule scan_addr_step) (use assms len octet_less in \<open>auto simp: inet_ntoa_def\<close>)
  also have "\<dots> = scan_addr m e (Suc 1) (push_bit 8 0 + of_nat (octet 3 a)) (length (pre @ ?d 3 @ [46]))"
    by (simp add: numeral_2_eq_2)
  also have "\<dots> = scan_addr m e 1 (push_bit 8 (push_bit 8 0 + of_nat (octet 3 a)) + of_nat (octet 2 a))
      (length ((pre @ ?d 3 @ [46]) @ ?d 2 @ [46]))"
    by (rule scan_addr_step) (use assms len octet_less in \<open>auto simp: inet_ntoa_def\<close>)
  also have "\<dots> = scan_addr m e (Suc 0) (push_bit 8 (push_bit 8 0 + of_nat (octet 3 a)) + of_nat (octet 2 a))
      (length ((pre @ ?d 3 @ [46]) @ ?d 2 @ [46]))" by simp
  also have "\<dots> = scan_addr m e 0 (push_bit 8 (push_bit 8 (push_bit 8 0 + of_nat (octet 3 a)) + of_nat (octet 2 a)) +
      of_nat (octet 1 a)) (length (((pre @ ?d 3 @ [46]) @ ?d 2 @ [46]) @ ?d 1 @ [46]))"
    by (rule scan_addr_step) (use assms len octet_less in \<open>auto simp: inet_ntoa_def\<close>)
  also have "\<dots> = Conv a (length pre + length (inet_ntoa a))"
  proof -
    let ?pre = "((pre @ ?d 3 @ [46]) @ ?d 2 @ [46]) @ ?d 1 @ [46]"
    have pos: "length ?pre + length (?d 0) = length pre + length (inet_ntoa a)" using len by simp
    have "scan_octet m e (-1) (length ?pre) = Some (int (octet 0 a), length ?pre + length (?d 0))"
    proof (rule scan_octet_decimal)
      show "stops (\<lambda>c. \<not> is_digit c) m e (length ?pre + length (?d 0))" by (simp only: pos assms(3))
      show "length ?pre + length (?d 0) \<le> e" by (simp only: pos assms(2))
    qed (use assms(1) octet_less in \<open>simp_all add: inet_ntoa_def\<close>)
    then show ?thesis
      unfolding pos using octet_less [of 0 a] octets_value [of a]
      by (subst scan_addr.simps) (simp add: Let_def)
  qed
  finally show ?thesis by (simp add: numeral_3_eq_3 numeral_2_eq_2)
qed

subsection \<open>Whole messages\<close>

text \<open>
  Which formats and arguments can be read back: the conversions are \<open>%s\<close>, \<open>%I\<close>, \<open>%d\<close> and \<open>%%\<close>, with
  arguments of their types; a string is not empty and followed in the format by white space or the
  end; a number and an address are followed by the end or by a character that is neither a digit
  nor a percent sign; numbers are not negative and small enough for the scanner's overflow test.
\<close>

definition next_ok :: "u8 list \<Rightarrow> bool" where
  "next_ok f \<longleftrightarrow> f = [] \<or> (f ! 0 \<noteq> 37 \<and> \<not> is_digit (f ! 0))"

function readable :: "u8 list \<Rightarrow> arg list \<Rightarrow> bool" where
  "readable f as =
     (case f of
        [] \<Rightarrow> as = []
      | c # f \<Rightarrow>
          if c = 37 \<and> f \<noteq> [] \<and> f ! 0 = 37 then readable (tl f) as
          else if c = 37 then
            (case (f, as) of
               (d # f', Str s # as') \<Rightarrow> d = 115 \<and> s \<noteq> [] \<and> (f' = [] \<or> is_space (f' ! 0)) \<and> readable f' as'
             | (d # f', Addr a # as') \<Rightarrow> d = 73 \<and> next_ok f' \<and> readable f' as'
             | (d # f', Num i # as') \<Rightarrow> d = 100 \<and> 0 \<le> i \<and> i < 2147483630 \<and> next_ok f' \<and> readable f' as'
             | _ \<Rightarrow> False)
          else readable f as)"
  by pat_completeness auto
termination by (relation "measure (\<lambda>(f, as). length f)") auto

declare readable.simps [simp del]

lemma writef_text_cases:
  "c \<noteq> 37 \<Longrightarrow> writef_text (c # f) as = c # writef_text f as"
  "writef_text (37 # 115 # f) (Str s # as) = http_quote s @ writef_text f as"
  "writef_text (37 # 73 # f) (Addr a # as) = inet_ntoa a @ writef_text f as"
  "writef_text (37 # 100 # f) (Num i # as) = decimal_int i @ writef_text f as"
  "writef_text (37 # 37 # f) as = 37 # writef_text f as"
  by (cases f) simp_all

declare writef_text.simps(2) [simp del]

lemma readable_Nil: "readable [] as = (as = [])"
  by (simp add: readable.simps)

lemma readable_plain: "c \<noteq> 37 \<Longrightarrow> readable (c # f) as = readable f as"
  by (subst readable.simps) simp

text \<open>The kinds of format item, with what follows.\<close>

lemma readable_cases:
  assumes "readable f as"
  obtains (nil) "f = []" "as = []"
  | (plain) c f' where "f = c # f'" "c \<noteq> 37" "readable f' as"
  | (str) f' s as' where "f = 37 # 115 # f'" "as = Str s # as'" "s \<noteq> []" "f' = [] \<or> is_space (f' ! 0)" "readable f' as'"
  | (addr) f' a as' where "f = 37 # 73 # f'" "as = Addr a # as'" "next_ok f'" "readable f' as'"
  | (num) f' i as' where "f = 37 # 100 # f'" "as = Num i # as'" "0 \<le> i" "i < 2147483630" "next_ok f'" "readable f' as'"
  | (percent) f' where "f = 37 # 37 # f'" "readable f' as"
proof (cases f)
  case Nil
  then show ?thesis using assms nil by (simp add: readable_Nil)
next
  case (Cons c g)
  show ?thesis
  proof (cases "c = 37")
    case False
    then show ?thesis using Cons assms plain by (simp add: readable_plain)
  next
    case c: True
    obtain d f' where g: "g = d # f'" using assms Cons c by (cases g) (auto simp: readable.simps)
    show ?thesis
    proof (cases "d = 37")
      case True
      then show ?thesis using assms Cons c g percent by (simp add: readable.simps [of "_ # _"])
    next
      case d: False
      obtain x as' where as: "as = x # as'" using assms Cons c g d by (cases as) (auto simp: readable.simps)
      show ?thesis
      proof (cases x)
        case (Str s)
        then show ?thesis using assms Cons c g d as str by (simp add: readable.simps [of "_ # _"] split: if_splits)
      next
        case (Addr a)
        then show ?thesis using assms Cons c g d as addr by (simp add: readable.simps [of "_ # _"] split: if_splits)
      next
        case (Num i)
        then show ?thesis using assms Cons c g d as num by (simp add: readable.simps [of "_ # _"] split: if_splits)
      qed
    qed
  qed
qed

lemma quote_first: "s \<noteq> [] \<Longrightarrow> http_quote s \<noteq> [] \<and> \<not> is_space (http_quote s ! 0)"
  by (cases s) (auto simp: plain_not_special, simp_all add: is_space_def)

lemma decimal_first: "decimal_nat n \<noteq> [] \<and> is_digit (decimal_nat n ! 0)"
  using decimal_digits [of n] by (cases "decimal_nat n") auto

lemma digit_not_space: "is_digit c \<Longrightarrow> \<not> is_space c"
  by (auto simp: is_digit_def is_space_def word_le_nat_alt)

lemma text_first:
  assumes "readable f as" "f \<noteq> []"
  shows "writef_text f as \<noteq> [] \<and> (if f ! 0 = 37 then \<not> is_space (writef_text f as ! 0) else writef_text f as ! 0 = f ! 0)"
  using assms(1)
proof (cases rule: readable_cases)
  case (str f' s as')
  then show ?thesis using quote_first [of s] by (simp add: writef_text_cases nth_append)
next
  case (addr f' a as')
  then show ?thesis
    using decimal_first [of "octet 3 a"] digit_not_space by (simp add: writef_text_cases inet_ntoa_def nth_append)
next
  case (num f' i as')
  then show ?thesis
    using decimal_first [of "nat i"] digit_not_space by (simp add: writef_text_cases decimal_int_def nth_append)
next
  case (percent f')
  then show ?thesis by (simp add: writef_text_cases is_space_def)
qed (use assms(2) in \<open>auto simp: writef_text_cases\<close>)

lemma stops_next:
  assumes "m = pre @ writef_text f as @ post" "e = length pre + length (writef_text f as)" "readable f as"
    and "f = [] \<or> f ! 0 \<noteq> 37 \<and> kind (f ! 0)"
  shows "stops kind m e (length pre)"
proof (cases "f = []")
  case True
  then show ?thesis using assms(2) by (simp add: stops_def)
next
  case False
  then show ?thesis using text_first [OF assms(3) False] assms(1,4) by (auto simp: stops_def nth_append)
qed

lemma text_spaces:
  assumes "readable f as" "set ws \<subseteq> {c. is_space c}" "f = ws @ g"
  shows "writef_text f as = ws @ writef_text g as \<and> readable g as"
  using assms
proof (induction ws arbitrary: f)
  case (Cons c ws)
  then have "c \<noteq> 37" by (auto simp: is_space_def)
  then show ?case using Cons by (auto simp: writef_text_cases readable_plain)
qed simp

lemma skip_space_run:
  assumes "m = pre @ ws @ post" "length pre + length ws \<le> e" "set ws \<subseteq> {c. is_space c}"
    and "stops (\<lambda>c. \<not> is_space c) m e (length pre + length ws)"
  shows "skip_space m e (length pre) = Some (length pre + length ws)"
  using assms
proof (induction ws arbitrary: pre)
  case Nil
  then show ?case by (subst skip_space.simps) (auto simp: stops_def)
next
  case (Cons c ws)
  have "skip_space m e (length pre) = skip_space m e (length (pre @ [c]))"
    using Cons.prems by (subst skip_space.simps) simp
  also have "\<dots> = Some (length (pre @ [c]) + length ws)"
    by (rule Cons.IH) (use Cons.prems in simp_all)
  finally show ?case by simp
qed

lemma vsnscanf_step:
  "osp2p_vsnscanf m b e s [] = Scanned [] True"
  "scan_string m e s = Some (str, p) \<Longrightarrow>
     osp2p_vsnscanf m b e s (37 # 115 # f) = stored (Str str) (osp2p_vsnscanf m b e p f)"
  "scan_addr m e 3 0 s = Conv a p \<Longrightarrow>
     osp2p_vsnscanf m b e s (37 # 73 # f) = stored (Addr a) (osp2p_vsnscanf m b e p f)"
  "scan_num m e s = Conv i p \<Longrightarrow>
     osp2p_vsnscanf m b e s (37 # 100 # f) = stored (Num i) (osp2p_vsnscanf m b e p f)"
  "s \<noteq> e \<Longrightarrow> s < length m \<Longrightarrow> m ! s = 37 \<Longrightarrow>
     osp2p_vsnscanf m b e s (37 # 37 # f) = osp2p_vsnscanf m b e (s + 1) f"
  by (subst osp2p_vsnscanf.simps, simp)+

lemma vsnscanf_plain:
  assumes "c \<noteq> 37" "s \<noteq> e" "s < length m" "m ! s = c"
  shows "\<not> is_space c \<Longrightarrow> osp2p_vsnscanf m b e s (c # f) = osp2p_vsnscanf m b e (s + 1) f"
    and "is_space c \<Longrightarrow> skip_space m e s = Some p \<Longrightarrow>
      osp2p_vsnscanf m b e s (c # f) = osp2p_vsnscanf m b e p (dropWhile is_space f)"
  using assms by (subst osp2p_vsnscanf.simps, simp)+

lemma scan_written:
  assumes "m = pre @ writef_text f as @ post" "e = length pre + length (writef_text f as)" "readable f as"
  shows "osp2p_vsnscanf m b e (length pre) f = Scanned as True"
  using assms
proof (induction "length f" arbitrary: pre f as rule: less_induct)
  case less
  from less.prems(3) show ?case
  proof (cases rule: readable_cases)
    case nil
    then show ?thesis by (simp add: vsnscanf_step)
  next
    case (str f' s as')
    have t: "writef_text f as = http_quote s @ writef_text f' as'" using str by (simp add: writef_text_cases)
    have "stops is_space m e (length (pre @ http_quote s))"
      using str(4) less.prems(1,2) t by (intro stops_next [OF _ _ str(5)]) (auto simp: is_space_def)
    then have scan: "scan_string m e (length pre) = Some (s, length (pre @ http_quote s))"
      using scan_string_quoted [of m pre s "writef_text f' as' @ post" e] less.prems(1,2) t by simp
    have "osp2p_vsnscanf m b e (length (pre @ http_quote s)) f' = Scanned as' True"
      by (rule less.hyps) (use str less.prems(1,2) t in simp_all)
    then show ?thesis using vsnscanf_step(2) [OF scan] str(1,2) by simp
  next
    case (addr f' a as')
    have t: "writef_text f as = inet_ntoa a @ writef_text f' as'" using addr by (simp add: writef_text_cases)
    have "stops (\<lambda>c. \<not> is_digit c) m e (length (pre @ inet_ntoa a))"
      using addr(3) less.prems(1,2) t by (intro stops_next [OF _ _ addr(4)]) (auto simp: next_ok_def)
    then have scan: "scan_addr m e 3 0 (length pre) = Conv a (length (pre @ inet_ntoa a))"
      using scan_addr_ntoa [of m pre a "writef_text f' as' @ post" e] less.prems(1,2) t by simp
    have "osp2p_vsnscanf m b e (length (pre @ inet_ntoa a)) f' = Scanned as' True"
      by (rule less.hyps) (use addr less.prems(1,2) t in simp_all)
    then show ?thesis using vsnscanf_step(3) [OF scan] addr(1,2) by simp
  next
    case (num f' i as')
    let ?d = "decimal_nat (nat i)"
    have t: "writef_text f as = ?d @ writef_text f' as'" using num by (simp add: writef_text_cases decimal_int_def)
    have "stops (\<lambda>c. \<not> is_digit c) m e (length (pre @ ?d))"
      using num(5) less.prems(1,2) t by (intro stops_next [OF _ _ num(6)]) (auto simp: next_ok_def)
    then have scan: "scan_num m e (length pre) = Conv i (length (pre @ ?d))"
      using scan_num_decimal [of m pre "nat i" "writef_text f' as' @ post" e] less.prems(1,2) t num(3,4) by simp
    have "osp2p_vsnscanf m b e (length (pre @ ?d)) f' = Scanned as' True"
      by (rule less.hyps) (use num less.prems(1,2) t in simp_all)
    then show ?thesis using vsnscanf_step(4) [OF scan] num(1,2) by simp
  next
    case (percent f')
    have at: "m ! length pre = 37" "length pre < length m" "length pre \<noteq> e"
      using less.prems(1,2) percent by (simp_all add: writef_text_cases)
    have "osp2p_vsnscanf m b e (length (pre @ [37])) f' = Scanned as True"
      by (rule less.hyps) (use percent less.prems(1,2) in \<open>simp_all add: writef_text_cases\<close>)
    then show ?thesis using vsnscanf_step(5) [OF at(3,2,1)] percent(1) by simp
  next
    case (plain c f')
    have at: "m ! length pre = c" "length pre < length m" "length pre \<noteq> e"
      using less.prems(1,2) plain by (simp_all add: writef_text_cases)
    show ?thesis
    proof (cases "is_space c")
      case False
      have "osp2p_vsnscanf m b e (length (pre @ [c])) f' = Scanned as True"
        by (rule less.hyps) (use plain less.prems(1,2) in \<open>simp_all add: writef_text_cases\<close>)
      then show ?thesis using vsnscanf_plain(1) [OF plain(2) at(3,2,1) False] plain(1) by simp
    next
      case True
      let ?ws = "takeWhile is_space f'" and ?g = "dropWhile is_space f'"
      have g: "writef_text f' as = ?ws @ writef_text ?g as" "readable ?g as"
        using text_spaces [OF plain(3), of ?ws ?g] by (auto dest: set_takeWhileD)
      have m: "m = (pre @ c # ?ws) @ writef_text ?g as @ post"
        "e = length (pre @ c # ?ws) + length (writef_text ?g as)"
        using less.prems(1,2) plain g(1) by (simp_all add: writef_text_cases)
      have "stops (\<lambda>c. \<not> is_space c) m e (length (pre @ c # ?ws))"
      proof (cases "?g = []")
        case empty: True
        then have "writef_text ?g as = []" by (simp only: writef_text.simps)
        then show ?thesis using m(2) by (simp add: stops_def)
      next
        case False
        have "\<not> is_space (?g ! 0)" using False hd_dropWhile [of is_space f'] by (simp add: hd_conv_nth)
        then have "\<not> is_space (writef_text ?g as ! 0)" "writef_text ?g as \<noteq> []"
          using text_first [OF g(2) False] by (auto split: if_splits)
        moreover define A where "A = pre @ c # ?ws"
        ultimately show ?thesis using m(1) unfolding A_def [symmetric] by (simp add: stops_def nth_append)
      qed
      then have skip: "skip_space m e (length pre) = Some (length (pre @ c # ?ws))"
        using skip_space_run [of m pre "c # ?ws" "writef_text ?g as @ post" e] m True
        by (auto dest: set_takeWhileD)
      have "osp2p_vsnscanf m b e (length (pre @ c # ?ws)) ?g = Scanned as True"
        by (rule less.hyps) (use m g(2) plain(1) length_dropWhile_le [of is_space f'] in auto)
      then show ?thesis using vsnscanf_plain(2) [OF plain(2) at(3,2,1) True skip] plain(1) by simp
    qed
  qed
qed

lemma send_all_whole: "send_all bs ws = Some (xs, True) \<Longrightarrow> xs = bs"
proof (induction bs ws arbitrary: xs rule: send_all.induct)
  case (5 b bs n ws)
  then obtain ys where "n \<noteq> 0" "send_all (drop n (b # bs)) ws = Some (ys, True)" "xs = take n (b # bs) @ ys"
    by (simp split: if_split_asm option.split_asm prod.split_asm)
  then show ?case using 5(1) [of ys] by (metis append_take_drop_id)
qed simp_all

text \<open>C28: What one peer writes the other reads, for the \<open>readable\<close> formats and arguments: every \<open>%s\<close> is
  not empty and stands before white space or the end of the format; every \<open>%I\<close> and \<open>%d\<close> stands before
  the end or a character that is neither a digit nor a percent sign; every \<open>%d\<close> is at least 0 and
  below 2147483630. When \<open>osp2p_writef\<close> succeeds, however the kernel cuts the output into pieces, the
  bytes that arrive are read back by \<open>osp2p_snscanf\<close> with the same format as the same arguments. Strings
  may hold any bytes a C string can: quoting hides white space and percent signs.\<close>

theorem writef_snscanf:
  assumes "osp2p_writef format as ws = Some (bytes, True)" and "readable format as"
  shows "osp2p_snscanf (bytes @ rest) (length bytes) format = Scanned as True"
proof -
  have "bytes = writef_text format as" using assms(1) send_all_whole by (simp add: osp2p_writef_def)
  then show ?thesis
    using scan_written [of "bytes @ rest" "[]" format as rest "length bytes" 0] assms(2)
    by (simp add: osp2p_snscanf_def)
qed

lemma writef_snscanf_witness:
  "osp2p_snscanf (ascii ''GET a%20b%25 131.179.80.139:11111 % OSP2P'' @ [10])
     (length (ascii ''GET a%20b%25 131.179.80.139:11111 % OSP2P'' @ [10])) (ascii ''GET %s %I:%d %% OSP2P'' @ [10]) =
   Scanned [Str (ascii ''a b%''), Addr 0x83B3508B, Num 11111] True"
proof -
  let ?f = "ascii ''GET %s %I:%d %% OSP2P'' @ [10]" and ?as = "[Str (ascii ''a b%''), Addr 0x83B3508B, Num 11111]"
  have "osp2p_writef ?f ?as [Again, Takes 5, Takes 100] =
      Some (ascii ''GET a%20b%25 131.179.80.139:11111 % OSP2P'' @ [10], True)" "readable ?f ?as"
    by (simp_all add: osp2p_writef_def ascii_def writef_text.simps inet_ntoa_def octet_def decimal_nat.simps decimal_int_def
      plain_char_def is_alnum_def is_digit_def hex_digit_def readable.simps is_space_def next_ok_def)
  from writef_snscanf [OF this, of "[]"] show ?thesis by simp
qed

section \<open>Where the scanner differs from its description\<close>

text \<open>Any decimal integer is described; a negative one is written but not read back, and the overflow
  test also refuses the largest representable ones.\<close>

lemma negative_not_read_back:
  assumes "i < 0"
  shows "osp2p_writef (ascii ''%d'') [Num i] [Takes (length (decimal_int i))] = Some (decimal_int i, True)"
    "osp2p_snscanf (decimal_int i) (length (decimal_int i)) (ascii ''%d'') = Scanned [] False"
  using assms
  by (simp_all add: osp2p_writef_def osp2p_snscanf_def ascii_def decimal_int_def writef_text.simps(2) osp2p_vsnscanf.simps
      scan_num_def is_digit_def)

lemma int_max_not_read_back:
  "osp2p_sscanf (ascii ''2147483647'') (ascii ''%d'') = Scanned [] False"
  by (simp add: osp2p_sscanf_def ascii_def osp2p_vsnscanf.simps scan_num_def scan_digits.simps is_digit_def INT_MAX_def)

text \<open>The description says that the input must match the format exactly. The rest of the input is never
  looked at, so the port option \<open>-t ADDR\<close> is taken for the number of its first octet.\<close>

lemma sscanf_ignores_rest: "osp2p_sscanf (ascii ''131.179.80.139'') (ascii ''%d'') = Scanned [Num 131] True"
  by (simp add: osp2p_sscanf_def ascii_def osp2p_vsnscanf.simps scan_num_def scan_digits.simps is_digit_def INT_MAX_def)

text \<open>A string conversion may match nothing, although one or more characters are described.\<close>

lemma sscanf_empty_string: "osp2p_sscanf (ascii ''GET '') (ascii ''GET %s'') = Scanned [Str []] True"
  by (simp add: osp2p_sscanf_def ascii_def osp2p_vsnscanf.simps scan_string.simps skip_space.simps is_space_def)

text \<open>A percent sign at the end of the input makes the scanner look at the two bytes behind it, and when
  they are hexadecimal digits it passes the end and goes on through the rest of the buffer.\<close>

lemma snscanf_passes_end:
  "osp2p_snscanf (ascii ''a%41bcd '') 2 (ascii ''%s'') = Scanned [Str (ascii ''aAbcd'')] True"
  by (simp add: osp2p_snscanf_def ascii_def osp2p_vsnscanf.simps scan_string.simps is_space_def is_xdigit_def is_digit_def
      xvalue_def emit_def)

lemma xdigit_not_space: "is_xdigit c \<Longrightarrow> \<not> is_space c"
  by (auto simp: is_xdigit_def is_digit_def is_space_def word_le_nat_alt)

lemma emit_SomeE:
  assumes "emit c r = Some (str, p)"
  obtains str1 where "r = Some (str1, p)" "str = c # str1"
  using assms by (auto simp: emit_def split: option.splits prod.splits)

text \<open>An input that ends in white space, as every complete message does, is not passed, and a string is
  no longer than what it is read from.\<close>

lemma scan_string_inside:
  assumes "s \<le> n" "n \<le> e" "n < length m" "is_space (m ! n)" "scan_string m e s = Some (str, p)"
  shows "p \<le> n \<and> length str \<le> n - s"
  using assms(1,5)
proof (induction "n - s" arbitrary: s str p rule: less_induct)
  case less
  have at: "s < length m" using less.prems(1) assms(3) by simp
  have skip: "\<not> is_xdigit (m ! k) \<or> k \<noteq> n" for k
    using assms(4) xdigit_not_space by auto
  show ?case
  proof (cases "s = e \<or> is_space (m ! s)")
    case True
    then have "scan_string m e s = Some ([], s)" using at by (subst scan_string.simps) auto
    then show ?thesis using less.prems by simp
  next
    case False
    then have n: "s + 1 \<le> n" using less.prems(1) assms(4) by (cases "s = n") auto
    have one: "p \<le> n \<and> length str \<le> n - s" if step: "scan_string m e s = emit c (scan_string m e (s + 1))" for c
    proof -
      obtain str1 where "scan_string m e (s + 1) = Some (str1, p)" "str = c # str1"
        using less.prems(2) unfolding step by (rule emit_SomeE)
      then show ?thesis using less.hyps [of "s + 1" str1 p] n by fastforce
    qed
    show ?thesis
    proof (cases "m ! s = 37 \<and> is_xdigit (m ! (s + 1)) \<and> is_xdigit (m ! (s + 2))")
      case True
      then have n3: "s + 3 \<le> n" using n skip [of "s + 1"] skip [of "s + 2"] by (cases "n = s + 1"; cases "n = s + 2") auto
      then have "scan_string m e s = emit (xvalue (m ! (s + 1)) * 16 + xvalue (m ! (s + 2))) (scan_string m e (s + 3))"
        using True False at assms(3) by (subst scan_string.simps) simp
      then have "emit (xvalue (m ! (s + 1)) * 16 + xvalue (m ! (s + 2))) (scan_string m e (s + 3)) = Some (str, p)"
        using less.prems(2) by simp
      then obtain str1 where "scan_string m e (s + 3) = Some (str1, p)"
        "str = (xvalue (m ! (s + 1)) * 16 + xvalue (m ! (s + 2))) # str1"
        by (rule emit_SomeE)
      then show ?thesis using less.hyps [of "s + 3" str1 p] n3 by fastforce
    next
      case no: False
      have "s + 1 < length m" using n assms(2,3) by simp
      moreover have "is_xdigit (m ! (s + 1)) \<Longrightarrow> s + 2 < length m"
        using n skip [of "s + 1"] assms(2,3) by (cases "n = s + 1") auto
      ultimately have "scan_string m e s = emit (m ! s) (scan_string m e (s + 1))"
        using no False at by (subst scan_string.simps) (auto simp: not_le)
      then show ?thesis by (rule one)
    qed
  qed
qed

lemma scan_string_Some:
  assumes "s \<le> n" "n \<le> e" "n < length m" "is_space (m ! n)"
  shows "\<exists>str p. scan_string m e s = Some (str, p)"
  using assms(1)
proof (induction "n - s" arbitrary: s rule: less_induct)
  case less
  have at: "s < length m" using less.prems assms(3) by simp
  have skip: "\<not> is_xdigit (m ! k) \<or> k \<noteq> n" for k
    using assms(4) xdigit_not_space by auto
  show ?case
  proof (cases "s = e \<or> is_space (m ! s)")
    case True
    then have "scan_string m e s = Some ([], s)" using at by (subst scan_string.simps) auto
    then show ?thesis by simp
  next
    case False
    then have n: "s + 1 \<le> n" using less.prems assms(4) by (cases "s = n") auto
    obtain str p where next1: "scan_string m e (s + 1) = Some (str, p)"
      using less.hyps [OF _ n] n by fastforce
    show ?thesis
    proof (cases "m ! s = 37 \<and> is_xdigit (m ! (s + 1)) \<and> is_xdigit (m ! (s + 2))")
      case True
      then have n3: "s + 3 \<le> n" using n skip [of "s + 1"] skip [of "s + 2"] by (cases "n = s + 1"; cases "n = s + 2") auto
      obtain str p where next3: "scan_string m e (s + 3) = Some (str, p)"
        using less.hyps [OF _ n3] n3 by fastforce
      have "scan_string m e s = emit (xvalue (m ! (s + 1)) * 16 + xvalue (m ! (s + 2))) (scan_string m e (s + 3))"
        using True False at n3 assms(3) by (subst scan_string.simps) simp
      then show ?thesis using next3 by (simp add: emit_def)
    next
      case no: False
      have "s + 1 < length m" using n assms(3) by simp
      moreover have "is_xdigit (m ! (s + 1)) \<Longrightarrow> s + 2 < length m"
        using n skip [of "s + 1"] assms(3) by (cases "n = s + 1") auto
      ultimately have "scan_string m e s = emit (m ! s) (scan_string m e (s + 1))"
        using no False at by (subst scan_string.simps) (auto simp: not_le)
      then show ?thesis using next1 by (simp add: emit_def)
    qed
  qed
qed

text \<open>Once past the end, only white space in the memory behind stops it.\<close>

lemma scan_string_runs_off:
  assumes "e < s" "s \<le> length m" "\<And>k. s \<le> k \<Longrightarrow> k < length m \<Longrightarrow> \<not> is_space (m ! k) \<and> m ! k \<noteq> 37"
  shows "scan_string m e s = None"
  using assms
proof (induction "length m - s" arbitrary: s)
  case 0
  then show ?case by (subst scan_string.simps) simp
next
  case (Suc k)
  have "scan_string m e (s + 1) = None" by (rule Suc.hyps(1)) (use Suc.prems Suc.hyps(2) in auto)
  then show ?case using Suc.prems(1) Suc.prems(3) [of s] by (subst scan_string.simps) (auto simp: emit_def)
qed

section \<open>Inputs the scanner stays inside of\<close>

text \<open>White space just behind the input, or as its last character, keeps the scanner inside: it never looks
  further, and no string is longer than the input.\<close>

definition ended :: "u8 list \<Rightarrow> nat \<Rightarrow> bool" where
  "ended m e \<longleftrightarrow> (e < length m \<and> is_space (m ! e)) \<or> (0 < e \<and> e \<le> length m \<and> is_space (m ! (e - 1)))"

lemma ended_le: "ended m e \<Longrightarrow> e \<le> length m"
  by (auto simp: ended_def)

lemma scan_string_fits:
  assumes "ended m e" "s \<le> e"
  shows "\<exists>str p. scan_string m e s = Some (str, p) \<and> p \<le> e \<and> length str \<le> e - s"
proof (cases "s = e")
  case True
  then show ?thesis by (subst scan_string.simps) simp
next
  case False
  have "\<exists>n. s \<le> n \<and> n \<le> e \<and> n < length m \<and> is_space (m ! n)"
  proof (cases "e < length m \<and> is_space (m ! e)")
    case True
    then show ?thesis using assms(2) by blast
  next
    case no: False
    then have "s \<le> e - 1 \<and> e - 1 \<le> e \<and> e - 1 < length m \<and> is_space (m ! (e - 1))"
      using False assms unfolding ended_def by linarith
    then show ?thesis by blast
  qed
  then obtain n where n: "s \<le> n" "n \<le> e" "n < length m" "is_space (m ! n)" by blast
  obtain str p where scan: "scan_string m e s = Some (str, p)" using scan_string_Some [OF n] by blast
  then show ?thesis using scan_string_inside [OF n scan] n(2) by auto
qed

lemma scan_octet_stays: "s \<le> e \<Longrightarrow> e \<le> length m \<Longrightarrow> \<exists>y p. scan_octet m e x s = Some (y, p) \<and> p \<le> e"
proof (induction m e x s rule: scan_octet.induct)
  case (1 m e x s)
  show ?case
  proof (cases "s \<noteq> e \<and> is_digit (m ! s) \<and> x \<le> 255")
    case True
    then have "\<exists>y p. scan_octet m e ((if x < 0 then 0 else 10 * x) + (uint (m ! s) - 48)) (s + 1) = Some (y, p) \<and> p \<le> e"
      using 1 by (intro "1.IH") auto
    then show ?thesis using True "1.prems" by (subst scan_octet.simps) simp
  next
    case False
    then show ?thesis using "1.prems" by (subst scan_octet.simps) auto
  qed
qed

lemma scan_addr_stays: "s \<le> e \<Longrightarrow> e \<le> length m \<Longrightarrow>
    scan_addr m e left a s \<noteq> Overrun \<and> (\<forall>b p. scan_addr m e left a s = Conv b p \<longrightarrow> p \<le> e)"
proof (induction left arbitrary: a s)
  case 0
  obtain y q where "scan_octet m e (-1) s = Some (y, q)" "q \<le> e"
    using scan_octet_stays [OF 0, of "-1"] by blast
  then show ?case by (simp add: scan_addr.simps [of m e 0] Let_def)
next
  case (Suc left)
  obtain y q where q: "scan_octet m e (-1) s = Some (y, q)" "q \<le> e"
    using scan_octet_stays [OF Suc.prems, of "-1"] by blast
  show ?case
  proof (cases "q = e \<or> m ! q \<noteq> 46 \<or> y < 0 \<or> y > 255")
    case True
    then have "scan_addr m e (Suc left) a s = Mismatch"
      using q Suc.prems(2) by (subst scan_addr.simps) (auto simp: Let_def)
    then show ?thesis by simp
  next
    case False
    then have "scan_addr m e (Suc left) a s = scan_addr m e left (push_bit 8 a + of_int y) (q + 1)"
      using q Suc.prems(2) by (subst scan_addr.simps) (simp add: Let_def)
    moreover have "q + 1 \<le> e" using False q(2) by auto
    ultimately show ?thesis using Suc.IH [OF _ Suc.prems(2)] by metis
  qed
qed

lemma scan_digits_stays:
  "s \<le> e \<Longrightarrow> e \<le> length m \<Longrightarrow> scan_digits m e v s \<noteq> Overrun \<and> (\<forall>i p. scan_digits m e v s = Conv i p \<longrightarrow> p \<le> e)"
proof (induction m e v s rule: scan_digits.induct)
  case (1 m e v s)
  show ?case
  proof (cases "s \<noteq> e \<and> is_digit (m ! s) \<and> v < (INT_MAX - (uint (m ! s) - 48)) div 10")
    case True
    then have "scan_digits m e v s = scan_digits m e (10 * v + (uint (m ! s) - 48)) (s + 1)"
      using "1.prems" by (subst scan_digits.simps) simp
    then show ?thesis using "1.IH" True "1.prems" by simp
  next
    case False
    then show ?thesis using "1.prems" by (subst scan_digits.simps, subst (2) scan_digits.simps) auto
  qed
qed

lemma scan_num_stays:
  "s \<le> e \<Longrightarrow> e \<le> length m \<Longrightarrow> scan_num m e s \<noteq> Overrun \<and> (\<forall>i p. scan_num m e s = Conv i p \<longrightarrow> p \<le> e)"
  using scan_digits_stays [of s e m 0] by (auto simp: scan_num_def)

lemma skip_space_stays: "s \<le> e \<Longrightarrow> e \<le> length m \<Longrightarrow> \<exists>p. skip_space m e s = Some p \<and> p \<le> e"
proof (induction m e s rule: skip_space.induct)
  case (1 m e s)
  then show ?case by (subst skip_space.simps) auto
qed

definition fits :: "nat \<Rightarrow> scanned \<Rightarrow> bool" where
  "fits n r \<longleftrightarrow> (case r of Scanned as ok \<Rightarrow> (\<forall>str. Str str \<in> set as \<longrightarrow> length str \<le> n) | Left_buffer \<Rightarrow> False)"

lemma fits_stored [simp]: "fits n (stored a r) = (fits n r \<and> (\<forall>str. a = Str str \<longrightarrow> length str \<le> n))"
  by (cases r) (auto simp: fits_def)

lemma vsnscanf_fits:
  assumes "ended m e" "s \<le> e"
  shows "fits e (osp2p_vsnscanf m b e s f)"
  using assms(2)
proof (induction "length f" arbitrary: s f rule: less_induct)
  case less
  note le = ended_le [OF assms(1)]
  have stop: "fits e (Scanned [] ok)" for ok by (simp add: fits_def)
  show ?case
  proof (cases f)
    case Nil
    then show ?thesis by (simp add: vsnscanf_step stop)
  next
    case (Cons c g)
    have rest: "fits e (osp2p_vsnscanf m b e p g')" if "p \<le> e" "length g' \<le> length g" for p g'
      by (rule less.hyps) (use that Cons in auto)
    obtain str p1 where str: "scan_string m e s = Some (str, p1)" "p1 \<le> e" "length str \<le> e"
      using scan_string_fits [OF assms(1) less.prems] by (auto intro: le_trans)
    obtain p2 where sp: "skip_space m e s = Some p2" "p2 \<le> e"
      using skip_space_stays [OF less.prems le] by blast
    have addr: "scan_addr m e 3 0 s \<noteq> Overrun" "\<And>a p. scan_addr m e 3 0 s = Conv a p \<Longrightarrow> p \<le> e"
      using scan_addr_stays [OF less.prems le, of 3 0] by blast+
    have num: "scan_num m e s \<noteq> Overrun" "\<And>i p. scan_num m e s = Conv i p \<Longrightarrow> p \<le> e"
      using scan_num_stays [OF less.prems le] by blast+
    have s: "s = e \<or> s + 1 \<le> e \<and> s < length m" using less.prems le by auto
    have tl: "length (tl g) \<le> length g" by simp
    have "c \<noteq> 37" if "is_space c" using that by (auto simp: is_space_def)
    then consider "c = 37 \<and> g \<noteq> [] \<and> g ! 0 = 115" | "c = 37 \<and> g \<noteq> [] \<and> g ! 0 = 73" | "c = 37 \<and> g \<noteq> [] \<and> g ! 0 = 100"
      | "c = 37 \<and> g \<noteq> [] \<and> g ! 0 = 110" | "c = 37 \<and> g \<noteq> [] \<and> g ! 0 = 37"
      | "is_space c" "c \<noteq> 37"
      | "\<not> is_space c" "c \<noteq> 37 \<or> g = [] \<or> g ! 0 \<notin> {115, 73, 100, 110, 37}"
      by blast
    then show ?thesis
    proof cases
      case 1
      then have "osp2p_vsnscanf m b e s f = stored (Str str) (osp2p_vsnscanf m b e p1 (tl g))"
        using str(1) Cons by (subst osp2p_vsnscanf.simps) simp
      then show ?thesis using rest [OF str(2) tl] str(3) by simp
    next
      case 2
      show ?thesis
      proof (cases "scan_addr m e 3 0 s")
        case (Conv a p)
        then have "osp2p_vsnscanf m b e s f = stored (Addr a) (osp2p_vsnscanf m b e p (tl g))"
          using 2 Cons by (subst osp2p_vsnscanf.simps) simp
        then show ?thesis using rest [OF addr(2) [OF Conv] tl] by simp
      qed (use 2 Cons addr(1) stop in \<open>subst osp2p_vsnscanf.simps, simp\<close>)+
    next
      case 3
      show ?thesis
      proof (cases "scan_num m e s")
        case (Conv i p)
        then have "osp2p_vsnscanf m b e s f = stored (Num i) (osp2p_vsnscanf m b e p (tl g))"
          using 3 Cons by (subst osp2p_vsnscanf.simps) simp
        then show ?thesis using rest [OF num(2) [OF Conv] tl] by simp
      qed (use 3 Cons num(1) stop in \<open>subst osp2p_vsnscanf.simps, simp\<close>)+
    next
      case 4
      then have "osp2p_vsnscanf m b e s f = stored (Num (int s - int b)) (osp2p_vsnscanf m b e s (tl g))"
        using Cons by (subst osp2p_vsnscanf.simps) simp
      then show ?thesis using rest [OF less.prems tl] by simp
    next
      case 5
      then have "osp2p_vsnscanf m b e s f = Scanned [] False \<or>
          s + 1 \<le> e \<and> osp2p_vsnscanf m b e s f = osp2p_vsnscanf m b e (s + 1) (tl g)"
        using Cons s by (subst (1 2) osp2p_vsnscanf.simps) auto
      then show ?thesis using rest [OF _ tl] stop by auto
    next
      case 6
      then have "osp2p_vsnscanf m b e s f = Scanned [] False \<or>
          osp2p_vsnscanf m b e s f = osp2p_vsnscanf m b e p2 (dropWhile is_space g)"
        using Cons s sp(1) by (subst (1 2) osp2p_vsnscanf.simps) auto
      then show ?thesis using rest [OF sp(2) length_dropWhile_le] stop by auto
    next
      case 7
      then have "osp2p_vsnscanf m b e s f = Scanned [] False \<or>
          s + 1 \<le> e \<and> osp2p_vsnscanf m b e s f = osp2p_vsnscanf m b e (s + 1) g"
        using Cons s by (subst (1 2) osp2p_vsnscanf.simps) auto
      then show ?thesis using rest [of "s + 1" g] stop by auto
    qed
  qed
qed

lemma snscanf_stays:
  assumes "ended m e"
  obtains as ok where "osp2p_snscanf m e format = Scanned as ok" "\<And>str. Str str \<in> set as \<Longrightarrow> length str \<le> e"
  using vsnscanf_fits [OF assms, of 0 0 format]
  by (auto simp: osp2p_snscanf_def fits_def split: scanned.splits)

end
