(* ===== verification/Osppeer.thy ===== *)
theory Osppeer
  imports Md5 Writescan
begin

text \<open>
  The peer-to-peer client \<open>Lab4/osppeer.c\<close>: tasks and their bounded buffer, the tracker protocol,
  uploads and the process limit of \<open>main\<close>. A system call is an argument: the model of a call to
  \<open>read\<close> or \<open>write\<close> takes the result the kernel gives it, an error or the bytes (at most as many as
  were asked for), and a loop takes the list of the results it will get. A loop that needs more
  results than the list holds is blocked in the kernel. Strings are lists of bytes without the final
  NUL.
\<close>

section \<open>Tasks\<close>

definition TASKBUFSIZ :: nat where [const_defs]: "TASKBUFSIZ = 8192"
definition FILENAMESIZ :: nat where [const_defs]: "FILENAMESIZ = 256"

datatype tasktype = TASK_TRACKER | TASK_PEER_LISTEN | TASK_UPLOAD | TASK_DOWNLOAD

record peer =
  p_alias :: "u8 list"
  p_addr :: u32
  p_port :: int

record task =
  t_type :: tasktype
  t_peer_fd :: int
  t_disk_fd :: int
  t_buf :: "u8 list"
  t_head :: u32
  t_tail :: u32
  total_written :: u32
  t_filename :: "u8 list"
  t_disk_filename :: "u8 list"
  peer_list :: "peer list"
  t_md5 :: md5_state
  t_checksum :: "u8 list"

text \<open>\<open>raw\<close> is the memory that \<open>malloc\<close> returned.\<close>

definition task_new :: "task \<Rightarrow> tasktype \<Rightarrow> task" where
  "task_new raw ty = raw\<lparr>t_type := ty, t_peer_fd := -1, t_disk_fd := -1, t_head := 0, t_tail := 0,
     total_written := 0, peer_list := [], t_filename := [], t_disk_filename := [],
     t_md5 := md5_init (t_md5 raw)\<rparr>"

definition task_pop_peer :: "task \<Rightarrow> task" where
  "task_pop_peer t = t\<lparr>t_peer_fd := -1, t_disk_fd := -1, t_head := 0, t_tail := 0,
     total_written := 0, t_disk_filename := [], peer_list := tl (peer_list t)\<rparr>"

section \<open>The task buffer\<close>

datatype taskbufresult = TBUF_ERROR | TBUF_END | TBUF_OK | TBUF_AGAIN

datatype ioerr = EINTR | EAGAIN | EWOULDBLOCK | EOTHER

datatype 'a io = Fail ioerr | Got 'a

definition retry :: "ioerr \<Rightarrow> taskbufresult" where
  "retry e = (if e = EINTR \<or> e = EAGAIN \<or> e = EWOULDBLOCK then TBUF_AGAIN else TBUF_ERROR)"

text \<open>The count that \<open>read_to_taskbuf\<close> asks for.\<close>

definition read_room :: "task \<Rightarrow> nat" where
  "read_room t =
     (let headpos = unat (t_head t) mod TASKBUFSIZ; tailpos = unat (t_tail t) mod TASKBUFSIZ
      in if t_head t = t_tail t \<or> headpos < tailpos then TASKBUFSIZ - tailpos else headpos - tailpos)"

text \<open>A failed read appends -1 bytes to the digest, that is nothing.\<close>

definition read_to_taskbuf :: "u8 list io \<Rightarrow> task \<Rightarrow> taskbufresult \<times> task" where
  "read_to_taskbuf r t =
     (let tailpos = unat (t_tail t) mod TASKBUFSIZ in
      case r of
        Fail e \<Rightarrow> (retry e, t)
      | Got bs \<Rightarrow>
          (let data = take (read_room t) bs;
               t = t\<lparr>t_buf := blit (t_buf t) tailpos data\<rparr>;
               t = (if t_type t = TASK_DOWNLOAD then t\<lparr>t_md5 := md5_append (t_md5 t) data\<rparr> else t)
           in if data = [] then (TBUF_END, t)
              else (TBUF_OK, t\<lparr>t_tail := t_tail t + of_nat (length data)\<rparr>)))"

text \<open>The bytes that \<open>write_from_taskbuf\<close> offers to \<open>write\<close>.\<close>

definition write_chunk :: "task \<Rightarrow> u8 list" where
  "write_chunk t =
     (let headpos = unat (t_head t) mod TASKBUFSIZ; tailpos = unat (t_tail t) mod TASKBUFSIZ
      in if headpos < tailpos then take (tailpos - headpos) (drop headpos (t_buf t))
         else take (TASKBUFSIZ - headpos) (drop headpos (t_buf t)))"

text \<open>The third result is what was written to the file descriptor.\<close>

definition write_from_taskbuf :: "nat io \<Rightarrow> task \<Rightarrow> taskbufresult \<times> task \<times> u8 list" where
  "write_from_taskbuf w t =
     (if t_head t = t_tail t then (TBUF_END, t, [])
      else case w of
        Fail e \<Rightarrow> (retry e, t, [])
      | Got n \<Rightarrow>
          (let out = take n (write_chunk t)
           in if out = [] then (TBUF_END, t, [])
              else (TBUF_OK, t\<lparr>t_head := t_head t + of_nat (length out),
                      total_written := total_written t + of_nat (length out)\<rparr>, out)))"

section \<open>Byte pipes\<close>

text \<open>
  The contract of a bounded buffer between a reader and a writer: what is put in comes out once
  and in order. \<open>pipe_run\<close> performs any interleaving of the two operations and collects what went
  in and what came out.
\<close>

fun pipe_run :: "('i \<Rightarrow> 's \<Rightarrow> 's \<times> 'a list) \<Rightarrow> ('o \<Rightarrow> 's \<Rightarrow> 's \<times> 'a list) \<Rightarrow> ('i + 'o) list \<Rightarrow> 's
    \<Rightarrow> 's \<times> 'a list \<times> 'a list" where
  "pipe_run put get [] s = (s, [], [])"
| "pipe_run put get (Inl i # es) s =
     (let (s1, xs) = put i s; (s2, ins, outs) = pipe_run put get es s1 in (s2, xs @ ins, outs))"
| "pipe_run put get (Inr j # es) s =
     (let (s1, xs) = get j s; (s2, ins, outs) = pipe_run put get es s1 in (s2, ins, xs @ outs))"

locale byte_pipe =
  fixes invar :: "'s \<Rightarrow> bool" and contents :: "'s \<Rightarrow> 'a list"
    and put :: "'i \<Rightarrow> 's \<Rightarrow> 's \<times> 'a list" and get :: "'o \<Rightarrow> 's \<Rightarrow> 's \<times> 'a list"
  assumes invar_put: "invar s \<Longrightarrow> invar (fst (put i s))"
    and put_contents: "invar s \<Longrightarrow> contents (fst (put i s)) = contents s @ snd (put i s)"
    and invar_get: "invar s \<Longrightarrow> invar (fst (get j s))"
    and get_contents: "invar s \<Longrightarrow> contents s = snd (get j s) @ contents (fst (get j s))"
begin

lemma pipe_run_fifo:
  "invar s \<Longrightarrow> pipe_run put get es s = (s', ins, outs) \<Longrightarrow>
   invar s' \<and> contents s @ ins = outs @ contents s'"
proof (induction es arbitrary: s s' ins outs)
  case (Cons e es)
  show ?case
  proof (cases e)
    case (Inl i)
    obtain s1 xs where p: "put i s = (s1, xs)" by fastforce
    obtain ins1 where r: "pipe_run put get es s1 = (s', ins1, outs)" and ins: "ins = xs @ ins1"
      using Cons.prems(2) Inl p by (auto split: prod.splits)
    show ?thesis
      using Cons.IH [OF _ r] invar_put [OF Cons.prems(1), of i] put_contents [OF Cons.prems(1), of i] p ins
      by simp
  next
    case (Inr j)
    obtain s1 xs where g: "get j s = (s1, xs)" by fastforce
    obtain outs1 where r: "pipe_run put get es s1 = (s', ins, outs1)" and outs: "outs = xs @ outs1"
      using Cons.prems(2) Inr g by (auto split: prod.splits)
    show ?thesis
      using Cons.IH [OF _ r] invar_get [OF Cons.prems(1), of j] get_contents [OF Cons.prems(1), of j] g outs
      by simp
  qed
qed simp

end

section \<open>The task buffer is a byte pipe\<close>

definition buf_ok :: "task \<Rightarrow> bool" where
  "buf_ok t \<longleftrightarrow> length (t_buf t) = TASKBUFSIZ \<and> unat (t_tail t - t_head t) \<le> TASKBUFSIZ"

text \<open>
  The waiting bytes, in order. The counters run freely and wrap at \<open>2 ^ 32\<close>, a multiple of the
  buffer's size.
\<close>

definition queue :: "task \<Rightarrow> u8 list" where
  "queue t = take (unat (t_tail t - t_head t)) (rotate (unat (t_head t) mod TASKBUFSIZ) (t_buf t))"

definition taskbuf_put :: "u8 list io \<Rightarrow> task \<Rightarrow> task \<times> u8 list" where
  "taskbuf_put r t = (snd (read_to_taskbuf r t), case r of Fail e \<Rightarrow> [] | Got bs \<Rightarrow> take (read_room t) bs)"

definition taskbuf_get :: "nat io \<Rightarrow> task \<Rightarrow> task \<times> u8 list" where
  "taskbuf_get w t = snd (write_from_taskbuf w t)"

lemma tail_position:
  "unat (t :: u32) mod TASKBUFSIZ = (unat h mod TASKBUFSIZ + unat (t - h)) mod TASKBUFSIZ"
proof -
  have "unat t = (unat h + unat (t - h)) mod 2 ^ 32"
    using unat_plus_u32 [of h "t - h"] by simp
  then have "unat t mod TASKBUFSIZ = (unat h + unat (t - h)) mod TASKBUFSIZ"
    by (simp only: TASKBUFSIZ_def) (simp add: mod_mod_cancel)
  then show ?thesis by (simp add: mod_add_left_eq)
qed

lemma queue_length: "buf_ok t \<Longrightarrow> length (queue t) = unat (t_tail t - t_head t)"
  by (simp add: queue_def buf_ok_def)

lemma queue_nth:
  assumes "buf_ok t" "i < unat (t_tail t - t_head t)"
  shows "queue t ! i = t_buf t ! ((unat (t_head t) mod TASKBUFSIZ + i) mod TASKBUFSIZ)"
  using assms by (simp add: queue_def buf_ok_def nth_rotate)

lemma ring_index:
  fixes h i :: nat
  assumes "h < TASKBUFSIZ" "i \<le> TASKBUFSIZ"
  shows "(h + i) mod TASKBUFSIZ = (if h + i < TASKBUFSIZ then h + i else h + i - TASKBUFSIZ)"
  using assms by (simp add: le_mod_geq)

text \<open>Where the free bytes are.\<close>

lemma read_room_fits:
  assumes "buf_ok t"
  shows "unat (t_tail t - t_head t) + read_room t \<le> TASKBUFSIZ"
    and "unat (t_tail t) mod TASKBUFSIZ + read_room t \<le> TASKBUFSIZ"
proof -
  define h n where "h = unat (t_head t) mod TASKBUFSIZ" and "n = unat (t_tail t - t_head t)"
  have h: "h < TASKBUFSIZ" by (simp add: h_def TASKBUFSIZ_def)
  have n: "n \<le> TASKBUFSIZ" using assms by (simp add: n_def buf_ok_def)
  have e: "t_head t = t_tail t \<longleftrightarrow> n = 0" by (auto simp: n_def unat_eq_0)
  have tp: "unat (t_tail t) mod TASKBUFSIZ = (if h + n < TASKBUFSIZ then h + n else h + n - TASKBUFSIZ)"
    using tail_position [of "t_tail t" "t_head t"] ring_index [OF h n] by (simp add: h_def n_def)
  show "unat (t_tail t - t_head t) + read_room t \<le> TASKBUFSIZ"
    unfolding read_room_def Let_def tp e n_def [symmetric] h_def [symmetric] using h n by (auto split: if_splits)
  show "unat (t_tail t) mod TASKBUFSIZ + read_room t \<le> TASKBUFSIZ"
    unfolding read_room_def Let_def tp e h_def [symmetric] using h n by auto
qed

lemma blit_nth:
  assumes "off + length xs \<le> length buf" "j < length buf"
  shows "blit buf off xs ! j = (if off \<le> j \<and> j < off + length xs then xs ! (j - off) else buf ! j)"
  using assms by (auto simp: blit_def nth_append)

lemma unat_add_diff:
  fixes a b :: u32
  assumes "unat (a - b) + k \<le> TASKBUFSIZ"
  shows "unat (a + of_nat k - b) = unat (a - b) + k"
proof -
  have "a + of_nat k - b = (a - b) + of_nat k" by simp
  moreover have "unat ((a - b) + of_nat k) = unat (a - b) + k"
    using assms by (simp add: unat_plus_u32 unsigned_of_nat take_bit_eq_mod TASKBUFSIZ_def)
  ultimately show ?thesis by (simp only:)
qed

lemma put_bytes:
  assumes "buf_ok t" "length data \<le> read_room t"
    and "t' = t\<lparr>t_buf := blit (t_buf t) (unat (t_tail t) mod TASKBUFSIZ) data, t_tail := t_tail t + of_nat (length data),
      t_md5 := m\<rparr>"
  shows "buf_ok t' \<and> queue t' = queue t @ data"
proof -
  define h n tp where "h = unat (t_head t) mod TASKBUFSIZ" and "n = unat (t_tail t - t_head t)" and
    "tp = unat (t_tail t) mod TASKBUFSIZ"
  let ?k = "length data"
  have h: "h < TASKBUFSIZ" by (simp add: h_def TASKBUFSIZ_def)
  have fits: "n + ?k \<le> TASKBUFSIZ" "tp + ?k \<le> TASKBUFSIZ"
    using read_room_fits [OF assms(1)] assms(2) by (simp_all add: n_def tp_def)
  have tp: "tp = (h + n) mod TASKBUFSIZ"
    using tail_position [of "t_tail t" "t_head t"] by (simp add: tp_def h_def n_def)
  have n': "unat (t_tail t' - t_head t') = n + ?k"
    using unat_add_diff [of "t_tail t" "t_head t" ?k] fits(1) by (simp add: assms(3) n_def)
  have len: "length (t_buf t) = TASKBUFSIZ" using assms(1) by (simp add: buf_ok_def)
  have ok: "buf_ok t'" using n' fits len tp_def by (simp add: buf_ok_def assms(3))
  have "queue t' = queue t @ data"
  proof (rule nth_equalityI)
    show "length (queue t') = length (queue t @ data)"
      using queue_length [OF ok] queue_length [OF assms(1)] n' by (simp add: n_def)
  next
    fix i assume "i < length (queue t')"
    then have i: "i < n + ?k" using queue_length [OF ok] n' by simp
    let ?j = "(h + i) mod TASKBUFSIZ"
    have j: "?j < TASKBUFSIZ" by (simp add: TASKBUFSIZ_def)
    have "queue t' ! i = blit (t_buf t) tp data ! ?j"
      using queue_nth [OF ok, of i] i n' by (simp add: h_def tp_def assms(3))
    also have "\<dots> = (if tp \<le> ?j \<and> ?j < tp + ?k then data ! (?j - tp) else t_buf t ! ?j)"
      using blit_nth [of tp data "t_buf t" ?j] fits(2) j len by simp
    also have "\<dots> = (queue t @ data) ! i"
    proof (cases "i < n")
      case True
      then have "\<not> (tp \<le> ?j \<and> ?j < tp + ?k)"
        using fits h unfolding tp by (auto simp: ring_index split: if_splits)
      then show ?thesis
        using True queue_nth [OF assms(1), of i] queue_length [OF assms(1)] by (auto simp: nth_append n_def h_def)
    next
      case False
      then have "?j = tp + (i - n)"
        using fits h i unfolding tp by (auto simp: ring_index split: if_splits)
      then show ?thesis
        using False i queue_length [OF assms(1), folded n_def] by (auto simp: nth_append)
    qed
    finally show "queue t' ! i = (queue t @ data) ! i" .
  qed
  with ok show ?thesis by simp
qed

lemma write_chunk_prefix:
  assumes "buf_ok t" "t_head t \<noteq> t_tail t"
  shows "write_chunk t = take (length (write_chunk t)) (queue t)"
    and "length (write_chunk t) \<le> unat (t_tail t - t_head t)" and "write_chunk t \<noteq> []"
proof -
  define h n where "h = unat (t_head t) mod TASKBUFSIZ" and "n = unat (t_tail t - t_head t)"
  have h: "h < TASKBUFSIZ" by (simp add: h_def TASKBUFSIZ_def)
  have n: "n \<le> TASKBUFSIZ" "0 < n" using assms by (auto simp: n_def buf_ok_def unat_gt_0)
  have len: "length (t_buf t) = TASKBUFSIZ" using assms(1) by (simp add: buf_ok_def)
  define L where "L = (if h + n < TASKBUFSIZ then n else TASKBUFSIZ - h)"
  have tp: "unat (t_tail t) mod TASKBUFSIZ = (if h + n < TASKBUFSIZ then h + n else h + n - TASKBUFSIZ)"
    using tail_position [of "t_tail t" "t_head t"] ring_index [OF h n(1)] by (simp add: h_def n_def)
  have chunk: "write_chunk t = take L (drop h (t_buf t))"
    unfolding write_chunk_def Let_def tp h_def [symmetric] L_def using h n by auto
  have L: "L \<le> n" "h + L \<le> TASKBUFSIZ" "0 < L" using h n by (auto simp: L_def)
  have wl: "length (write_chunk t) = L" using L len by (simp add: chunk)
  then show "length (write_chunk t) \<le> unat (t_tail t - t_head t)" "write_chunk t \<noteq> []"
    using L by (auto simp: n_def)
  show "write_chunk t = take (length (write_chunk t)) (queue t)"
  proof (rule nth_equalityI)
    show "length (write_chunk t) = length (take (length (write_chunk t)) (queue t))"
      using wl L(1) queue_length [OF assms(1)] by (simp add: n_def)
    fix i assume "i < length (write_chunk t)"
    then have i: "i < L" by (simp add: wl)
    then have "queue t ! i = t_buf t ! (h + i)"
      using queue_nth [OF assms(1), of i] L by (simp add: n_def h_def)
    then show "write_chunk t ! i = take (length (write_chunk t)) (queue t) ! i"
      using i L len unfolding wl by (simp add: chunk)
  qed
qed

lemma get_bytes:
  assumes "buf_ok t" "m \<le> unat (t_tail t - t_head t)"
    and "t' = t\<lparr>t_head := t_head t + of_nat m, total_written := w\<rparr>"
  shows "buf_ok t' \<and> queue t' = drop m (queue t)"
proof -
  define h n where "h = unat (t_head t) mod TASKBUFSIZ" and "n = unat (t_tail t - t_head t)"
  have n: "n \<le> TASKBUFSIZ" using assms by (simp add: n_def buf_ok_def)
  have m: "unat (of_nat m :: u32) = m"
    using assms(2) n by (simp add: unsigned_of_nat take_bit_eq_mod n_def TASKBUFSIZ_def)
  have "t_tail t' - t_head t' = (t_tail t - t_head t) - of_nat m" by (simp add: assms(3))
  moreover have "unat ((t_tail t - t_head t) - of_nat m) = n - m"
    using assms(2) m by (subst unat_minus_u32) (simp_all add: word_le_nat_alt n_def)
  ultimately have n': "unat (t_tail t' - t_head t') = n - m" by (simp only:)
  have ok: "buf_ok t'" using assms(1) n n' by (simp add: buf_ok_def assms(3))
  have h': "(unat (t_head t') mod TASKBUFSIZ + i) mod TASKBUFSIZ = (h + (m + i)) mod TASKBUFSIZ" for i
  proof -
    have "unat (t_head t') mod TASKBUFSIZ = (unat (t_head t) + m) mod TASKBUFSIZ"
      unfolding assms(3) by (simp add: unat_plus_u32 m TASKBUFSIZ_def mod_mod_cancel)
    then show ?thesis by (simp add: h_def mod_add_left_eq add.assoc)
  qed
  have "queue t' = drop m (queue t)"
  proof (rule nth_equalityI)
    show "length (queue t') = length (drop m (queue t))"
      using queue_length [OF ok] queue_length [OF assms(1)] n' by (simp add: n_def)
    fix i assume "i < length (queue t')"
    then have i: "i < n - m" using queue_length [OF ok] n' by simp
    then have "queue t' ! i = t_buf t ! ((h + (m + i)) mod TASKBUFSIZ)"
      using queue_nth [OF ok, of i] n' h' [of i] by (simp add: assms(3))
    also have "\<dots> = queue t ! (m + i)"
      using queue_nth [OF assms(1), of "m + i"] i by (simp add: n_def h_def)
    finally show "queue t' ! i = drop m (queue t) ! i"
      using i queue_length [OF assms(1)] by (simp add: n_def)
  qed
  with ok show ?thesis by simp
qed

lemma taskbuf_put_ok:
  assumes "buf_ok t"
  shows "buf_ok (fst (taskbuf_put r t)) \<and> queue (fst (taskbuf_put r t)) = queue t @ snd (taskbuf_put r t)"
proof (cases r)
  case (Fail e)
  then show ?thesis using assms by (simp add: taskbuf_put_def read_to_taskbuf_def)
next
  case (Got bs)
  let ?data = "take (read_room t) bs"
  have "fst (taskbuf_put r t) = t\<lparr>t_buf := blit (t_buf t) (unat (t_tail t) mod TASKBUFSIZ) ?data,
      t_tail := t_tail t + of_nat (length ?data),
      t_md5 := if t_type t = TASK_DOWNLOAD then md5_append (t_md5 t) ?data else t_md5 t\<rparr>"
    by (cases "t_type t = TASK_DOWNLOAD")
      (simp_all add: taskbuf_put_def read_to_taskbuf_def Got Let_def)
  from put_bytes [OF assms _ this] show ?thesis by (simp add: taskbuf_put_def Got)
qed

lemma taskbuf_get_ok:
  assumes "buf_ok t"
  shows "buf_ok (fst (taskbuf_get w t)) \<and> queue t = snd (taskbuf_get w t) @ queue (fst (taskbuf_get w t))"
proof (cases "t_head t = t_tail t")
  case False
  show ?thesis
  proof (cases w)
    case (Got k)
    let ?m = "min k (length (write_chunk t))"
    note wc = write_chunk_prefix [OF assms False]
    have out: "take k (write_chunk t) = take ?m (queue t)"
      by (subst wc(1)) simp
    have m0: "?m = 0 \<longleftrightarrow> k = 0" using wc(3) by (auto simp: min_def)
    have "fst (taskbuf_get w t) = (if ?m = 0 then t else t\<lparr>t_head := t_head t + of_nat ?m,
        total_written := total_written t + of_nat ?m\<rparr>)"
      using False wc(3) unfolding m0 by (auto simp: taskbuf_get_def write_from_taskbuf_def Got Let_def min.commute)
    moreover have "snd (taskbuf_get w t) = take ?m (queue t)"
      using False out by (auto simp: taskbuf_get_def write_from_taskbuf_def Got Let_def)
    moreover have "?m \<le> unat (t_tail t - t_head t)" using wc(2) by simp
    ultimately show ?thesis
      using get_bytes [OF assms, of ?m] assms by (auto split: if_splits)
  qed (use assms False in \<open>simp add: taskbuf_get_def write_from_taskbuf_def\<close>)
qed (simp add: taskbuf_get_def write_from_taskbuf_def assms)

interpretation taskbuf: byte_pipe buf_ok queue taskbuf_put taskbuf_get
  using taskbuf_put_ok taskbuf_get_ok by unfold_locales auto

text \<open>C27: The task buffer is a FIFO byte stream of bounded capacity: under any interleaving of reads
  into it and writes from it, with any partial results and errors of the kernel, and across the
  wrap-around of the buffer and of the 32-bit counters, what was in the buffer followed by what
  was read is what was written followed by what is left, and at most 8192 bytes wait.\<close>

theorem taskbuf_fifo:
  assumes "buf_ok t" and "pipe_run taskbuf_put taskbuf_get es t = (t', ins, outs)"
  shows "buf_ok t' \<and> queue t @ ins = outs @ queue t' \<and> length (queue t') \<le> TASKBUFSIZ"
  using taskbuf.pipe_run_fifo [OF assms] queue_length [of t'] by (auto simp: buf_ok_def)

definition raw_task :: task where
  "raw_task = \<lparr>t_type = TASK_TRACKER, t_peer_fd = 0, t_disk_fd = 0, t_buf = replicate TASKBUFSIZ 0, t_head = 0,
     t_tail = 0, total_written = 0, t_filename = [], t_disk_filename = [], peer_list = [],
     t_md5 = \<lparr>count0 = 0, count1 = 0, md5_abcd = (0, 0, 0, 0), md5_buf = replicate 64 0\<rparr>, t_checksum = []\<rparr>"

lemma task_new_ok: "length (t_buf raw) = TASKBUFSIZ \<Longrightarrow> buf_ok (task_new raw ty) \<and> queue (task_new raw ty) = []"
  by (simp add: task_new_def buf_ok_def queue_def)

lemma taskbuf_fifo_witness:
  "case pipe_run taskbuf_put taskbuf_get [Inl (Got [1, 2, 3]), Inr (Fail EAGAIN), Inr (Got 2), Inl (Got [4])]
     (raw_task\<lparr>t_head := 0xFFFFFFFE, t_tail := 0xFFFFFFFE\<rparr>) of
   (t', ins, outs) \<Rightarrow> buf_ok t' \<and> ins = outs @ queue t' \<and> length (queue t') \<le> TASKBUFSIZ"
proof -
  let ?t = "raw_task\<lparr>t_head := 0xFFFFFFFE, t_tail := 0xFFFFFFFE\<rparr>"
  let ?es = "[Inl (Got [1, 2, 3]), Inr (Fail EAGAIN), Inr (Got 2), Inl (Got [4])]"
  obtain t' ins outs where run: "pipe_run taskbuf_put taskbuf_get ?es ?t = (t', ins, outs)"
    by (metis prod_cases3)
  have "buf_ok ?t" "queue ?t = []" by (simp_all add: raw_task_def buf_ok_def queue_def)
  from taskbuf_fifo [OF this(1) run] this(2) show ?thesis unfolding run by simp
qed

section \<open>The tracker's responses\<close>


text \<open>The \<open>for\<close> loop of \<open>read_tracker_response\<close> over the bytes read so far: the position to return,
  or the position and the split to go on with.\<close>

datatype scan = Found nat | More nat "nat option"

function scan_response :: "u8 list \<Rightarrow> nat \<Rightarrow> nat option \<Rightarrow> scan" where
  "scan_response bs pos split =
     (if pos + 3 < length bs then
        if (pos = 0 \<or> bs ! (pos - 1) = 10) \<and> is_digit (bs ! pos) \<and> is_digit (bs ! (pos + 1)) \<and> is_digit (bs ! (pos + 2))
        then (let start = (case split of None \<Rightarrow> pos | Some p \<Rightarrow> p)
              in if pos + 4 \<ge> length bs then More pos (Some start)
                 else if is_space (bs ! (pos + 3)) \<and> bs ! (length bs - 1) = 10 then Found start
                 else scan_response bs (pos + 1) (Some start))
        else scan_response bs (pos + 1) split
      else More pos split)"
  by pat_completeness auto
termination by (relation "measure (\<lambda>(bs, pos, split). length bs - pos)") auto

declare scan_response.simps [simp del]

datatype response = Response nat task "u8 list io list" | Died | Blocked

text \<open>The final NUL goes to \<open>buf[tail]\<close>; with a full buffer that is the low byte of \<open>head\<close>, which is
  zero already.\<close>

fun tracker_loop :: "task \<Rightarrow> nat \<Rightarrow> nat option \<Rightarrow> u8 list io list \<Rightarrow> response" where
  "tracker_loop t pos split rs =
     (case scan_response (take (unat (t_tail t)) (t_buf t)) pos split of
        Found p \<Rightarrow> Response p (t\<lparr>t_buf := (t_buf t)[unat (t_tail t) := 0]\<rparr>) rs
      | More pos' split' \<Rightarrow>
          (case rs of
             [] \<Rightarrow> Blocked
           | r # rs' \<Rightarrow>
               (case read_to_taskbuf r t of
                  (TBUF_ERROR, t') \<Rightarrow> Died
                | (TBUF_END, t') \<Rightarrow> Died
                | (_, t') \<Rightarrow> tracker_loop t' pos' split' rs')))"

declare tracker_loop.simps [simp del]

definition read_tracker_response :: "u8 list io list \<Rightarrow> task \<Rightarrow> response" where
  "read_tracker_response rs t = tracker_loop (t\<lparr>t_head := 0, t_tail := 0\<rparr>) 0 None rs"

text \<open>The format the comment describes: a line that starts with three digits, and a terminator line,
  whose fourth character is a space.\<close>

definition code_line :: "u8 list \<Rightarrow> nat \<Rightarrow> bool" where
  "code_line bs i \<longleftrightarrow> i + 3 < length bs \<and> (i = 0 \<or> bs ! (i - 1) = 10) \<and>
     is_digit (bs ! i) \<and> is_digit (bs ! (i + 1)) \<and> is_digit (bs ! (i + 2))"

definition terminator :: "u8 list \<Rightarrow> nat \<Rightarrow> bool" where
  "terminator bs i \<longleftrightarrow> code_line bs i \<and> i + 4 < length bs \<and> is_space (bs ! (i + 3))"

text \<open>The scan has settled the positions below \<open>pos\<close>: no later byte makes one of them a terminator.\<close>

definition settled :: "u8 list \<Rightarrow> nat \<Rightarrow> bool" where
  "settled bs i \<longleftrightarrow> i + 3 < length bs \<and> \<not> (code_line bs i \<and> is_space (bs ! (i + 3)))"

definition seen :: "u8 list \<Rightarrow> nat \<Rightarrow> nat option \<Rightarrow> bool" where
  "seen bs pos split \<longleftrightarrow> (\<forall>i < pos. settled bs i) \<and>
     (case split of None \<Rightarrow> \<forall>i < pos. \<not> code_line bs i
      | Some p \<Rightarrow> code_line bs p \<and> p \<le> pos \<and> (\<forall>i < p. \<not> code_line bs i))"

lemma seen_step:
  assumes "seen bs pos split" "settled bs pos"
  shows "seen bs (Suc pos) (if code_line bs pos then Some (case split of None \<Rightarrow> pos | Some p \<Rightarrow> p) else split)"
  using assms unfolding seen_def
  by (auto simp: less_Suc_eq split: option.splits)

lemma code_line_append: "i + 3 < length bs \<Longrightarrow> code_line (bs @ c) i = code_line bs i"
  by (auto simp: code_line_def nth_append)

lemma settled_append: "settled bs i \<Longrightarrow> settled (bs @ c) i"
  by (auto simp: settled_def code_line_append nth_append)

lemma code_line_length: "code_line bs i \<Longrightarrow> i + 3 < length bs"
  by (simp add: code_line_def)

lemma settled_length: "settled bs i \<Longrightarrow> i + 3 < length bs"
  by (simp add: settled_def)

lemma seen_append:
  assumes "seen bs pos split"
  shows "seen (bs @ c) pos split"
proof -
  have s: "\<forall>i < pos. settled bs i" using assms by (simp add: seen_def)
  have same: "code_line (bs @ c) i = code_line bs i" if "i < pos" for i
    using s that settled_length code_line_append by blast
  show ?thesis
  proof (cases split)
    case None
    then show ?thesis using assms same s settled_append by (auto simp: seen_def)
  next
    case (Some p)
    then have p: "code_line bs p" "p \<le> pos" "\<forall>i < p. \<not> code_line bs i" using assms by (simp_all add: seen_def)
    have "code_line (bs @ c) p" using p(1) code_line_append [OF code_line_length] by blast
    then show ?thesis using p same s settled_append Some by (auto simp: seen_def)
  qed
qed

abbreviation start_of :: "nat \<Rightarrow> nat option \<Rightarrow> nat" where
  "start_of pos split \<equiv> (case split of None \<Rightarrow> pos | Some p \<Rightarrow> p)"

lemma scan_line:
  "scan_response bs pos split =
     (if pos + 3 < length bs then
        if code_line bs pos
        then if pos + 4 \<ge> length bs then More pos (Some (start_of pos split))
             else if is_space (bs ! (pos + 3)) \<and> bs ! (length bs - 1) = 10 then Found (start_of pos split)
             else scan_response bs (Suc pos) (Some (start_of pos split))
        else scan_response bs (Suc pos) split
      else More pos split)"
proof -
  have "pos + 3 < length bs \<Longrightarrow> code_line bs pos = ((pos = 0 \<or> bs ! (pos - 1) = 10) \<and>
      is_digit (bs ! pos) \<and> is_digit (bs ! (pos + 1)) \<and> is_digit (bs ! (pos + 2)))"
    by (simp add: code_line_def)
  then show ?thesis
    by (subst scan_response.simps, cases "pos + 3 < length bs")
      (simp_all only: Let_def Suc_eq_plus1 if_True if_False simp_thms)
qed

lemma scan_cases:
  "pos + 3 < length bs \<Longrightarrow> \<not> code_line bs pos \<Longrightarrow> scan_response bs pos split = scan_response bs (Suc pos) split"
  "code_line bs pos \<Longrightarrow> length bs \<le> pos + 4 \<Longrightarrow> scan_response bs pos split = More pos (Some (start_of pos split))"
  "code_line bs pos \<Longrightarrow> pos + 4 < length bs \<Longrightarrow> \<not> is_space (bs ! (pos + 3)) \<Longrightarrow>
    scan_response bs pos split = scan_response bs (Suc pos) (Some (start_of pos split))"
  "length bs \<le> pos + 3 \<Longrightarrow> scan_response bs pos split = More pos split"
  using scan_line [of bs pos split] code_line_length [of bs pos] by simp_all

lemma scan_found:
  assumes "terminator bs pos" "last bs = 10"
  shows "scan_response bs pos split = Found (start_of pos split)"
proof -
  have t: "code_line bs pos" "pos + 4 < length bs" "is_space (bs ! (pos + 3))"
    using assms(1) by (simp_all add: terminator_def)
  moreover have "bs ! (length bs - 1) = 10" using t(2) assms(2) by (subst last_conv_nth [symmetric]) auto
  ultimately show ?thesis using scan_line [of bs pos split] by simp
qed

text \<open>Scanning a complete response finds its first code line.\<close>

lemma scan_complete:
  assumes "seen bs pos split" "terminator bs k" "last bs = 10" "p = (LEAST i. code_line bs i)"
  shows "scan_response bs pos split = Found p"
  using assms(1)
proof (induction "length bs - pos" arbitrary: pos split rule: less_induct)
  case less
  have kl: "code_line bs k" "k + 4 < length bs" using assms(2) by (simp_all add: terminator_def)
  have pk: "pos \<le> k" using less.prems assms(2) by (metis leI seen_def settled_def terminator_def)
  have first: "code_line bs pos \<Longrightarrow> start_of pos split = p"
    using less.prems unfolding seen_def assms(4)
    by (auto split: option.splits intro!: Least_equality [symmetric] simp: not_less [symmetric])
  show ?case
  proof (cases "terminator bs pos")
    case True
    then show ?thesis using first assms(3) by (simp add: scan_found terminator_def)
  next
    case False
    have lt: "pos + 3 < length bs" "pos + 4 < length bs" using pk kl by auto
    then have settled: "settled bs pos" using False by (simp add: terminator_def settled_def)
    have "scan_response bs (Suc pos) (if code_line bs pos then Some (start_of pos split) else split) = Found p"
      using less.hyps seen_step [OF less.prems settled] lt by simp
    then show ?thesis
      using settled lt by (cases "code_line bs pos") (simp_all add: scan_cases(1,3) settled_def)
  qed
qed

text \<open>Without a terminator the scan stops, having settled everything before.\<close>

lemma scan_incomplete:
  assumes "seen bs pos split" "\<And>i. \<not> terminator bs i"
  shows "\<exists>pos' split'. scan_response bs pos split = More pos' split' \<and> seen bs pos' split'"
  using assms(1)
proof (induction "length bs - pos" arbitrary: pos split rule: less_induct)
  case less
  consider "length bs \<le> pos + 3" | "code_line bs pos" "length bs \<le> pos + 4"
    | "pos + 3 < length bs" "settled bs pos" "code_line bs pos \<longrightarrow> pos + 4 < length bs"
    using assms(2) [of pos] unfolding terminator_def settled_def by (meson not_le)
  then show ?case
  proof cases
    case 1
    then show ?thesis using less.prems by (simp add: scan_cases(4))
  next
    case 2
    have "seen bs pos (Some (start_of pos split))"
      using less.prems 2 unfolding seen_def by (auto split: option.splits)
    then show ?thesis using 2 by (simp add: scan_cases(2))
  next
    case 3
    then show ?thesis
      using less.hyps [of "Suc pos" "if code_line bs pos then Some (start_of pos split) else split"]
        seen_step [OF less.prems 3(2)]
      by (cases "code_line bs pos") (simp_all add: scan_cases(1,3) settled_def)
  qed
qed

lemma read_whole_chunk:
  assumes "t_head t = 0" "length (t_buf t) = TASKBUFSIZ" "c \<noteq> []" "unat (t_tail t) + length c \<le> TASKBUFSIZ"
  obtains t' where "read_to_taskbuf (Got c) t = (TBUF_OK, t')" "t_head t' = 0" "length (t_buf t') = TASKBUFSIZ"
    "unat (t_tail t') = unat (t_tail t) + length c"
    "take (unat (t_tail t')) (t_buf t') = take (unat (t_tail t)) (t_buf t) @ c"
proof -
  have lt: "unat (t_tail t) < TASKBUFSIZ" using assms(3,4) by (cases c) auto
  then have room: "read_room t = TASKBUFSIZ - unat (t_tail t)"
    using assms(1) by (auto simp: read_room_def Let_def unat_eq_0)
  have tail: "unat (t_tail t + of_nat (length c)) = unat (t_tail t) + length c"
    using assms(4) by (simp add: unat_plus_u32 unsigned_of_nat take_bit_eq_mod TASKBUFSIZ_def)
  show ?thesis
  proof (rule that)
    show "read_to_taskbuf (Got c) t = (TBUF_OK, snd (read_to_taskbuf (Got c) t))"
      using assms(3,4) by (simp add: read_to_taskbuf_def room Let_def)
  qed (use assms lt tail room in \<open>auto simp: read_to_taskbuf_def Let_def take_blit\<close>)
qed

lemma tracker_loop_found:
  assumes "t_head t = 0" "length (t_buf t) = TASKBUFSIZ" "seen (take (unat (t_tail t)) (t_buf t)) pos split"
    and "unat (t_tail t) + length (concat cs) \<le> TASKBUFSIZ" "[] \<notin> set cs"
    and "\<And>k i. k < length cs \<Longrightarrow> \<not> terminator (take (unat (t_tail t)) (t_buf t) @ concat (take k cs)) i"
    and "full = take (unat (t_tail t)) (t_buf t) @ concat cs" "terminator full j" "last full = 10"
  shows "\<exists>t'. tracker_loop t pos split (map Got cs @ rest) = Response (LEAST i. code_line full i) t' rest \<and>
    unat (t_tail t') = length full \<and> take (length full) (t_buf t') = full"
  using assms
proof (induction cs arbitrary: t pos split)
  case Nil
  then have "unat (t_tail t) = length full" by simp
  moreover have "scan_response full pos split = Found (LEAST i. code_line full i)"
    using scan_complete [of full pos split j] Nil.prems by simp
  ultimately show ?case using Nil.prems by (subst tracker_loop.simps) simp
next
  case (Cons c cs)
  let ?bs = "take (unat (t_tail t)) (t_buf t)"
  have "\<not> terminator ?bs i" for i using Cons.prems(6) [of 0 i] by simp
  then obtain pos' split' where s: "scan_response ?bs pos split = More pos' split'" "seen ?bs pos' split'"
    using scan_incomplete [OF Cons.prems(3)] by blast
  obtain t' where r: "read_to_taskbuf (Got c) t = (TBUF_OK, t')" "t_head t' = 0" "length (t_buf t') = TASKBUFSIZ"
    "unat (t_tail t') = unat (t_tail t) + length c" "take (unat (t_tail t')) (t_buf t') = ?bs @ c"
    by (rule read_whole_chunk [OF Cons.prems(1,2), of c]) (use Cons.prems(4,5) in auto)
  have pre: "\<not> terminator (take (unat (t_tail t')) (t_buf t') @ concat (take k cs)) i" if "k < length cs" for k i
    using Cons.prems(6) [of "Suc k" i] that by (simp add: r(5))
  have "\<exists>t''. tracker_loop t' pos' split' (map Got cs @ rest) = Response (LEAST i. code_line full i) t'' rest \<and>
      unat (t_tail t'') = length full \<and> take (length full) (t_buf t'') = full"
    by (rule Cons.IH) (use r Cons.prems pre s(2) seen_append in \<open>auto\<close>)
  then show ?case by (subst tracker_loop.simps) (simp add: s(1) r(1))
qed

text \<open>C29: \<open>read_tracker_response\<close> recognises a response of the documented format however the network
  cuts it into pieces, provided no piece ends inside the terminator line after its fourth character:
  it reads exactly the pieces of the response, leaves them in the buffer, and returns the length
  of the data portion, the position of the first line that starts with three digits.\<close>

theorem tracker_response_found:
  assumes "length (t_buf t) = TASKBUFSIZ" and "length (concat cs) \<le> TASKBUFSIZ" and "[] \<notin> set cs"
    and "terminator (concat cs) j" and "last (concat cs) = 10"
    and "\<And>k i. k < length cs \<Longrightarrow> \<not> terminator (concat (take k cs)) i"
  shows "\<exists>t'. read_tracker_response (map Got cs @ rest) t = Response (LEAST i. code_line (concat cs) i) t' rest \<and>
    unat (t_tail t') = length (concat cs) \<and> take (length (concat cs)) (t_buf t') = concat cs"
  unfolding read_tracker_response_def
  by (rule tracker_loop_found) (use assms in \<open>auto simp: seen_def\<close>)

lemma tracker_response_found_witness:
  "\<exists>t'. read_tracker_response (map Got [ascii ''FILE a'' @ [10], ascii ''200 ok'' @ [10]] @ []) raw_task = Response 7 t' [] \<and>
     unat (t_tail t') = 14 \<and> take 14 (t_buf t') = ascii ''FILE a'' @ [10] @ ascii ''200 ok'' @ [10]"
proof -
  let ?cs = "[ascii ''FILE a'' @ [10], ascii ''200 ok'' @ [10]]"
  have "\<forall>i \<in> set [0..<7]. \<not> code_line (concat ?cs) i" "code_line (concat ?cs) 7" by code_simp+
  then have least: "(LEAST i. code_line (concat ?cs) i) = 7"
    by (intro Least_equality) (auto simp: not_less [symmetric])
  have t: "terminator (concat ?cs) 7" by code_simp
  have "\<forall>i \<in> set [0..<7]. \<not> terminator (ascii ''FILE a'' @ [10]) i" by code_simp
  moreover have "length (ascii ''FILE a'' @ [10]) = 7" by (simp add: ascii_def)
  ultimately have one: "\<not> terminator (ascii ''FILE a'' @ [10]) i" for i
    by (cases "i < 7") (auto simp: terminator_def)
  have pre: "\<not> terminator (concat (take k ?cs)) i" if "k < length ?cs" for k i
    using that one by (cases k) (auto simp: terminator_def)
  have "length (concat ?cs) = 14" "length (t_buf raw_task) = TASKBUFSIZ" by (simp_all add: ascii_def raw_task_def)
  then show ?thesis
    using tracker_response_found [of raw_task ?cs 7 "[]", OF _ _ _ t _ pre]
    unfolding least by (simp add: TASKBUFSIZ_def)
qed

text \<open>A response whose terminator line arrives in two pieces is never recognised: the position
  of the line is passed while its end of line is missing. After the 7 bytes of \<open>200 ok\<close> and the newline
  in two pieces the client waits for ever, though it accepts them in one piece.\<close>

theorem split_terminator_missed:
  "read_tracker_response [Got (ascii ''200 o''), Got (ascii ''k'' @ [10])] raw_task = Blocked \<and>
   (\<exists>t'. read_tracker_response [Got (ascii ''200 ok'' @ [10])] raw_task = Response 0 t' [])"
proof -
  let ?a = "ascii ''200 o''" and ?b = "ascii ''k'' @ [10]"
  have raw: "raw_task\<lparr>t_head := 0, t_tail := 0\<rparr> = raw_task" "t_head raw_task = 0" "t_tail raw_task = 0"
    "length (t_buf raw_task) = TASKBUFSIZ" by (simp_all add: raw_task_def)
  have len: "length ?a = 5" "length ?b = 2" "length (ascii ''200 ok'' @ [10]) = 7" by (simp_all add: ascii_def)
  have scan: "scan_response [] 0 None = More 0 None" "scan_response ?a 0 None = More 2 (Some 0)"
    "scan_response (?a @ ?b) 2 (Some 0) = More 4 (Some 0)"
    "scan_response (ascii ''200 ok'' @ [10]) 0 None = Found 0" by code_simp+
  obtain t1 where t1: "read_to_taskbuf (Got ?a) raw_task = (TBUF_OK, t1)" "t_head t1 = 0" "length (t_buf t1) = TASKBUFSIZ"
    "unat (t_tail t1) = 5" "take (unat (t_tail t1)) (t_buf t1) = ?a"
    by (rule read_whole_chunk [OF raw(2,4), of ?a]) (use len in \<open>auto simp: raw TASKBUFSIZ_def\<close>)
  obtain t2 where t2: "read_to_taskbuf (Got ?b) t1 = (TBUF_OK, t2)" "take (unat (t_tail t2)) (t_buf t2) = ?a @ ?b"
    by (rule read_whole_chunk [OF t1(2,3), of ?b]) (use len t1 in \<open>auto simp: TASKBUFSIZ_def\<close>)
  obtain t3 where t3: "read_to_taskbuf (Got (ascii ''200 ok'' @ [10])) raw_task = (TBUF_OK, t3)"
    "take (unat (t_tail t3)) (t_buf t3) = ascii ''200 ok'' @ [10]"
    by (rule read_whole_chunk [OF raw(2,4), of "ascii ''200 ok'' @ [10]"]) (use len in \<open>auto simp: raw TASKBUFSIZ_def\<close>)
  have "read_tracker_response [Got ?a, Got ?b] raw_task = Blocked"
    unfolding read_tracker_response_def raw(1)
    by (subst tracker_loop.simps, subst tracker_loop.simps, subst tracker_loop.simps)
      (simp only: raw scan t1(1,5) t2 unsigned_0 take_0 scan.case prod.case taskbufresult.case list.case)
  moreover have "\<exists>t'. read_tracker_response [Got (ascii ''200 ok'' @ [10])] raw_task = Response 0 t' []"
    unfolding read_tracker_response_def raw(1)
    by (subst tracker_loop.simps, subst tracker_loop.simps)
      (simp add: raw scan t3 del: append.simps)
  ultimately show ?thesis ..
qed

end
