(* ===== verification/Osppeer_Transfer.thy ===== *)
theory Osppeer_Transfer
  imports Osppeer
begin

text \<open>
  Finding peers, downloading and uploading (\<open>Lab4/osppeer.c\<close>), and the process limit of \<open>main\<close>.
  The local directory is a map from names to contents. A download takes, for each peer it contacts,
  what the network and the disk do during that attempt.
\<close>

section \<open>Finding peers\<close>

text \<open>A C string ends at its first NUL.\<close>

definition c_str :: "u8 list \<Rightarrow> u8 list" where
  "c_str bs = takeWhile (\<lambda>c. c \<noteq> 0) bs"

text \<open>The line \<open>s\<close> is followed by its newline, and by no other byte that the scanner looks at (see
  \<open>snscanf_stays\<close>); the alias has room for every line of the buffer.\<close>

definition parse_peer :: "u8 list \<Rightarrow> peer option" where
  "parse_peer s =
     (case osp2p_snscanf (s @ [10]) (length s) (ascii ''PEER %s %I:%d'') of
        Scanned [Str al, Addr a, Num port] True \<Rightarrow>
          if port > 0 \<and> port \<le> 65535 then Some \<lparr>p_alias = c_str al, p_addr = a, p_port = port\<rparr> else None
      | _ \<Rightarrow> None)"

text \<open>Each line is put in front of the list; text after the last newline is an error.\<close>

function add_peers :: "u8 list \<Rightarrow> peer list \<Rightarrow> peer list option" where
  "add_peers data ps =
     (if 10 \<in> set data
      then (case parse_peer (takeWhile (\<lambda>c. c \<noteq> 10) data) of
              None \<Rightarrow> None
            | Some p \<Rightarrow> add_peers (tl (dropWhile (\<lambda>c. c \<noteq> 10) data)) (p # ps))
      else if data = [] then Some ps else None)"
  by pat_completeness auto
termination
proof (relation "measure (\<lambda>(data, ps). length data)")
  fix data :: "u8 list" and ps :: "peer list" and p
  assume "10 \<in> set data"
  then have "dropWhile (\<lambda>c. c \<noteq> 10) data \<noteq> []" by (simp add: dropWhile_eq_Nil_conv)
  moreover have "length (dropWhile (\<lambda>c. c \<noteq> 10) data) \<le> length data" by (rule length_dropWhile_le)
  ultimately show "((tl (dropWhile (\<lambda>c. c \<noteq> 10) data), p # ps), (data, ps)) \<in> measure (\<lambda>(data, ps). length data)"
    by (cases "dropWhile (\<lambda>c. c \<noteq> 10) data") auto
qed simp

declare add_peers.simps [simp del]

datatype 'a run = Returns 'a | Dies | Waits

text \<open>\<open>strncpy\<close> of at most \<open>n\<close> bytes: up to a NUL.\<close>

definition c_prefix :: "nat \<Rightarrow> u8 list \<Rightarrow> u8 list" where
  "c_prefix n bs = takeWhile (\<lambda>c. c \<noteq> 0) (take n bs)"

definition MD5_TEXT_DIGEST_SIZE :: nat where [const_defs]: "MD5_TEXT_DIGEST_SIZE = 22"

text \<open>The result is the download task, if any, and the tracker's task. \<open>raw\<close> is what \<open>malloc\<close> returns.\<close>

definition start_download :: "task option \<Rightarrow> u8 list \<Rightarrow> u8 list io list \<Rightarrow> u8 list io list
    \<Rightarrow> task \<Rightarrow> (task option \<times> task) run" where
  "start_download raw filename want md5sum tracker =
     (case read_tracker_response want tracker of
        Died \<Rightarrow> Dies | Blocked \<Rightarrow> Waits
      | Response messagepos tr _ \<Rightarrow>
          if t_buf tr ! messagepos \<noteq> 50 then Returns (None, tr)
          else (case raw of
             None \<Rightarrow> Returns (None, tr)
           | Some mem \<Rightarrow>
               (let t = task_new mem TASK_DOWNLOAD
                in if length filename \<ge> FILENAMESIZ then Returns (Some t, tr)
                else (case add_peers (take messagepos (t_buf tr)) [] of
                   None \<Rightarrow> Dies
                 | Some ps \<Rightarrow>
                     (let t = t\<lparr>t_filename := filename, peer_list := ps\<rparr>
                      in case read_tracker_response md5sum tr of
                           Died \<Rightarrow> Dies | Blocked \<Rightarrow> Waits
                         | Response messagepos tr _ \<Rightarrow>
                             if t_buf tr ! messagepos \<noteq> 50 then Returns (Some t, tr)
                             else Returns (Some (t\<lparr>t_checksum := c_prefix MD5_TEXT_DIGEST_SIZE (t_buf tr)\<rparr>), tr))))))"

section \<open>Transfers between a socket and a file\<close>

datatype loop_end = Complete | Failed | Stuck

text \<open>A call of \<open>write_from_taskbuf\<close> with the next result of \<open>write\<close>, if it gets to \<open>write\<close>.\<close>

definition next_write :: "task \<Rightarrow> nat io list \<Rightarrow> ((taskbufresult \<times> task \<times> u8 list) \<times> nat io list) option" where
  "next_write t ws =
     (if t_head t = t_tail t then Some (write_from_taskbuf (Got 0) t, ws)
      else case ws of [] \<Rightarrow> None | w # ws' \<Rightarrow> Some (write_from_taskbuf w t, ws'))"

text \<open>The loop of \<open>task_upload\<close>: how it ends, the bytes read from the disk and the bytes sent.\<close>

fun upload_loop :: "task \<Rightarrow> u8 list io list \<Rightarrow> nat io list \<Rightarrow> loop_end \<times> u8 list \<times> u8 list" where
  "upload_loop t rs ws =
     (case next_write t ws of
        None \<Rightarrow> (Stuck, [], [])
      | Some ((ret, t1, out), ws1) \<Rightarrow>
          if ret = TBUF_ERROR then (Failed, [], out)
          else (case rs of
             [] \<Rightarrow> (Stuck, [], out)
           | r # rs' \<Rightarrow>
               (let (ret, t2) = read_to_taskbuf r t1; data = snd (taskbuf_put r t1)
                in if ret = TBUF_ERROR then (Failed, data, out)
                   else if ret = TBUF_END \<and> t_head t2 = t_tail t2 then (Complete, data, out)
                   else (let (e, ins, outs) = upload_loop t2 rs' ws1 in (e, data @ ins, out @ outs)))))"

declare upload_loop.simps [simp del]

datatype request = Request task | Bad_request | Unfinished

fun read_request :: "u8 list io list \<Rightarrow> task \<Rightarrow> request" where
  "read_request [] t = Unfinished"
| "read_request (r # rs) t =
     (let (ret, t) = read_to_taskbuf r t; tail = unat (t_tail t)
      in if ret = TBUF_ERROR then Bad_request
         else if ret = TBUF_END \<or> (tail \<noteq> 0 \<and> t_buf t ! (tail - 1) = 10) then Request t
         else read_request rs t)"

text \<open>The request is read from the buffer up to \<open>tail\<close>; the scanner may look at the bytes behind it and
  writes the name to the field of \<open>FILENAMESIZ\<close> bytes as it goes. \<open>Overrun_name\<close> says that it left the
  buffer or that field.\<close>

datatype requested = Odd_request | Overrun_name | Name "u8 list"

definition scan_get :: "u8 list \<Rightarrow> nat \<Rightarrow> requested" where
  "scan_get buf tail =
     (case osp2p_snscanf buf tail (ascii ''GET %s OSP2P'' @ [10]) of
        Left_buffer \<Rightarrow> Overrun_name
      | Scanned [Str str] ok \<Rightarrow>
          if length str \<ge> FILENAMESIZ then Overrun_name else if ok then Name (c_str str) else Odd_request
      | Scanned _ _ \<Rightarrow> Odd_request)"

text \<open>\<open>can_open\<close> tells which files \<open>open\<close> opens for reading. \<open>Corrupts\<close> is an upload that has written past
  its fields.\<close>

datatype upload = Refused | Waiting | Corrupts | Served "u8 list" loop_end "u8 list" "u8 list"

definition task_upload :: "(u8 list \<Rightarrow> bool) \<Rightarrow> u8 list io list \<Rightarrow> u8 list io list
    \<Rightarrow> nat io list \<Rightarrow> task \<Rightarrow> upload" where
  "task_upload can_open request rs ws t =
     (case read_request request t of
        Bad_request \<Rightarrow> Refused | Unfinished \<Rightarrow> Waiting
      | Request t \<Rightarrow>
          if unat (t_tail t) \<ge> FILENAMESIZ - 12 then Refused
          else (case scan_get (t_buf t) (unat (t_tail t)) of
             Odd_request \<Rightarrow> Refused | Overrun_name \<Rightarrow> Corrupts
           | Name name \<Rightarrow>
               (let t = t\<lparr>t_filename := name, t_head := 0, t_tail := 0\<rparr>
                in if 47 \<in> set name \<or> take 2 name = ascii ''..'' then Refused
                   else if \<not> can_open name then Refused
                   else (case upload_loop t rs ws of (e, ins, outs) \<Rightarrow> Served name e ins outs))))"

section \<open>Downloading\<close>

definition MAX_FILESIZE :: nat where [const_defs]: "MAX_FILESIZE = 10 * 1024 * 1024"
definition MIN_TRANSRATE :: int where [const_defs]: "MIN_TRANSRATE = 64"
definition SAMPLESIZE :: nat where [const_defs]: "SAMPLESIZE = 10"

definition initial_rates :: "int list" where
  "initial_rates = replicate SAMPLESIZE (int SAMPLESIZE * MIN_TRANSRATE)"

text \<open>The loop of \<open>task_download\<close>, with the ring of rate samples.\<close>

fun download_loop :: "nat \<Rightarrow> int list \<Rightarrow> int \<Rightarrow> task \<Rightarrow> u8 list io list \<Rightarrow> nat io list
    \<Rightarrow> loop_end \<times> task \<times> u8 list \<times> u8 list" where
  "download_loop j rate_sample last_written t [] ws = (Stuck, t, [], [])"
| "download_loop j rate_sample last_written t (r # rs) ws =
     (let (ret, t1) = read_to_taskbuf r t; data = snd (taskbuf_put r t)
      in if ret = TBUF_ERROR then (Failed, t1, data, [])
      else if ret = TBUF_END \<and> t_head t1 = t_tail t1 then (Complete, t1, data, [])
      else (case next_write t1 ws of
         None \<Rightarrow> (Stuck, t1, data, [])
       | Some ((ret, t2, out), ws1) \<Rightarrow>
           if ret = TBUF_ERROR then (Failed, t2, data, out)
           else if unat (total_written t2) > MAX_FILESIZE then (Failed, t2, data, out)
           else
             (let j = j mod SAMPLESIZE;
                  rate_sample = rate_sample[j := uint (total_written t2) - last_written];
                  last_written = uint (total_written t2);
                  rate = sum_list rate_sample div int SAMPLESIZE
              in if rate < MIN_TRANSRATE then (Failed, t2, data, out)
                 else (let (e, t3, ins, outs) = download_loop (j + 1) rate_sample last_written t2 rs ws1
                       in (e, t3, data @ ins, out @ outs)))))"

type_synonym files = "u8 list \<Rightarrow> u8 list option"

definition decimal :: "nat \<Rightarrow> u8 list" where
  "decimal i = (if i < 10 then [48 + of_nat i] else [48 + of_nat (i div 10), 48 + of_nat (i mod 10)])"

text \<open>What \<open>strncpy\<close> (for \<open>i = 0\<close>) or \<open>sprintf\<close> puts into \<open>disk_filename\<close>.\<close>

definition disk_name :: "u8 list \<Rightarrow> nat \<Rightarrow> u8 list" where
  "disk_name filename i =
     (if i = 0 then take (FILENAMESIZ - 1) filename else filename @ [126] @ decimal i @ [126])"

datatype opened = Opened "u8 list" | Open_failed "u8 list" | All_exist

fun open_local :: "files \<Rightarrow> (u8 list \<Rightarrow> bool) \<Rightarrow> u8 list \<Rightarrow> nat list \<Rightarrow> opened" where
  "open_local fs broken filename [] = All_exist"
| "open_local fs broken filename (i # is) =
     (let name = disk_name filename i
      in if fs name \<noteq> None then open_local fs broken filename is
         else if broken name then Open_failed name else Opened name)"

record attempt =
  connects :: bool
  broken :: "u8 list \<Rightarrow> bool"
  socket_reads :: "u8 list io list"
  disk_writes :: "nat io list"
  have_reply :: "u8 list io list"

datatype verdict = Accepted files bool | Retry files task | Too_many_files | No_answer

text \<open>One pass of \<open>task_download\<close>, up to its end or to \<open>try_again\<close>. The flag of \<open>Accepted\<close> tells whether
  the tracker was informed.\<close>

definition download_attempt :: "u32 \<Rightarrow> int \<Rightarrow> files \<Rightarrow> task \<Rightarrow> attempt \<Rightarrow> verdict" where
  "download_attempt listen_addr listen_port fs t a =
     (let p = peer_list t ! 0
      in if p_addr p = listen_addr \<and> p_port p = listen_port \<or> \<not> connects a then Retry fs t
      else (case open_local fs (broken a) (t_filename t) [0..<50] of
         All_exist \<Rightarrow> Too_many_files
       | Open_failed name \<Rightarrow> Retry (fs(name := None)) (t\<lparr>t_disk_filename := name\<rparr>)
       | Opened name \<Rightarrow>
           (case download_loop 0 initial_rates 0
                   (t\<lparr>t_disk_filename := name\<rparr>) (socket_reads a) (disk_writes a) of
              (Stuck, t', ins, outs) \<Rightarrow> No_answer
            | (Failed, t', ins, outs) \<Rightarrow> Retry (fs(name := None)) t'
            | (Complete, t', ins, outs) \<Rightarrow>
                if total_written t' > 0 then
                  (if t_checksum t' = ascii (md5_finish_text (t_md5 t') True)
                   then Accepted (fs(name \<mapsto> outs)) (t_filename t' = t_disk_filename t')
                   else Retry (fs(name := None)) (t'\<lparr>t_md5 := md5_finish_state (t_md5 t')\<rparr>))
                else Retry (fs(name := None)) t')))"

datatype download = Saved files bool | No_peers files | Gave_up | Process_died | Hangs

text \<open>After a success the client tells the tracker, if the file has its own name, and waits for the reply.\<close>

fun task_download :: "u32 \<Rightarrow> int \<Rightarrow> task \<Rightarrow> files \<Rightarrow> task \<Rightarrow> attempt list \<Rightarrow> download" where
  "task_download listen_addr listen_port tracker fs t [] =
     (if peer_list t = [] then No_peers fs else Hangs)"
| "task_download listen_addr listen_port tracker fs t (a # as) =
     (if peer_list t = [] then No_peers fs
      else (case download_attempt listen_addr listen_port fs t a of
         Retry fs' t' \<Rightarrow> task_download listen_addr listen_port tracker fs' (task_pop_peer t') as
       | Too_many_files \<Rightarrow> Gave_up
       | No_answer \<Rightarrow> Hangs
       | Accepted fs' told \<Rightarrow>
           if told then (case read_tracker_response (have_reply a) tracker of
                Died \<Rightarrow> Process_died | Blocked \<Rightarrow> Hangs | Response _ _ _ \<Rightarrow> Saved fs' True)
           else Saved fs' False))"

section \<open>Registration, listening and the process limit\<close>

definition registers :: "bool \<Rightarrow> u8 list \<Rightarrow> bool" where
  "registers regular name \<longleftrightarrow> \<not> (\<not> regular
     \<or> (length name > 2 \<and> name ! (length name - 2) = 46 \<and>
         (name ! (length name - 1) = 99 \<or> name ! (length name - 1) = 104))
     \<or> (length name > 1 \<and> name ! (length name - 1) = 126))"

text \<open>The directory entries with their \<open>S_ISREG\<close>, and the tracker's replies to each \<open>HAVE\<close>.\<close>

fun have_files :: "(u8 list \<times> bool) list \<Rightarrow> u8 list io list list \<Rightarrow> task \<Rightarrow> u8 list list run" where
  "have_files [] replies tr = Returns []"
| "have_files ((name, regular) # es) replies tr =
     (if \<not> registers regular name then have_files es replies tr
      else (case replies of [] \<Rightarrow> Waits
        | reply # rest \<Rightarrow>
            (case read_tracker_response reply tr of
               Died \<Rightarrow> Dies | Blocked \<Rightarrow> Waits
             | Response _ tr' _ \<Rightarrow>
                 (case have_files es rest tr' of
                    Returns ns \<Rightarrow> Returns (name # ns) | Dies \<Rightarrow> Dies | Waits \<Rightarrow> Waits))))"

definition register_files :: "u8 list io list \<Rightarrow> (u8 list \<times> bool) list \<Rightarrow> u8 list io list list \<Rightarrow> task \<Rightarrow> u8 list list run" where
  "register_files addr_reply es replies tr =
     (case read_tracker_response addr_reply tr of
        Died \<Rightarrow> Dies | Blocked \<Rightarrow> Waits
      | Response messagepos tr' _ \<Rightarrow>
          if t_buf tr' ! messagepos \<noteq> 50 then Returns [] else have_files es replies tr')"

datatype bound = Bound | In_use | Cannot_bind

fun pick_port :: "(nat \<Rightarrow> bound) \<Rightarrow> nat list \<Rightarrow> nat run" where
  "pick_port bind [] = Dies"
| "pick_port bind (port # ports) =
     (case bind port of Bound \<Rightarrow> Returns port | In_use \<Rightarrow> pick_port bind ports | Cannot_bind \<Rightarrow> Dies)"

definition start_listen :: "(nat \<Rightarrow> bound) \<Rightarrow> nat run" where
  "start_listen bind = pick_port bind [11112..<13000]"

definition MAXCONNPID :: int where [const_defs]: "MAXCONNPID = 10"

text \<open>The second loop of \<open>main\<close>: for each accepted connection whether \<open>fork\<close> succeeds, and whether the
  connection gets a child that serves it.\<close>

fun accept_loop :: "int \<Rightarrow> bool list \<Rightarrow> bool list" where
  "accept_loop pid_counter [] = []"
| "accept_loop pid_counter (fork_ok # es) =
     (if pid_counter < MAXCONNPID then
        (if fork_ok then True # accept_loop (pid_counter + 1) es
         else False # accept_loop (pid_counter - 1) es)
      else False # accept_loop (pid_counter - 1) es)"

section \<open>What a loop of transfers preserves\<close>

lemma queue_empty: "buf_ok t \<Longrightarrow> (queue t = []) = (t_head t = t_tail t)"
  using queue_length [of t] by (metis length_0_conv right_minus_eq unat_eq_0)

lemma read_is_put: "read_to_taskbuf r t = (ret, t') \<Longrightarrow> t' = fst (taskbuf_put r t)"
  by (simp add: taskbuf_put_def)

lemma read_got:
  "read_to_taskbuf (Got bs) t =
     (if take (read_room t) bs = [] then TBUF_END else TBUF_OK,
      t\<lparr>t_buf := blit (t_buf t) (unat (t_tail t) mod TASKBUFSIZ) (take (read_room t) bs),
        t_tail := t_tail t + of_nat (length (take (read_room t) bs)),
        t_md5 := if t_type t = TASK_DOWNLOAD then md5_append (t_md5 t) (take (read_room t) bs) else t_md5 t\<rparr>)"
  by (cases "t_type t = TASK_DOWNLOAD"; cases "take (read_room t) bs = []")
    (simp_all add: read_to_taskbuf_def Let_def del: take_eq_Nil)

lemma read_keeps:
  assumes "read_to_taskbuf r t = (ret, t')"
  shows "t_filename t' = t_filename t" "t_disk_filename t' = t_disk_filename t" "t_checksum t' = t_checksum t"
    "t_type t' = t_type t" "peer_list t' = peer_list t" "total_written t' = total_written t"
    "t_type t = TASK_DOWNLOAD \<Longrightarrow> t_md5 t' = md5_append (t_md5 t) (snd (taskbuf_put r t))"
proof -
  have "t' = t \<and> snd (taskbuf_put r t) = []" if "r = Fail e" for e
    using assms that by (simp add: read_to_taskbuf_def taskbuf_put_def)
  moreover have "snd (taskbuf_put r t) = take (read_room t) bs" if "r = Got bs" for bs
    using that by (simp add: taskbuf_put_def)
  ultimately show "t_filename t' = t_filename t" "t_disk_filename t' = t_disk_filename t" "t_checksum t' = t_checksum t"
    "t_type t' = t_type t" "peer_list t' = peer_list t" "total_written t' = total_written t"
    "t_type t = TASK_DOWNLOAD \<Longrightarrow> t_md5 t' = md5_append (t_md5 t) (snd (taskbuf_put r t))"
    using assms by (cases r; auto simp: read_got md5_append_def)+
qed

lemma next_write_get:
  assumes "next_write t ws = Some ((ret, t', out), ws')" "buf_ok t"
  shows "buf_ok t'" "queue t = out @ queue t'" "length out \<le> TASKBUFSIZ"
    "total_written t' = total_written t + of_nat (length out)"
proof -
  obtain w where w: "write_from_taskbuf w t = (ret, t', out)"
    using assms(1) by (auto simp: next_write_def split: if_splits list.splits)
  then have g: "taskbuf_get w t = (t', out)" by (simp add: taskbuf_get_def)
  then show "buf_ok t'" "queue t = out @ queue t'" using taskbuf_get_ok [OF assms(2), of w] by simp_all
  then show "length out \<le> TASKBUFSIZ"
    using queue_length [OF assms(2)] assms(2) by (auto simp: buf_ok_def)
  show "total_written t' = total_written t + of_nat (length out)"
    using w by (auto simp: write_from_taskbuf_def Let_def split: if_splits io.splits)
qed

lemma next_write_keeps:
  assumes "next_write t ws = Some ((ret, t', out), ws')"
  shows "t_filename t' = t_filename t" "t_disk_filename t' = t_disk_filename t" "t_checksum t' = t_checksum t"
    "t_type t' = t_type t" "peer_list t' = peer_list t" "t_md5 t' = t_md5 t"
  using assms
  by (auto simp: next_write_def write_from_taskbuf_def Let_def split: if_splits list.splits io.splits)

lemma upload_loop_fifo:
  assumes "buf_ok t" "upload_loop t rs ws = (e, ins, outs)"
  shows "\<exists>rest. queue t @ ins = outs @ rest \<and> (e = Complete \<longrightarrow> rest = [])"
  using assms
proof (induction rs arbitrary: t ws e ins outs)
  case (Nil t ws e ins outs)
  then show ?case
    by (subst (asm) upload_loop.simps) (auto split: option.splits if_splits dest: next_write_get(2))
next
  case (Cons r rs t ws e ins outs)
  show ?case
  proof (cases "next_write t ws")
    case None
    then show ?thesis using Cons.prems by (subst (asm) upload_loop.simps) auto
  next
    case (Some p)
    then obtain ret t1 out ws1 where nw: "next_write t ws = Some ((ret, t1, out), ws1)" by (metis prod.collapse)
    note g = next_write_get [OF nw Cons.prems(1)]
    obtain ret2 t2 where r: "read_to_taskbuf r t1 = (ret2, t2)" by fastforce
    define data where "data = snd (taskbuf_put r t1)"
    have p: "buf_ok t2" "queue t2 = queue t1 @ data"
      using taskbuf_put_ok [OF g(1), of r] read_is_put [OF r] by (simp_all add: data_def)
    obtain e2 ins2 outs2 where l: "upload_loop t2 rs ws1 = (e2, ins2, outs2)" by (metis prod_cases3)
    have run: "upload_loop t (r # rs) ws =
        (if ret = TBUF_ERROR then (Failed, [], out)
         else if ret2 = TBUF_ERROR then (Failed, data, out)
         else if ret2 = TBUF_END \<and> t_head t2 = t_tail t2 then (Complete, data, out)
         else (e2, data @ ins2, out @ outs2))"
      by (subst upload_loop.simps) (simp add: nw r l data_def Let_def)
    show ?thesis
      using Cons.prems(2) g p queue_empty [OF p(1)] Cons.IH [OF p(1) l] unfolding run
      by (auto split: if_splits)
  qed
qed

text \<open>Everything \<open>download_loop\<close> keeps, in one induction.\<close>

lemma download_loop_keeps:
  assumes "buf_ok t" "download_loop j smp lw t rs ws = (e, t', ins, outs)"
  shows "buf_ok t' \<and> queue t @ ins = outs @ queue t' \<and> (e = Complete \<longrightarrow> queue t' = []) \<and>
    t_filename t' = t_filename t \<and> t_disk_filename t' = t_disk_filename t \<and> t_checksum t' = t_checksum t \<and>
    t_type t' = t_type t \<and> peer_list t' = peer_list t \<and> total_written t' = total_written t + of_nat (length outs) \<and>
    (unat (total_written t) \<le> MAX_FILESIZE \<longrightarrow> length outs \<le> MAX_FILESIZE - unat (total_written t) + TASKBUFSIZ) \<and>
    (\<forall>m. t_type t = TASK_DOWNLOAD \<longrightarrow> md5_rep (t_md5 t) m \<longrightarrow> length (m @ ins) < 2 ^ 60 \<longrightarrow>
       md5_rep (t_md5 t') (m @ ins))"
  using assms
proof (induction rs arbitrary: j smp lw t ws e t' ins outs)
  case (Cons r rs)
  obtain ret t1 where r: "read_to_taskbuf r t = (ret, t1)" by fastforce
  define data where "data = snd (taskbuf_put r t)"
  have p: "buf_ok t1" "queue t1 = queue t @ data"
    using taskbuf_put_ok [OF Cons.prems(1), of r] read_is_put [OF r] by (simp_all add: data_def)
  note k = read_keeps [OF r, folded data_def]
  have md: "md5_rep (t_md5 t1) (m @ data)"
    if "t_type t = TASK_DOWNLOAD" "md5_rep (t_md5 t) m" "length (m @ data) < 2 ^ 60" for m
    using md5_append_rep [OF that(2), of data] that(3) k(7) [OF that(1)] by simp
  show ?case
  proof (cases "ret = TBUF_ERROR \<or> ret = TBUF_END \<and> t_head t1 = t_tail t1")
    case True
    then have "t' = t1" "ins = data" "outs = []" "e = Complete \<longrightarrow> t_head t1 = t_tail t1"
      using Cons.prems(2) by (auto simp: r data_def Let_def split: if_splits)
    then show ?thesis using p k md queue_empty [OF p(1)] by auto
  next
    case go: False
    show ?thesis
    proof (cases "next_write t1 ws")
      case None
      then have "t' = t1" "ins = data" "outs = []" "e = Stuck"
        using Cons.prems(2) go by (auto simp: r data_def Let_def split: if_splits)
      then show ?thesis using p k md by auto
    next
      case (Some q)
      then obtain ret2 t2 out ws1 where nw: "next_write t1 ws = Some ((ret2, t2, out), ws1)" by (metis prod.collapse)
      note g = next_write_get [OF nw p(1)] and h = next_write_keeps [OF nw]
      define smp' where "smp' = smp[j mod SAMPLESIZE := uint (total_written t2) - lw]"
      obtain e3 t3 ins3 outs3 where l: "download_loop (Suc (j mod SAMPLESIZE)) smp' (uint (total_written t2)) t2 rs ws1 =
          (e3, t3, ins3, outs3)" by (metis prod_cases4)
      have run: "download_loop j smp lw t (r # rs) ws =
          (if ret2 = TBUF_ERROR \<or> unat (total_written t2) > MAX_FILESIZE \<or>
              sum_list smp' div int SAMPLESIZE < MIN_TRANSRATE then (Failed, t2, data, out)
           else (e3, t3, data @ ins3, out @ outs3))"
        using go by (auto simp: r nw l data_def [symmetric] smp'_def [symmetric] Let_def)
      show ?thesis
      proof (cases "ret2 = TBUF_ERROR \<or> unat (total_written t2) > MAX_FILESIZE \<or>
              sum_list smp' div int SAMPLESIZE < MIN_TRANSRATE")
        case True
        then have "e = Failed" "t' = t2" "ins = data" "outs = out" using Cons.prems(2) unfolding run by auto
        then show ?thesis using p g h k md by auto
      next
        case False
        then have eq: "e = e3" "t' = t3" "ins = data @ ins3" "outs = out @ outs3"
          and le: "unat (total_written t2) \<le> MAX_FILESIZE"
          using Cons.prems(2) unfolding run by auto
        note ih = Cons.IH [OF g(1) l]
        have "unat (total_written t) \<le> MAX_FILESIZE \<longrightarrow> unat (total_written t2) = unat (total_written t) + length out"
          using g(3,4) k(6)
          by (auto simp: unat_plus_u32 unsigned_of_nat take_bit_eq_mod TASKBUFSIZ_def MAX_FILESIZE_def)
        then have "unat (total_written t) \<le> MAX_FILESIZE \<longrightarrow>
            length outs \<le> MAX_FILESIZE - unat (total_written t) + TASKBUFSIZ"
          using ih le eq by auto
        moreover have "md5_rep (t_md5 t') (m @ ins)"
          if "t_type t = TASK_DOWNLOAD" "md5_rep (t_md5 t) m" "length (m @ ins) < 2 ^ 60" for m
        proof -
          have "t_type t2 = TASK_DOWNLOAD" "md5_rep (t_md5 t2) (m @ data)" "length ((m @ data) @ ins3) < 2 ^ 60"
            using md [OF that(1,2)] that(1,3) h(4,6) k(4) unfolding eq by simp_all
          then have "md5_rep (t_md5 t3) ((m @ data) @ ins3)" using ih by blast
          then show ?thesis unfolding eq by simp
        qed
        moreover have "queue t @ ins = outs @ queue t'"
        proof -
          have "queue t @ data @ ins3 = queue t1 @ ins3" by (simp add: p(2))
          also have "\<dots> = out @ (queue t2 @ ins3)" by (simp add: g(2))
          also have "queue t2 @ ins3 = outs3 @ queue t3" using ih by blast
          finally show ?thesis unfolding eq by simp
        qed
        moreover have "total_written t' = total_written t + of_nat (length outs)"
          using ih g(4) k(6) unfolding eq by (simp add: add.assoc)
        moreover have "buf_ok t' \<and> (e = Complete \<longrightarrow> queue t' = [])" using ih unfolding eq by blast
        moreover have "t_filename t' = t_filename t \<and> t_disk_filename t' = t_disk_filename t \<and>
            t_checksum t' = t_checksum t \<and> t_type t' = t_type t \<and> peer_list t' = peer_list t"
          using ih h k(1-5) unfolding eq by simp
        ultimately show ?thesis by blast
      qed
    qed
  qed
qed auto

section \<open>Uploads\<close>

lemma read_request_ok: "buf_ok t \<Longrightarrow> read_request rs t = Request t' \<Longrightarrow> buf_ok t'"
proof (induction rs arbitrary: t)
  case (Cons r rs)
  obtain ret t1 where r: "read_to_taskbuf r t = (ret, t1)" by fastforce
  have "buf_ok t1" using taskbuf_put_ok [OF Cons.prems(1), of r] read_is_put [OF r] by simp
  then show ?case using Cons.IH Cons.prems(2) r by (auto simp: Let_def split: if_splits)
qed simp

lemma emptied_ok: "buf_ok t \<Longrightarrow> buf_ok (t\<lparr>t_filename := n, t_head := 0, t_tail := 0\<rparr>) \<and>
    queue (t\<lparr>t_filename := n, t_head := 0, t_tail := 0\<rparr>) = []"
  by (simp add: buf_ok_def queue_def)

lemma c_str_bounds: "length (c_str bs) \<le> length bs \<and> set (c_str bs) \<subseteq> set bs \<and> 0 \<notin> set (c_str bs)"
  unfolding c_str_def using length_takeWhile_le set_takeWhileD by fastforce

lemma scan_get_cases:
  assumes "osp2p_snscanf buf tail (ascii ''GET %s OSP2P'' @ [10]) = Scanned as ok"
  shows "scan_get buf tail = Odd_request \<or>
    (\<exists>str. as = [Str str] \<and> scan_get buf tail =
       (if length str \<ge> FILENAMESIZ then Overrun_name else if ok then Name (c_str str) else Odd_request))"
  using assms by (cases as; cases "hd as"; cases "tl as") (simp_all add: scan_get_def)

lemma scan_get_name:
  assumes "scan_get buf tail = Name name"
  shows "length name < FILENAMESIZ \<and> 0 \<notin> set name"
proof (cases "osp2p_snscanf buf tail (ascii ''GET %s OSP2P'' @ [10])")
  case (Scanned as ok)
  obtain str where "length str < FILENAMESIZ" "name = c_str str"
    using scan_get_cases [OF Scanned] assms by (force simp: not_le split: if_splits)
  then show ?thesis using c_str_bounds [of str] by simp
qed (use assms in \<open>simp add: scan_get_def\<close>)

text \<open>A request that ends in a newline is read inside the buffer and leaves the name inside its field.\<close>

lemma scan_get_ended:
  assumes "ended buf tail" "tail < FILENAMESIZ"
  shows "scan_get buf tail \<noteq> Overrun_name"
proof -
  obtain as ok where scan: "osp2p_snscanf buf tail (ascii ''GET %s OSP2P'' @ [10]) = Scanned as ok"
    and "\<And>str. Str str \<in> set as \<Longrightarrow> length str \<le> tail"
    using snscanf_stays [OF assms(1)] by metis
  then show ?thesis using assms(2) scan_get_cases [OF scan] by (force split: if_splits)
qed

text \<open>C30: An upload serves only what it should: whatever the peer requests, a file is opened only if its
  name has no slash and does not start with two dots, so that it is in the shared directory; the
  name fits its field; and the peer gets the bytes read from the file in order, all of them when
  the transfer completes.\<close>

theorem upload_safe:
  assumes "buf_ok t" and "task_upload can_open request rs ws t = Served name e ins outs"
  shows "can_open name \<and> 47 \<notin> set name \<and> take 2 name \<noteq> ascii ''..'' \<and> length name < FILENAMESIZ \<and> 0 \<notin> set name \<and>
    (\<exists>rest. ins = outs @ rest \<and> (e = Complete \<longrightarrow> rest = []))"
proof -
  obtain t1 where t1: "read_request request t = Request t1"
    and n: "scan_get (t_buf t1) (unat (t_tail t1)) = Name name"
    and safe: "47 \<notin> set name" "take 2 name \<noteq> ascii ''..''" "can_open name"
    and l: "upload_loop (t1\<lparr>t_filename := name, t_head := 0, t_tail := 0\<rparr>) rs ws = (e, ins, outs)"
    using assms(2)
    by (auto simp: task_upload_def Let_def split: request.splits requested.splits if_splits option.splits prod.splits)
  have ok: "buf_ok t1" by (rule read_request_ok [OF assms(1) t1(1)])
  then show ?thesis
    using safe scan_get_name [OF n] upload_loop_fifo [OF _ l] emptied_ok [OF ok, of name] by simp
qed

text \<open>C31: Uploads stay inside their memory when the request is a line: a request that ends in a newline,
  whatever else it holds, neither makes the scanner leave the task's buffer nor overflows the name.\<close>

theorem upload_in_bounds:
  assumes "buf_ok t" and "read_request request t = Request t1"
    and "t_tail t1 \<noteq> 0" and "t_buf t1 ! (unat (t_tail t1) - 1) = 10"
  shows "task_upload can_open request rs ws t \<noteq> Corrupts"
proof (cases "unat (t_tail t1) \<ge> FILENAMESIZ - 12")
  case False
  have "buf_ok t1" by (rule read_request_ok [OF assms(1,2)])
  then have "ended (t_buf t1) (unat (t_tail t1))"
    using assms(3,4) False by (auto simp: ended_def is_space_def buf_ok_def unat_gt_0 FILENAMESIZ_def TASKBUFSIZ_def)
  then have "scan_get (t_buf t1) (unat (t_tail t1)) \<noteq> Overrun_name"
    by (rule scan_get_ended) (use False in simp)
  then show ?thesis
    using assms(2) by (auto simp: task_upload_def Let_def split: requested.splits prod.splits)
qed (use assms(2) in \<open>simp add: task_upload_def\<close>)

section \<open>Downloads\<close>

lemma open_local_fresh:
  "open_local fs bad fn is = Opened name \<Longrightarrow> fs name = None \<and> name \<in> disk_name fn ` set is"
  by (induction "is") (auto simp: Let_def split: if_splits)

lemma finish_text_is_reference:
  "md5_rep pms msg \<Longrightarrow> length msg < 2 ^ 60 \<Longrightarrow> md5_finish_text pms True = finish_text (md5_reference msg) True 0"
  by (simp add: md5_finish_text_def md5_finish_rep)

text \<open>The digest text of a message, as the client compares it with the tracker's.\<close>

definition checksum_of :: "u8 list \<Rightarrow> u8 list" where
  "checksum_of msg = ascii (finish_text (md5_reference msg) True 0)"

lemma download_loop_start:
  assumes "buf_ok t" "queue t = []" "total_written t = 0"
    and "download_loop 0 initial_rates 0 (t\<lparr>t_disk_filename := name\<rparr>) rs ws =
      (e, t', ins, outs)"
  shows "buf_ok t' \<and> ins = outs @ queue t' \<and> length outs \<le> MAX_FILESIZE + TASKBUFSIZ \<and>
    length ins \<le> MAX_FILESIZE + 2 * TASKBUFSIZ \<and> total_written t' = of_nat (length outs) \<and>
    t_filename t' = t_filename t \<and> t_disk_filename t' = name \<and> t_checksum t' = t_checksum t \<and>
    t_type t' = t_type t \<and> peer_list t' = peer_list t \<and>
    (\<forall>m. t_type t = TASK_DOWNLOAD \<longrightarrow> md5_rep (t_md5 t) m \<longrightarrow> length m < 2 ^ 59 \<longrightarrow> md5_rep (t_md5 t') (m @ ins))"
    and "e = Complete \<longrightarrow> ins = outs"
proof -
  let ?t = "t\<lparr>t_disk_filename := name\<rparr>"
  have t: "buf_ok ?t" "queue ?t = []" using assms(1,2) by (simp_all add: buf_ok_def queue_def)
  note k = download_loop_keeps [OF t(1) assms(4)]
  have io: "ins = outs @ queue t'" using k t(2) by simp
  have out: "length outs \<le> MAX_FILESIZE + TASKBUFSIZ" using k assms(3) by simp
  have q: "length (queue t') \<le> TASKBUFSIZ" using k queue_length [of t'] by (auto simp: buf_ok_def)
  have len: "length ins \<le> MAX_FILESIZE + 2 * TASKBUFSIZ" using io out q by simp
  have md: "md5_rep (t_md5 t') (m @ ins)"
    if "t_type t = TASK_DOWNLOAD" "md5_rep (t_md5 t) m" "length m < 2 ^ 59" for m
  proof -
    have "length (m @ ins) < 2 ^ 60" using that(3) len by (simp add: MAX_FILESIZE_def TASKBUFSIZ_def)
    then show ?thesis using k that by simp
  qed
  show "e = Complete \<longrightarrow> ins = outs" using k io by simp
  show "buf_ok t' \<and> ins = outs @ queue t' \<and> length outs \<le> MAX_FILESIZE + TASKBUFSIZ \<and>
    length ins \<le> MAX_FILESIZE + 2 * TASKBUFSIZ \<and> total_written t' = of_nat (length outs) \<and>
    t_filename t' = t_filename t \<and> t_disk_filename t' = name \<and> t_checksum t' = t_checksum t \<and>
    t_type t' = t_type t \<and> peer_list t' = peer_list t \<and>
    (\<forall>m. t_type t = TASK_DOWNLOAD \<longrightarrow> md5_rep (t_md5 t) m \<longrightarrow> length m < 2 ^ 59 \<longrightarrow> md5_rep (t_md5 t') (m @ ins))"
    using k io out len md assms(3) by simp
qed

text \<open>C33: A download attempt is accepted only for a new local file whose contents, together with what the
  task received before from other peers (\<open>earlier\<close>, empty for the first peer), have the checksum that the
  tracker gave; the file is not empty and never larger than 10 MB and one buffer; and the
  tracker is told only when the file has the requested name.\<close>

theorem download_verified:
  assumes "buf_ok t" and "queue t = []" and "total_written t = 0" and "t_type t = TASK_DOWNLOAD"
    and "md5_rep (t_md5 t) earlier" and "length earlier < 2 ^ 59"
    and "download_attempt listen_addr listen_port fs t a = Accepted fs' told"
  shows "\<exists>name contents. fs name = None \<and> name \<in> disk_name (t_filename t) ` {0..<50} \<and> fs' = fs(name \<mapsto> contents) \<and>
    contents \<noteq> [] \<and> length contents \<le> MAX_FILESIZE + TASKBUFSIZ \<and>
    checksum_of (earlier @ contents) = t_checksum t \<and> (told \<longleftrightarrow> t_filename t = name)"
proof -
  obtain name t' ins outs where o: "open_local fs (broken a) (t_filename t) [0..<50] = Opened name"
    and l: "download_loop 0 initial_rates 0 (t\<lparr>t_disk_filename := name\<rparr>)
        (socket_reads a) (disk_writes a) = (Complete, t', ins, outs)"
    and acc: "total_written t' > 0" "t_checksum t' = ascii (md5_finish_text (t_md5 t') True)"
      "fs' = fs(name \<mapsto> outs)" "told = (t_filename t' = t_disk_filename t')"
    using assms(7)
    by (auto simp: download_attempt_def Let_def split: if_splits opened.splits prod.splits loop_end.splits)
  note k = download_loop_start [OF assms(1-3) l]
  have "md5_rep (t_md5 t') (earlier @ outs)" using k assms(4-6) by simp
  moreover have "length (earlier @ outs) < 2 ^ 60"
    using k(1) assms(6) by (simp add: MAX_FILESIZE_def TASKBUFSIZ_def)
  ultimately have "checksum_of (earlier @ outs) = t_checksum t"
    using finish_text_is_reference acc(2) k(1) by (simp add: checksum_of_def)
  moreover have "outs \<noteq> []" using acc(1) k(1) by auto
  ultimately show ?thesis using open_local_fresh [OF o] acc(3,4) k(1) by auto
qed

text \<open>A download task that has not contacted a peer since \<open>earlier\<close> was received.\<close>

definition fresh_download :: "task \<Rightarrow> u8 list \<Rightarrow> bool" where
  "fresh_download t earlier \<longleftrightarrow> length (t_buf t) = TASKBUFSIZ \<and> t_head t = 0 \<and> t_tail t = 0 \<and> total_written t = 0 \<and>
     t_type t = TASK_DOWNLOAD \<and> md5_rep (t_md5 t) earlier \<and> length earlier < 2 ^ 59"

text \<open>A peer that sends \<open>c\<close> in one piece and closes the connection, and one that breaks off after \<open>c\<close>.\<close>

definition sends :: "u8 list \<Rightarrow> attempt" where
  "sends c = \<lparr>connects = True, broken = \<lambda>_. False, socket_reads = [Got c, Got []], disk_writes = [Got (length c)],
     have_reply = []\<rparr>"

definition breaks_after :: "u8 list \<Rightarrow> attempt" where
  "breaks_after c = \<lparr>connects = True, broken = \<lambda>_. False, socket_reads = [Got c, Fail EOTHER], disk_writes = [Got (length c)],
     have_reply = []\<rparr>"

lemma loop_first_chunk:
  assumes "fresh_download t earlier" "c \<noteq> []" "length c < TASKBUFSIZ"
  obtains t' where "download_loop 0 initial_rates 0 t (Got c # rs) [Got (length c)] =
      (let (e, t3, ins, outs) = download_loop 1 (initial_rates[0 := int (length c)])
         (int (length c)) t' rs [] in (e, t3, c @ ins, c @ outs))"
    "t_head t' = t_tail t'" "total_written t' = of_nat (length c)" "t_filename t' = t_filename t"
    "t_disk_filename t' = t_disk_filename t" "t_checksum t' = t_checksum t" "t_type t' = t_type t"
    "peer_list t' = peer_list t" "length (t_buf t') = TASKBUFSIZ" "md5_rep (t_md5 t') (earlier @ c)"
proof -
  let ?n = "length c"
  have f: "length (t_buf t) = TASKBUFSIZ" "t_head t = 0" "t_tail t = 0" "total_written t = 0" "t_type t = TASK_DOWNLOAD"
    "md5_rep (t_md5 t) earlier" "length earlier < 2 ^ 59"
    using assms(1) by (simp_all add: fresh_download_def)
  have room: "read_room t = TASKBUFSIZ" using f by (simp add: read_room_def Let_def)
  have un: "unat (of_nat ?n :: u32) = ?n"
    using assms(3) by (simp add: unsigned_of_nat take_bit_eq_mod TASKBUFSIZ_def)
  then have ne: "(of_nat ?n :: u32) \<noteq> 0" using assms(2) by (metis length_0_conv unat_eq_0)
  define t1 where "t1 = t\<lparr>t_buf := blit (t_buf t) 0 c, t_tail := of_nat ?n, t_md5 := md5_append (t_md5 t) c\<rparr>"
  define t2 where "t2 = t1\<lparr>t_head := of_nat ?n, total_written := of_nat ?n\<rparr>"
  have r: "read_to_taskbuf (Got c) t = (TBUF_OK, t1)" "snd (taskbuf_put (Got c) t) = c"
    using assms(2,3) f by (simp_all add: read_got room t1_def taskbuf_put_def)
  have "write_chunk t1 = c"
    using assms(2,3) f un by (simp add: write_chunk_def Let_def t1_def blit_def)
  then have w: "next_write t1 [Got ?n] = Some ((TBUF_OK, t2, c), [])"
    using ne assms(2) f by (simp add: next_write_def write_from_taskbuf_def t1_def t2_def Let_def)
  have ui: "uint (of_nat ?n :: u32) = int ?n" using un by (simp add: uint_nat)
  have tw: "unat (total_written t2) = ?n" "uint (total_written t2) = int ?n" using un ui by (simp_all add: t2_def)
  have rate: "\<not> sum_list (initial_rates[0 := int ?n]) div int SAMPLESIZE < MIN_TRANSRATE"
    by (simp add: initial_rates_def SAMPLESIZE_def MIN_TRANSRATE_def numeral_eq_Suc)
  show ?thesis
  proof (rule that [of t2])
    show "download_loop 0 initial_rates 0 t (Got c # rs) [Got ?n] =
      (let (e, t3, ins, outs) = download_loop 1 (initial_rates[0 := int ?n])
         (int ?n) t2 rs [] in (e, t3, c @ ins, c @ outs))"
      using rate assms(3) tw by (simp add: r w Let_def MAX_FILESIZE_def TASKBUFSIZ_def)
    show "md5_rep (t_md5 t2) (earlier @ c)"
      using md5_append_rep [OF f(6), of c] f(7) assms(3) by (simp add: t2_def t1_def TASKBUFSIZ_def)
  qed (use f assms(3) in \<open>simp_all add: t2_def t1_def\<close>)
qed

lemma honest_peer_accepted_at:
  assumes "fresh_download t earlier" and "c \<noteq> []" and "length c < TASKBUFSIZ"
    and "fs (disk_name (t_filename t) 0) = None"
    and "\<not> (p_addr (peer_list t ! 0) = listen_addr \<and> p_port (peer_list t ! 0) = listen_port)"
  shows "(\<exists>told. download_attempt listen_addr listen_port fs t (sends c) =
      Accepted (fs(disk_name (t_filename t) 0 \<mapsto> c)) told) = (checksum_of (earlier @ c) = t_checksum t)"
proof -
  let ?name = "disk_name (t_filename t) 0"
  have o: "open_local fs (\<lambda>_. False) (t_filename t) [0..<50] = Opened ?name"
    using assms(4) by (simp add: upt_conv_Cons Let_def)
  have f: "fresh_download (t\<lparr>t_disk_filename := ?name\<rparr>) earlier" using assms(1) by (simp add: fresh_download_def)
  obtain t' where l: "download_loop 0 initial_rates 0 (t\<lparr>t_disk_filename := ?name\<rparr>)
        (Got c # [Got []]) [Got (length c)] =
      (let (e, t3, ins, outs) = download_loop 1 (initial_rates[0 := int (length c)])
         (int (length c)) t' [Got []] [] in (e, t3, c @ ins, c @ outs))"
    and k: "t_head t' = t_tail t'" "total_written t' = of_nat (length c)" "t_checksum t' = t_checksum t"
      "t_type t' = TASK_DOWNLOAD" "md5_rep (t_md5 t') (earlier @ c)"
    by (rule loop_first_chunk [OF f assms(2,3), of "[Got []]"]) (use assms(1) in \<open>auto simp: fresh_download_def\<close>)
  obtain t'' where e: "read_to_taskbuf (Got []) t' = (TBUF_END, t'')" "t_head t'' = t_tail t''"
    "total_written t'' = of_nat (length c)" "t_checksum t'' = t_checksum t" "t_md5 t'' = t_md5 t'"
    using k by (simp add: read_got md5_append_def)
  have loop: "download_loop 0 initial_rates 0 (t\<lparr>t_disk_filename := ?name\<rparr>)
      (Got c # [Got []]) [Got (length c)] = (Complete, t'', c, c)"
    unfolding l using e by (simp add: Let_def taskbuf_put_def)
  have "length (earlier @ c) < 2 ^ 60" using assms(1,3) by (simp add: fresh_download_def TASKBUFSIZ_def)
  then have sum: "ascii (md5_finish_text (t_md5 t'') True) = checksum_of (earlier @ c)"
    using finish_text_is_reference k(5) by (simp add: e(5) checksum_of_def)
  have pos: "total_written t'' > 0"
    using assms(2,3) unfolding e(3) by (simp add: word_less_nat_alt unsigned_of_nat take_bit_eq_mod TASKBUFSIZ_def)
  show ?thesis
    using assms(5) o loop sum pos e(4) by (auto simp: download_attempt_def sends_def Let_def simp del: download_loop.simps)
qed

text \<open>A peer that sends the pieces \<open>cs\<close> and closes the connection, to a disk that takes each piece whole.\<close>

definition delivers :: "u8 list list \<Rightarrow> attempt" where
  "delivers cs = \<lparr>connects = True, broken = \<lambda>_. False, socket_reads = map Got cs @ [Got []],
     disk_writes = map (\<lambda>c. Got (length c)) cs, have_reply = []\<rparr>"

text \<open>How \<open>read\<close> may cut a stream of which \<open>p\<close> bytes have come: every piece has a byte, and none is longer
  than the free bytes up to the end of the buffer, the count that \<open>read_to_taskbuf\<close> asks for.\<close>

fun cut_ok :: "nat \<Rightarrow> u8 list list \<Rightarrow> bool" where
  "cut_ok p [] = True"
| "cut_ok p (c # cs) \<longleftrightarrow> c \<noteq> [] \<and> length c \<le> TASKBUFSIZ - p mod TASKBUFSIZ \<and> cut_ok (p + length c) cs"

text \<open>The rate that the client demands: at every piece the last ten, \<open>w\<close> before the first of them, have
  at least ten times \<open>MIN_TRANSRATE\<close> bytes.\<close>

fun fast_enough :: "int list \<Rightarrow> nat list \<Rightarrow> bool" where
  "fast_enough w [] = True"
| "fast_enough w (n # ns) \<longleftrightarrow>
     int SAMPLESIZE * MIN_TRANSRATE \<le> sum_list (tl w @ [int n]) \<and> fast_enough (tl w @ [int n]) ns"

lemma ring_window:
  "j < length ring \<Longrightarrow> rotate (Suc j) (ring[j := x]) = tl (rotate j ring) @ [x]"
proof -
  assume j: "j < length ring"
  then have "rotate j (ring[j := x]) = x # drop (Suc j) ring @ take j ring"
    by (simp add: rotate_drop_take drop_update_swap Cons_nth_drop_Suc [symmetric])
  moreover have "rotate j ring = ring ! j # drop (Suc j) ring @ take j ring"
    using j by (simp add: rotate_drop_take Cons_nth_drop_Suc)
  ultimately show ?thesis by simp
qed

lemma sum_list_rotate_int: "sum_list (rotate n xs) = sum_list (xs :: int list)"
proof (induction n)
  case (Suc n)
  have "sum_list (rotate1 ys) = sum_list ys" for ys :: "int list"
    by (cases ys) simp_all
  then show ?case using Suc by simp
qed simp

lemma chunk_through:
  assumes "length (t_buf t) = TASKBUFSIZ" "t_head t = t_tail t" "c \<noteq> []"
    and "length c \<le> TASKBUFSIZ - unat (t_tail t) mod TASKBUFSIZ"
  obtains t1 t2 where "read_to_taskbuf (Got c) t = (TBUF_OK, t1)" "snd (taskbuf_put (Got c) t) = c"
    "next_write t1 (Got (length c) # ws) = Some ((TBUF_OK, t2, c), ws)"
    "length (t_buf t2) = TASKBUFSIZ" "t_head t2 = t_tail t2" "t_tail t2 = t_tail t + of_nat (length c)"
    "total_written t2 = total_written t + of_nat (length c)"
proof -
  define p where "p = unat (t_tail t) mod TASKBUFSIZ"
  define t1 where "t1 = snd (read_to_taskbuf (Got c) t)"
  define t2 where "t2 = t1\<lparr>t_head := t_tail t1, total_written := total_written t1 + of_nat (length c)\<rparr>"
  let ?n = "length c"
  have p: "p < TASKBUFSIZ" "?n \<le> TASKBUFSIZ - p" using assms(4) by (simp_all add: p_def TASKBUFSIZ_def)
  have room: "read_room t = TASKBUFSIZ - p" using assms(2) by (simp add: read_room_def Let_def p_def)
  have t1: "t_head t1 = t_tail t" "t_tail t1 = t_tail t + of_nat ?n" "t_buf t1 = blit (t_buf t) p c"
    "total_written t1 = total_written t"
    using assms(2,3) p by (simp_all add: t1_def read_got room p_def)
  have un: "unat (of_nat ?n :: u32) = ?n"
    using p by (simp add: unsigned_of_nat take_bit_eq_mod TASKBUFSIZ_def)
  then have ne: "(of_nat ?n :: u32) \<noteq> 0" using assms(3) by (metis length_0_conv unat_eq_0)
  have tail: "unat (t_tail t1) mod TASKBUFSIZ = (if p + ?n < TASKBUFSIZ then p + ?n else 0)"
    using tail_position [of "t_tail t1" "t_tail t"] ring_index [OF p(1), of ?n] p un
    by (simp add: t1 p_def [symmetric])
  have "write_chunk t1 = c"
    using tail p assms(1,3) by (simp add: write_chunk_def Let_def t1 p_def [symmetric] blit_def)
  then have w: "next_write t1 (Got ?n # ws) = Some ((TBUF_OK, t2, c), ws)"
    using ne assms(3) by (simp add: next_write_def write_from_taskbuf_def Let_def t1 t2_def)
  show thesis
  proof (rule that)
    show "read_to_taskbuf (Got c) t = (TBUF_OK, t1)" using assms(3) p by (simp add: t1_def read_got room)
    show "snd (taskbuf_put (Got c) t) = c" using p by (simp add: taskbuf_put_def room)
    show "length (t_buf t2) = TASKBUFSIZ" using assms(1) p by (simp add: t2_def t1 blit_def)
  qed (use w in \<open>simp_all add: t2_def t1\<close>)
qed

text \<open>The loop takes every piece to the disk and ends with the end of the stream.\<close>

lemma pieces_complete:
  assumes "length (t_buf t) = TASKBUFSIZ" "t_head t = t_tail t" "unat (t_tail t) mod TASKBUFSIZ = p mod TASKBUFSIZ"
    and "cut_ok p cs" "length smp = SAMPLESIZE" "fast_enough (rotate j smp) (map length cs)"
    and "unat (total_written t) + length (concat cs) \<le> MAX_FILESIZE"
  shows "\<exists>t'. download_loop j smp (uint (total_written t)) t (map Got cs @ [Got []]) (map (\<lambda>c. Got (length c)) cs) =
    (Complete, t', concat cs, concat cs)"
  using assms
proof (induction cs arbitrary: j smp t p)
  case Nil
  then show ?case by (simp add: read_got taskbuf_put_def)
next
  case (Cons c cs)
  let ?ws = "map (\<lambda>c. Got (length c)) cs"
  have c: "c \<noteq> []" "length c \<le> TASKBUFSIZ - unat (t_tail t) mod TASKBUFSIZ" "length c \<le> TASKBUFSIZ"
    using Cons.prems(3,4) by auto
  obtain t1 t2 where r: "read_to_taskbuf (Got c) t = (TBUF_OK, t1)" "snd (taskbuf_put (Got c) t) = c"
    and w: "next_write t1 (Got (length c) # ?ws) = Some ((TBUF_OK, t2, c), ?ws)"
    and k: "length (t_buf t2) = TASKBUFSIZ" "t_head t2 = t_tail t2" "t_tail t2 = t_tail t + of_nat (length c)"
      "total_written t2 = total_written t + of_nat (length c)"
    by (rule chunk_through [OF Cons.prems(1,2) c(1,2)])
  have small: "unat (of_nat (length c) :: u32) = length c"
    using c(3) by (simp add: unsigned_of_nat take_bit_eq_mod TASKBUFSIZ_def)
  have tw: "unat (total_written t2) = unat (total_written t) + length c"
    using Cons.prems(7) small by (simp add: k(4) unat_plus_u32 MAX_FILESIZE_def)
  have sample: "uint (total_written t2) - uint (total_written t) = int (length c)"
    unfolding uint_nat tw of_nat_add by (rule add_diff_cancel_left')
  have pos: "unat (t_tail t2) mod TASKBUFSIZ = (p + length c) mod TASKBUFSIZ"
    using tail_position [of "t_tail t2" "t_tail t"] Cons.prems(3) small by (simp add: k(3) mod_add_left_eq)
  let ?j = "j mod SAMPLESIZE"
  let ?smp = "smp[?j := int (length c)]"
  have "rotate ?j smp = rotate j smp" using Cons.prems(5) rotate_conv_mod [of j smp] by simp
  then have win: "rotate (Suc ?j) ?smp = tl (rotate j smp) @ [int (length c)]"
    using ring_window [of ?j smp "int (length c)"] Cons.prems(5) by (simp add: SAMPLESIZE_def)
  then have "int SAMPLESIZE * MIN_TRANSRATE \<le> sum_list ?smp"
    using Cons.prems(6) sum_list_rotate_int [of "Suc ?j" ?smp] by simp
  then have rate: "\<not> sum_list ?smp div int SAMPLESIZE < MIN_TRANSRATE"
    by (simp add: SAMPLESIZE_def MIN_TRANSRATE_def)
  obtain t' where "download_loop (Suc ?j) ?smp (uint (total_written t2)) t2 (map Got cs @ [Got []]) ?ws =
      (Complete, t', concat cs, concat cs)"
    using Cons.IH [OF k(1,2) pos, of ?smp "Suc ?j"] Cons.prems(4-7) win tw by auto
  then show ?case
    using r w rate tw sample Cons.prems(7) by (simp add: Let_def)
qed

text \<open>C34: A peer that sends a whole file is accepted exactly when its checksum agrees: however the kernel
  cuts the file into reads, if the file is not empty and has at most 10 MB, the pieces come fast enough for
  the rate test, the disk takes what it is given and one of the fifty local names is free, then the download
  runs to the end of the file and saves exactly its bytes under that name when the checksum of \<open>earlier\<close>
  followed by the file is the tracker's, and otherwise leaves no file and turns to the next peer. \<open>earlier\<close>
  is what earlier peers sent for this task; for the first peer it is empty, and the check is the one the
  client means to make.\<close>

theorem honest_peer_accepted:
  assumes "fresh_download t earlier" and "concat cs \<noteq> []" and "length (concat cs) \<le> MAX_FILESIZE"
    and "cut_ok 0 cs" and "fast_enough initial_rates (map length cs)"
    and "open_local fs (\<lambda>_. False) (t_filename t) [0..<50] = Opened name"
    and "\<not> (p_addr (peer_list t ! 0) = listen_addr \<and> p_port (peer_list t ! 0) = listen_port)"
  shows "\<exists>t'. download_attempt listen_addr listen_port fs t (delivers cs) =
    (if checksum_of (earlier @ concat cs) = t_checksum t
     then Accepted (fs(name \<mapsto> concat cs)) (t_filename t = name) else Retry fs t')"
proof -
  let ?t = "t\<lparr>t_disk_filename := name\<rparr>"
  have f: "length (t_buf t) = TASKBUFSIZ" "t_head t = 0" "t_tail t = 0" "total_written t = 0" "t_type t = TASK_DOWNLOAD"
    "md5_rep (t_md5 t) earlier" "length earlier < 2 ^ 59" "buf_ok t" "queue t = []"
    using assms(1) by (simp_all add: fresh_download_def buf_ok_def queue_def)
  obtain t' where loop: "download_loop 0 initial_rates 0 ?t (map Got cs @ [Got []]) (map (\<lambda>c. Got (length c)) cs) =
      (Complete, t', concat cs, concat cs)"
    using pieces_complete [of ?t 0 cs initial_rates 0] assms(3-5) f by (auto simp: initial_rates_def)
  note k = download_loop_start [OF f(8,9,4) loop]
  have "length (earlier @ concat cs) < 2 ^ 60" using f(7) assms(3) by (simp add: MAX_FILESIZE_def)
  moreover have "md5_rep (t_md5 t') (earlier @ concat cs)" using k(1) f(5-7) by blast
  ultimately have sum: "ascii (md5_finish_text (t_md5 t') True) = checksum_of (earlier @ concat cs)"
    using finish_text_is_reference by (simp add: checksum_of_def)
  have "length (concat cs) \<noteq> 0" using assms(2) by simp
  then have pos: "total_written t' > 0"
    using k(1) assms(3) by (simp add: word_less_nat_alt unsigned_of_nat take_bit_eq_mod MAX_FILESIZE_def)
  have t': "t_checksum t' = t_checksum t" "t_filename t' = t_filename t" "t_disk_filename t' = name" using k(1) by blast+
  have "fs(name := None) = fs" using open_local_fresh [OF assms(6)] by auto
  then show ?thesis
    using assms(6,7) loop sum pos t'
    by (auto simp: download_attempt_def delivers_def Let_def simp del: download_loop.simps)
qed

text \<open>When a peer breaks off after some bytes, the client goes on to the next peer with a digest
  that still contains them: only a file that, behind those bytes, has the tracker's checksum is then
  accepted, so the correct file is rejected.\<close>

theorem retry_keeps_digest:
  assumes "fresh_download t []" and "b \<noteq> []" and "length b < TASKBUFSIZ"
    and "fs (disk_name (t_filename t) 0) = None"
    and "\<not> (p_addr (peer_list t ! 0) = listen_addr \<and> p_port (peer_list t ! 0) = listen_port)"
  shows "\<exists>t'. download_attempt listen_addr listen_port fs t (breaks_after b) = Retry fs t' \<and>
    fresh_download (task_pop_peer t') b \<and> t_checksum (task_pop_peer t') = t_checksum t \<and>
    t_filename (task_pop_peer t') = t_filename t \<and> peer_list (task_pop_peer t') = tl (peer_list t)"
proof -
  let ?name = "disk_name (t_filename t) 0"
  have o: "open_local fs (\<lambda>_. False) (t_filename t) [0..<50] = Opened ?name"
    using assms(4) by (simp add: upt_conv_Cons Let_def)
  have f: "fresh_download (t\<lparr>t_disk_filename := ?name\<rparr>) []" using assms(1) by (simp add: fresh_download_def)
  obtain t' where l: "download_loop 0 initial_rates 0 (t\<lparr>t_disk_filename := ?name\<rparr>)
        (Got b # [Fail EOTHER]) [Got (length b)] =
      (let (e, t3, ins, outs) = download_loop 1 (initial_rates[0 := int (length b)])
         (int (length b)) t' [Fail EOTHER] [] in (e, t3, b @ ins, b @ outs))"
    and k: "t_filename t' = t_filename t" "t_checksum t' = t_checksum t" "t_type t' = TASK_DOWNLOAD"
      "peer_list t' = peer_list t" "length (t_buf t') = TASKBUFSIZ" "md5_rep (t_md5 t') b"
    by (rule loop_first_chunk [OF f assms(2,3), of "[Fail EOTHER]"]) (use assms(1) in \<open>auto simp: fresh_download_def\<close>)
  have loop: "download_loop 0 initial_rates 0 (t\<lparr>t_disk_filename := ?name\<rparr>)
      (Got b # [Fail EOTHER]) [Got (length b)] = (Failed, t', b, b)"
    unfolding l by (simp add: read_to_taskbuf_def retry_def Let_def taskbuf_put_def)
  have "fs(?name := None) = fs" using assms(4) by auto
  then have "download_attempt listen_addr listen_port fs t (breaks_after b) = Retry fs t'"
    using assms(5) o loop by (auto simp: download_attempt_def breaks_after_def Let_def simp del: download_loop.simps)
  then show ?thesis
    using k assms(3) by (auto simp: fresh_download_def task_pop_peer_def TASKBUFSIZ_def)
qed

lemma fresh_raw: "fresh_download (task_new raw_task TASK_DOWNLOAD) []"
  using md5_init_rep [of "t_md5 raw_task"] by (simp add: fresh_download_def task_new_def raw_task_def)

text \<open>A task for a file named by the byte 65, from one peer, with the given checksum.\<close>

definition wanted :: "u8 list \<Rightarrow> task" where
  "wanted cs = (task_new raw_task TASK_DOWNLOAD)\<lparr>t_filename := [65], t_checksum := cs,
     peer_list := [\<lparr>p_alias = [], p_addr = 1, p_port = 80\<rparr>, \<lparr>p_alias = [], p_addr = 2, p_port = 80\<rparr>]\<rparr>"

lemma fresh_wanted: "fresh_download (wanted s) [] \<and> buf_ok (wanted s) \<and> queue (wanted s) = []"
  using fresh_raw by (simp add: fresh_download_def wanted_def buf_ok_def queue_def)

text \<open>A file of 8200 bytes in three reads, the second cut where the buffer ends, for a name that is taken.\<close>

definition three_reads :: "u8 list list" where
  "three_reads = [replicate 100 1, replicate 8092 2, replicate 8 3]"

lemma three_reads_arrive:
  "length (concat three_reads) = 8200" "cut_ok 0 three_reads" "fast_enough initial_rates (map length three_reads)"
proof -
  show "length (concat three_reads) = 8200" by (simp add: three_reads_def)
  show "cut_ok 0 three_reads" by (simp add: three_reads_def TASKBUFSIZ_def)
  have rates: "initial_rates = [640, 640, 640, 640, 640, 640, 640, 640, 640, 640]"
    by (simp add: initial_rates_def SAMPLESIZE_def MIN_TRANSRATE_def numeral_eq_Suc)
  have "map length three_reads = [100, 8092, 8]" by (simp add: three_reads_def)
  then show "fast_enough initial_rates (map length three_reads)"
    unfolding rates by (simp add: SAMPLESIZE_def MIN_TRANSRATE_def)
qed

lemma honest_peer_accepted_witness:
  "download_attempt 0 80 [[65] \<mapsto> []] (wanted (checksum_of (concat three_reads))) (delivers three_reads) =
     Accepted [[65] \<mapsto> [], [65, 126, 49, 126] \<mapsto> concat three_reads] False"
proof -
  have "concat three_reads \<noteq> []" using three_reads_arrive(1) by (metis list.size(3) zero_neq_numeral)
  moreover have "open_local [[65] \<mapsto> []] (\<lambda>_. False) [65] [0..<50] = Opened [65, 126, 49, 126]"
    by (simp add: upt_conv_Cons Let_def disk_name_def decimal_def FILENAMESIZ_def)
  ultimately show ?thesis
    using honest_peer_accepted [of "wanted (checksum_of (concat three_reads))" "[]" three_reads
        "[[65] \<mapsto> []]" "[65, 126, 49, 126]" 0 80] fresh_wanted three_reads_arrive
    by (simp add: wanted_def task_new_def MAX_FILESIZE_def)
qed

lemma download_verified_witness:
  "\<exists>name contents. Map.empty(disk_name [65] 0 \<mapsto> [7]) = Map.empty(name \<mapsto> contents) \<and> contents \<noteq> [] \<and>
     length contents \<le> MAX_FILESIZE + TASKBUFSIZ \<and> checksum_of contents = checksum_of [7]"
proof -
  obtain told where "download_attempt 0 80 Map.empty (wanted (checksum_of [7])) (sends [7]) =
     Accepted (Map.empty(disk_name [65] 0 \<mapsto> [7])) told"
    using honest_peer_accepted_at [of "wanted (checksum_of [7])" "[]" "[7]" "\<lambda>_. None" 0 80] fresh_wanted
    by (auto simp: wanted_def TASKBUFSIZ_def task_new_def)
  from download_verified [OF _ _ _ _ _ _ this, of "[]"] fresh_wanted [of "checksum_of [7]"]
  obtain name contents where "Map.empty(disk_name [65] 0 \<mapsto> [7]) = Map.empty(name \<mapsto> contents)" "contents \<noteq> []"
    "length contents \<le> MAX_FILESIZE + TASKBUFSIZ" "checksum_of contents = checksum_of [7]"
    by (auto simp: fresh_download_def wanted_def task_new_def)
  then show ?thesis by blast
qed

lemma retry_keeps_digest_witness:
  "\<exists>t'. download_attempt 0 80 (\<lambda>_. None) (wanted (checksum_of [7])) (breaks_after [9]) = Retry (\<lambda>_. None) t' \<and>
     fresh_download (task_pop_peer t') [9]"
  using retry_keeps_digest [of "wanted (checksum_of [7])" "[9]" "\<lambda>_. None" 0 80] fresh_wanted
  by (auto simp: wanted_def TASKBUFSIZ_def task_new_def)

text \<open>A request for the file \<open>f\<close>, the file's one byte, and a socket that takes it.\<close>

lemma request_for_f:
  defines "req \<equiv> ascii ''GET f OSP2P'' @ [10]"
  obtains t1 where "read_request [Got req] (task_new raw_task TASK_UPLOAD) = Request t1" "unat (t_tail t1) = 12"
    "t_buf t1 ! 11 = 10" "scan_get (t_buf t1) 12 = Name (ascii ''f'')"
proof -
  let ?t = "task_new raw_task TASK_UPLOAD"
  have req: "length req = 12" "req ! 11 = 10" "req \<noteq> []" by (simp_all add: req_def ascii_def)
  have t: "t_head ?t = 0" "t_tail ?t = 0" "length (t_buf ?t) = TASKBUFSIZ" by (simp_all add: task_new_def raw_task_def)
  obtain t1 where r: "read_to_taskbuf (Got req) ?t = (TBUF_OK, t1)" "unat (t_tail t1) = 12"
    "take (unat (t_tail t1)) (t_buf t1) = req"
    by (rule read_whole_chunk [OF t(1,3) req(3)]) (use t(2) req(1) in \<open>simp_all add: TASKBUFSIZ_def\<close>)
  have nl: "t_buf t1 ! 11 = 10"
    using arg_cong [OF r(3), of "\<lambda>xs. xs ! 11"] r(2) req(2) by simp
  have q: "read_request [Got req] ?t = Request t1" using r nl by (simp add: Let_def)
  have buf: "t_buf t1 = req @ drop 12 (t_buf t1)" using append_take_drop_id [of 12 "t_buf t1"] r(2,3) by metis
  have f: "readable (ascii ''GET %s OSP2P'' @ [10]) [Str (ascii ''f'')]" "writef_text (ascii ''GET %s OSP2P'' @ [10]) [Str (ascii ''f'')] = req"
    by (simp_all add: req_def ascii_def readable.simps is_space_def writef_text.simps plain_char_def is_alnum_def is_digit_def)
  have "osp2p_snscanf (t_buf t1) 12 (ascii ''GET %s OSP2P'' @ [10]) = Scanned [Str (ascii ''f'')] True"
    unfolding osp2p_snscanf_def by (rule scan_written [of _ "[]", unfolded list.size, OF _ _ f(1)]) (use buf f(2) req(1) in simp_all)
  then have "scan_get (t_buf t1) 12 = Name (ascii ''f'')"
    by (simp add: scan_get_def FILENAMESIZ_def ascii_def c_str_def)
  then show thesis using that q r(2) nl by blast
qed

lemma upload_safe_witness:
  "\<exists>e ins outs. task_upload (\<lambda>n. n = ascii ''f'')
     [Got (ascii ''GET f OSP2P'' @ [10])] [Got [5], Got []] [Got 1] (task_new raw_task TASK_UPLOAD) =
     Served (ascii ''f'') e ins outs \<and> 47 \<notin> set (ascii ''f'') \<and> length (ascii ''f'') < FILENAMESIZ"
proof -
  let ?t = "task_new raw_task TASK_UPLOAD"
  obtain t1 where r: "read_request [Got (ascii ''GET f OSP2P'' @ [10])] ?t = Request t1" "unat (t_tail t1) = 12"
    "scan_get (t_buf t1) 12 = Name (ascii ''f'')" by (rule request_for_f)
  obtain e ins outs where l: "upload_loop (t1\<lparr>t_filename := ascii ''f'', t_head := 0, t_tail := 0\<rparr>) [Got [5], Got []] [Got 1]
      = (e, ins, outs)" by (metis prod_cases3)
  have served: "task_upload (\<lambda>n. n = ascii ''f'') [Got (ascii ''GET f OSP2P'' @ [10])] [Got [5], Got []] [Got 1] ?t =
      Served (ascii ''f'') e ins outs"
    using r l by (simp add: task_upload_def FILENAMESIZ_def ascii_def)
  have "47 \<notin> set (ascii ''f'') \<and> length (ascii ''f'') < FILENAMESIZ"
    using upload_safe [OF _ served] task_new_ok [of raw_task] by (simp add: raw_task_def)
  with served show ?thesis by blast
qed

lemma upload_in_bounds_witness:
  "task_upload (\<lambda>n. False) [Got (ascii ''GET f OSP2P'' @ [10])] [] [] (task_new raw_task TASK_UPLOAD) \<noteq> Corrupts"
proof -
  obtain t1 where r: "read_request [Got (ascii ''GET f OSP2P'' @ [10])] (task_new raw_task TASK_UPLOAD) = Request t1"
    "unat (t_tail t1) = 12" "t_buf t1 ! 11 = 10" by (rule request_for_f)
  show ?thesis
    by (rule upload_in_bounds [OF _ r(1)]) (use r(2,3) task_new_ok [of raw_task] in \<open>auto simp: raw_task_def\<close>)
qed

text \<open>A peer that closes its connection after a percent sign makes the scanner pass the end of the request
  and take the bytes that happen to lie behind it; with hexadecimal digits there it does not stop before
  the end of the buffer.\<close>

lemma upload_corrupts:
  "task_upload can_open [Got (ascii ''GET %''), Got []] rs ws
     (task_new (raw_task\<lparr>t_buf := replicate TASKBUFSIZ 97\<rparr>) TASK_UPLOAD) = Corrupts"
proof -
  let ?raw = "raw_task\<lparr>t_buf := replicate TASKBUFSIZ 97\<rparr>"
  let ?t = "task_new ?raw TASK_UPLOAD" and ?get = "ascii ''GET %''"
  define m where "m = ?get @ replicate 8187 (97 :: u8)"
  have t: "t_head ?t = 0" "t_tail ?t = 0" "t_buf ?t = replicate TASKBUFSIZ 97" "t_type ?t = TASK_UPLOAD"
    by (simp_all add: task_new_def)
  define t1 where "t1 = ?t\<lparr>t_buf := m, t_tail := 5\<rparr>"
  have get: "length ?get = 5" by (simp add: ascii_def)
  have "blit (replicate TASKBUFSIZ 97) 0 ?get = m"
    by (simp add: blit_def m_def get TASKBUFSIZ_def)
  then have first: "read_to_taskbuf (Got ?get) ?t = (TBUF_OK, t1)"
    using t get by (simp add: read_to_taskbuf_def read_room_def Let_def TASKBUFSIZ_def t1_def) (simp add: ascii_def)
  have second: "read_to_taskbuf (Got []) t1 = (TBUF_END, t1)"
    by (simp add: read_to_taskbuf_def Let_def blit_def t1_def t(4))
  have at: "m ! 4 = 37" "m ! 5 = 97" "m ! 6 = 97" "length m = 8192" "m ! 0 = 71" "m ! 1 = 69" "m ! 2 = 84" "m ! 3 = 32"
    by (simp_all add: m_def ascii_def nth_append)
  have off: "scan_string m 5 7 = None"
  proof (rule scan_string_runs_off)
    fix k assume "7 \<le> k" "k < length m"
    then have "m ! k = 97" by (simp add: m_def nth_append get)
    then show "\<not> is_space (m ! k) \<and> m ! k \<noteq> 37" by (simp add: is_space_def)
  qed (simp_all add: at)
  have "scan_string m 5 4 = None"
    by (subst scan_string.simps) (simp add: at off emit_def is_space_def is_xdigit_def)
  moreover have "skip_space m 5 3 = Some 4"
    by (subst skip_space.simps, subst skip_space.simps) (simp add: at is_space_def)
  moreover have "m ! Suc 0 = 69" "m ! Suc (Suc 0) = 84" "m ! Suc (Suc (Suc 0)) = 32"
    using at(6-8) by (simp_all add: numeral_2_eq_2 numeral_3_eq_3)
  ultimately have "osp2p_snscanf m 5 (ascii ''GET %s OSP2P'' @ [10]) = Left_buffer"
    by (simp add: osp2p_snscanf_def ascii_def osp2p_vsnscanf.simps at(5) is_space_def numeral_3_eq_3)
  then have "scan_get m 5 = Overrun_name" by (simp add: scan_get_def)
  moreover have "read_request [Got ?get, Got []] ?t = Request t1"
    using first second at by (simp add: Let_def t1_def)
  ultimately show ?thesis by (simp add: task_upload_def t1_def FILENAMESIZ_def)
qed

section \<open>Peer lists\<close>

text \<open>The line the tracker sends for a peer.\<close>

definition peer_line :: "peer \<Rightarrow> u8 list" where
  "peer_line p = writef_text (ascii ''PEER %s %I:%d'') [Str (p_alias p), Addr (p_addr p), Num (p_port p)]"

definition peer_ok :: "peer \<Rightarrow> bool" where
  "peer_ok p \<longleftrightarrow> p_alias p \<noteq> [] \<and> 0 \<notin> set (p_alias p) \<and> 0 < p_port p \<and> p_port p \<le> 65535"

lemma hex_digit_not_space: "d < 16 \<Longrightarrow> \<not> is_space (hex_digit d)"
  using hex_digit_value [of d] by (simp add: xdigit_not_space)

lemma quote_no_space: "c \<in> set (http_quote s) \<Longrightarrow> \<not> is_space c"
proof (induction s)
  case (Cons x s)
  then show ?case
    using nibbles [of x] hex_digit_not_space plain_not_special [of x] by (auto simp: is_space_def split: if_splits)
qed simp

lemma decimal_no_space: "c \<in> set (decimal_nat n) \<Longrightarrow> \<not> is_space c"
  using decimal_digits(1) [of n] digit_not_space by auto

lemma peer_line_no_newline: "peer_ok p \<Longrightarrow> 10 \<notin> set (peer_line p)"
proof -
  have sp: "is_space 10" by (simp add: is_space_def)
  assume "peer_ok p"
  then show ?thesis
    using quote_no_space [of 10 "p_alias p"] decimal_no_space [of 10] sp
    by (auto simp: peer_line_def peer_ok_def ascii_def writef_text.simps inet_ntoa_def decimal_int_def)
qed

lemma parse_peer_line: "peer_ok p \<Longrightarrow> parse_peer (peer_line p) = Some p"
proof -
  let ?f = "ascii ''PEER %s %I:%d''" and ?as = "[Str (p_alias p), Addr (p_addr p), Num (p_port p)]"
  assume ok: "peer_ok p"
  have r: "readable ?f ?as"
    using ok by (simp add: peer_ok_def ascii_def readable.simps is_space_def next_ok_def is_digit_def)
  have "osp2p_snscanf (peer_line p @ [10]) (length (peer_line p)) ?f = Scanned ?as True"
    unfolding osp2p_snscanf_def by (rule scan_written [of _ "[]", unfolded list.size, OF _ _ r]) (simp_all add: peer_line_def)
  moreover have "c_str (p_alias p) = p_alias p"
    using ok by (simp add: c_str_def peer_ok_def takeWhile_eq_all_conv) metis
  ultimately show ?thesis using ok by (simp add: parse_peer_def peer_ok_def)
qed

text \<open>C32: The client reads the tracker's list of peers completely: from the lines written for any number of
  peers it builds exactly the list of those peers, the last one first, whatever bytes their aliases hold.\<close>

theorem peers_read_back:
  "\<forall>p \<in> set ps. peer_ok p \<Longrightarrow> add_peers (concat (map (\<lambda>p. peer_line p @ [10]) ps)) qs = Some (rev ps @ qs)"
proof (induction ps arbitrary: qs)
  case Nil
  then show ?case by (simp add: add_peers.simps)
next
  case (Cons p ps)
  have p: "10 \<notin> set (peer_line p)" "parse_peer (peer_line p) = Some p"
    using Cons.prems by (simp_all add: peer_line_no_newline parse_peer_line)
  let ?data = "concat (map (\<lambda>p. peer_line p @ [10]) (p # ps))"
  have nl: "\<forall>x \<in> set (peer_line p). x \<noteq> 10" using p(1) by blast
  have tw: "takeWhile (\<lambda>c. c \<noteq> 10) ?data = peer_line p"
    "dropWhile (\<lambda>c. c \<noteq> 10) ?data = 10 # concat (map (\<lambda>p. peer_line p @ [10]) ps)"
    using nl by (simp_all add: takeWhile_append dropWhile_append)
  have "add_peers ?data qs = add_peers (concat (map (\<lambda>p. peer_line p @ [10]) ps)) (p # qs)"
    unfolding add_peers.simps [of ?data] tw using p(2) by simp
  then show ?case using Cons.IH [of "p # qs"] Cons.prems by simp
qed

lemma peers_read_back_witness:
  "add_peers (peer_line \<lparr>p_alias = ascii ''a b'', p_addr = 1, p_port = 80\<rparr> @ [10]) [] =
     Some [\<lparr>p_alias = ascii ''a b'', p_addr = 1, p_port = 80\<rparr>]"
  using peers_read_back [of "[\<lparr>p_alias = ascii ''a b'', p_addr = 1, p_port = 80\<rparr>]" "[]"]
  by (simp add: peer_ok_def ascii_def)

section \<open>Names and processes\<close>

lemma length_decimal: "length (decimal i) = (if i < 10 then 1 else 2)"
  by (simp add: decimal_def)

lemma disk_name_bound: "length fn \<le> 251 \<Longrightarrow> length (disk_name fn i) < FILENAMESIZ"
  by (simp add: disk_name_def length_decimal FILENAMESIZ_def)

text \<open>The name for a second copy overflows \<open>disk_filename\<close>: for a requested name of 255 bytes, which
  \<open>start_download\<close> accepts, \<open>sprintf\<close> writes 259 bytes into the 256-byte field when the file exists
  already. Names of up to 251 bytes always fit.\<close>

theorem disk_name_overflow:
  assumes "length fn = FILENAMESIZ - 1" and "fs (disk_name fn 0) \<noteq> None" and "fs (disk_name fn 1) = None"
  shows "\<exists>name. open_local fs (\<lambda>_. False) fn [0..<50] = Opened name \<and> length name + 1 = FILENAMESIZ + 3"
proof -
  have "[0..<50] = 0 # 1 # [2..<50::nat]" by (simp add: upt_conv_Cons)
  then show ?thesis
    using assms by (simp add: Let_def length_decimal disk_name_def [of fn "Suc 0"] FILENAMESIZ_def)
qed

lemma disk_name_overflow_witness:
  "\<exists>name. open_local ((\<lambda>_. None)(disk_name (replicate 255 65) 0 \<mapsto> [])) (\<lambda>_. False) (replicate 255 65) [0..<50] =
     Opened name \<and> length name + 1 = FILENAMESIZ + 3"
proof (rule disk_name_overflow)
  have "length (disk_name (replicate 255 65) 0) \<noteq> length (disk_name (replicate 255 65) 1)"
    by (simp add: disk_name_def length_decimal FILENAMESIZ_def)
  then have "disk_name (replicate 255 65) 1 \<noteq> disk_name (replicate 255 65) 0" by metis
  then show "((\<lambda>_. None)(disk_name (replicate 255 65) 0 \<mapsto> [])) (disk_name (replicate 255 65) 1) = None" by simp
qed (simp_all add: FILENAMESIZ_def)

text \<open>At the limit an accepted connection is dropped after waiting for a child: with ten children alive,
  every second peer is turned away.\<close>

lemma connections_dropped: "accept_loop MAXCONNPID (replicate (2 * n) True) = concat (replicate n [False, True])"
  by (induction n) (simp_all add: MAXCONNPID_def)

lemma start_listen_gives_up: "(\<And>p. bind p = In_use) \<Longrightarrow> start_listen bind = Dies"
proof -
  assume "\<And>p. bind p = In_use"
  then have "pick_port bind ps = Dies" for ps by (induction ps) simp_all
  then show ?thesis by (simp only: start_listen_def)
qed

end
