(* ===== verification/Shell_Exec.thy ===== *)
theory Shell_Exec
  imports Prelude
begin

text \<open>
  The shell's commands and how they are executed (\<open>Lab1/command-internals.h\<close>, \<open>execute-command.c\<close>,
  \<open>print-command.c\<close> and the loop of \<open>main.c\<close> without \<open>-t\<close>). A child process is the run of its command;
  what the kernel decides (whether a fork or an open succeeds, how a program ends, which child of a
  pipeline ends first) is an argument that says it for every node of the command, named by its path
  from the root. A run yields the status the C code stores, and the programs it tried to start.
\<close>

section \<open>Commands\<close>

text \<open>The struct with its type and union. \<open>UNTYPED\<close> is a node that was allocated and never given a type.
  Redirections occur on simple commands and subshells.\<close>

datatype command =
    AND_COMMAND command command
  | SEQUENCE_COMMAND command command
  | OR_COMMAND command command
  | PIPE_COMMAND command command
  | SIMPLE_COMMAND "string list" "string option" "string option"
  | SUBSHELL_COMMAND command "string option" "string option"
  | UNTYPED

section \<open>Printing\<close>

fun same_type :: "command \<Rightarrow> command \<Rightarrow> bool" where
  "same_type (AND_COMMAND _ _) (AND_COMMAND _ _) = True"
| "same_type (SEQUENCE_COMMAND _ _) (SEQUENCE_COMMAND _ _) = True"
| "same_type (OR_COMMAND _ _) (OR_COMMAND _ _) = True"
| "same_type (PIPE_COMMAND _ _) (PIPE_COMMAND _ _) = True"
| "same_type _ _ = False"

definition blanks :: "nat \<Rightarrow> string" where "blanks n = replicate n CHR '' ''"

definition newline :: string where "newline = [CHR 0x0A]"

definition print_redirections :: "string option \<Rightarrow> string option \<Rightarrow> string" where
  "print_redirections inp out =
     (case inp of None \<Rightarrow> [] | Some f \<Rightarrow> ''<'' @ f) @ (case out of None \<Rightarrow> [] | Some f \<Rightarrow> ''>'' @ f)"

definition print_binary :: "nat \<Rightarrow> string \<Rightarrow> string \<Rightarrow> string \<Rightarrow> string" where
  "print_binary indent label c0 c1 = c0 @ '' '' @ [CHR 0x5C] @ newline @ blanks indent @ label @ newline @ c1"

fun words_text :: "string list \<Rightarrow> string" where
  "words_text [] = []"
| "words_text [w] = w"
| "words_text (w # ws) = w @ '' '' @ words_text ws"

fun command_indented_print :: "nat \<Rightarrow> command \<Rightarrow> string option" where
  "command_indented_print n c = (case c of
     AND_COMMAND a b \<Rightarrow>
       (case (command_indented_print (if same_type a c then n else n + 2) a, command_indented_print (if same_type b c then n else n + 2) b) of
          (Some s, Some t) \<Rightarrow> Some (print_binary n ''&&'' s t) | _ \<Rightarrow> None)
   | SEQUENCE_COMMAND a b \<Rightarrow>
       (case (command_indented_print (if same_type a c then n else n + 2) a, command_indented_print (if same_type b c then n else n + 2) b) of
          (Some s, Some t) \<Rightarrow> Some (print_binary n '';'' s t) | _ \<Rightarrow> None)
   | OR_COMMAND a b \<Rightarrow>
       (case (command_indented_print (if same_type a c then n else n + 2) a, command_indented_print (if same_type b c then n else n + 2) b) of
          (Some s, Some t) \<Rightarrow> Some (print_binary n ''||'' s t) | _ \<Rightarrow> None)
   | PIPE_COMMAND a b \<Rightarrow>
       (case (command_indented_print (if same_type a c then n else n + 2) a, command_indented_print (if same_type b c then n else n + 2) b) of
          (Some s, Some t) \<Rightarrow> Some (print_binary n ''|'' s t) | _ \<Rightarrow> None)
   | SIMPLE_COMMAND ws inp out \<Rightarrow> Some (blanks n @ words_text ws @ print_redirections inp out)
   | SUBSHELL_COMMAND a inp out \<Rightarrow>
       (case command_indented_print (n + 1) a of
          None \<Rightarrow> None
        | Some s \<Rightarrow> Some (blanks n @ ''('' @ newline @ s @ newline @ blanks n @ '')'' @ print_redirections inp out))
   | UNTYPED \<Rightarrow> None)"

declare command_indented_print.simps [simp del]

definition print_command :: "command \<Rightarrow> string option" where
  "print_command c = map_option (\<lambda>s. s @ newline) (command_indented_print 2 c)"

section \<open>Processes\<close>

text \<open>What \<open>wait\<close> stores for a process that called \<open>exit (n)\<close>: the low eight bits, above the signal.\<close>

definition exit_status :: "int \<Rightarrow> int" where
  "exit_status n = (n mod 256) * 256"

text \<open>How a program that was started ends, and how a run of a command ends: with its status, by a call of
  \<open>exit\<close>, or without a defined meaning.\<close>

datatype outcome = Fork_fails | Not_found | Exited int | Killed int

datatype ending = Status int | Exits int | Undefined

datatype desc = Initial | File string | Pipe_end "nat list"

record program =
  argv :: "string list"
  stdin_from :: desc
  stdout_to :: desc

type_synonym run = "ending \<times> program list"

datatype pipe_run = Pipe_fails | Left_fork_fails | Right_fork_fails | Left_first | Right_first

record kernel =
  opens :: "nat list \<Rightarrow> string \<Rightarrow> bool"
  forks :: "nat list \<Rightarrow> bool"
  pipes :: "nat list \<Rightarrow> pipe_run"
  results :: "nat list \<Rightarrow> outcome"
  memory :: "nat list \<Rightarrow> int"

fun then_run :: "program list \<Rightarrow> run \<Rightarrow> run" where
  "then_run ps (e, qs) = (e, ps @ qs)"

text \<open>What the parent of a process sees that runs a command and then calls \<open>exit\<close> with its status.\<close>

fun wait_status :: "ending \<Rightarrow> int option" where
  "wait_status (Status s) = Some (exit_status s)"
| "wait_status (Exits n) = Some (exit_status n)"
| "wait_status Undefined = None"

fun redirect :: "(string \<Rightarrow> bool) \<Rightarrow> string option \<Rightarrow> desc \<Rightarrow> desc" where
  "redirect can_open None d = d"
| "redirect can_open (Some f) d = (if can_open f then File f else d)"

section \<open>Execution\<close>

definition execute_and_command :: "run \<Rightarrow> run \<Rightarrow> run" where
  "execute_and_command c0 c1 =
     (case c0 of
        (Status s, ps) \<Rightarrow> if s = 0 then then_run ps c1 else (Status s, ps)
      | _ \<Rightarrow> c0)"

definition execute_or_command :: "run \<Rightarrow> run \<Rightarrow> run" where
  "execute_or_command c0 c1 =
     (case c0 of
        (Status s, ps) \<Rightarrow> if s \<noteq> 0 then then_run ps c1 else (Status s, ps)
      | _ \<Rightarrow> c0)"

definition execute_sequence_command :: "run \<Rightarrow> run \<Rightarrow> run" where
  "execute_sequence_command c0 c1 =
     (case c0 of
        (Status s, ps) \<Rightarrow> then_run ps c1
      | _ \<Rightarrow> c0)"

text \<open>The parent waits for whichever child ends first and then for the other one, whose status it keeps.\<close>

definition execute_pipe_command :: "pipe_run \<Rightarrow> run \<Rightarrow> run \<Rightarrow> run" where
  "execute_pipe_command how c0 c1 =
     (case how of
        Pipe_fails \<Rightarrow> (Exits 1, [])
      | Left_fork_fails \<Rightarrow> (Exits 1, [])
      | Right_fork_fails \<Rightarrow> (Exits 1, snd c0)
      | Left_first \<Rightarrow>
          (case (wait_status (fst c0), wait_status (fst c1)) of
             (Some l, Some r) \<Rightarrow> (Status r, snd c0 @ snd c1) | _ \<Rightarrow> (Undefined, snd c0 @ snd c1))
      | Right_first \<Rightarrow>
          (case (wait_status (fst c0), wait_status (fst c1)) of
             (Some l, Some r) \<Rightarrow> (Status l, snd c0 @ snd c1) | _ \<Rightarrow> (Undefined, snd c0 @ snd c1)))"

text \<open>When the fork fails a message is printed and the status stays what the memory held.\<close>

definition execute_subshell_command :: "bool \<Rightarrow> int \<Rightarrow> run \<Rightarrow> run" where
  "execute_subshell_command fork_ok old c =
     (if fork_ok
      then (case wait_status (fst c) of Some s \<Rightarrow> (Status s, snd c) | None \<Rightarrow> (Undefined, snd c))
      else (Status old, []))"

definition execute_simple_command :: "outcome \<Rightarrow> int \<Rightarrow> program \<Rightarrow> run" where
  "execute_simple_command result old p =
     (case result of
        Fork_fails \<Rightarrow> (Status old, [])
      | Not_found \<Rightarrow> (Status (exit_status (-1)), [p])
      | Exited n \<Rightarrow> (Status (exit_status n), [p])
      | Killed sig \<Rightarrow> (Status sig, [p]))"

fun execute_command :: "kernel \<Rightarrow> nat list \<Rightarrow> desc \<Rightarrow> desc \<Rightarrow> command \<Rightarrow> run" where
  "execute_command k p i out (AND_COMMAND a b) =
     execute_and_command (execute_command k (p @ [0]) i out a) (execute_command k (p @ [1]) i out b)"
| "execute_command k p i out (OR_COMMAND a b) =
     execute_or_command (execute_command k (p @ [0]) i out a) (execute_command k (p @ [1]) i out b)"
| "execute_command k p i out (PIPE_COMMAND a b) =
     execute_pipe_command (pipes k p) (execute_command k (p @ [0]) i (Pipe_end p) a)
       (execute_command k (p @ [1]) (Pipe_end p) out b)"
| "execute_command k p i out (SEQUENCE_COMMAND a b) =
     execute_sequence_command (execute_command k (p @ [0]) i out a) (execute_command k (p @ [1]) i out b)"
| "execute_command k p i out (SUBSHELL_COMMAND a inp outp) =
     execute_subshell_command (forks k p) (memory k p)
       (execute_command k (p @ [0]) (redirect (opens k p) inp i) (redirect (opens k p) outp out) a)"
| "execute_command k p i out (SIMPLE_COMMAND ws inp outp) =
     execute_simple_command (results k p) (memory k p)
       \<lparr>argv = ws, stdin_from = redirect (opens k p) inp i, stdout_to = redirect (opens k p) outp out\<rparr>"
| "execute_command k p i out UNTYPED = (Undefined, [])"

text \<open>The loop of \<open>main\<close> without \<open>-t\<close>: the commands of the script in order; \<open>return\<close> exits with the status of
  the last one.\<close>

fun run_commands :: "kernel \<Rightarrow> nat \<Rightarrow> int \<Rightarrow> command list \<Rightarrow> run" where
  "run_commands k n st [] = (Exits st, [])"
| "run_commands k n st (c # cs) =
     (case execute_command k [n] Initial Initial c of
        (Status s, ps) \<Rightarrow> then_run ps (run_commands k (n + 1) s cs)
      | r \<Rightarrow> r)"

definition run_script :: "kernel \<Rightarrow> command list \<Rightarrow> run" where
  "run_script k cs = run_commands k 0 0 cs"

section \<open>Exit statuses\<close>

text \<open>A kernel on which nothing fails but programs: forks and pipes succeed and no program dies of a signal.\<close>

definition orderly :: "kernel \<Rightarrow> bool" where
  "orderly k \<longleftrightarrow> (\<forall>p. forks k p) \<and> (\<forall>p. pipes k p = Left_first \<or> pipes k p = Right_first) \<and>
     (\<forall>p. results k p = Not_found \<or> (\<exists>n. results k p = Exited n))"

fun typed :: "command \<Rightarrow> bool" where
  "typed (AND_COMMAND a b) = (typed a \<and> typed b)"
| "typed (SEQUENCE_COMMAND a b) = (typed a \<and> typed b)"
| "typed (OR_COMMAND a b) = (typed a \<and> typed b)"
| "typed (PIPE_COMMAND a b) = (typed a \<and> typed b)"
| "typed (SUBSHELL_COMMAND a _ _) = typed a"
| "typed (SIMPLE_COMMAND _ _ _) = True"
| "typed UNTYPED = False"

text \<open>The exit code that a wait status stands for.\<close>

definition shifted :: "int \<Rightarrow> bool" where
  "shifted s \<longleftrightarrow> (\<exists>n. 0 \<le> n \<and> n < 256 \<and> s = n * 256)"

lemma exit_status_shifted: "shifted (exit_status n)"
  unfolding shifted_def exit_status_def by (rule exI [of _ "n mod 256"]) simp

lemma exit_status_of_shifted: "shifted s \<Longrightarrow> exit_status s = 0"
  by (auto simp: shifted_def exit_status_def)

lemma then_run_ending: "fst (then_run ps r) = fst r"
  by (cases r) simp

text \<open>What \<open>execute_command\<close> stores is a shifted exit code, for every command.\<close>

lemma orderly_status:
  assumes "orderly k" "typed c"
  obtains s ps where "execute_command k p i out c = (Status s, ps)" "shifted s"
proof -
  have "\<exists>s ps. execute_command k p i out c = (Status s, ps) \<and> shifted s"
    using assms(2)
  proof (induction c arbitrary: p i out)
    case (AND_COMMAND a b)
    obtain s ps where a: "execute_command k (p @ [0]) i out a = (Status s, ps)" "shifted s"
      using AND_COMMAND.IH(1) AND_COMMAND.prems by fastforce
    obtain t qs where b: "execute_command k (p @ [1]) i out b = (Status t, qs)" "shifted t"
      using AND_COMMAND.IH(2) AND_COMMAND.prems by fastforce
    show ?case using a b by (auto simp: execute_and_command_def)
  next
    case (OR_COMMAND a b)
    obtain s ps where a: "execute_command k (p @ [0]) i out a = (Status s, ps)" "shifted s"
      using OR_COMMAND.IH(1) OR_COMMAND.prems by fastforce
    obtain t qs where b: "execute_command k (p @ [1]) i out b = (Status t, qs)" "shifted t"
      using OR_COMMAND.IH(2) OR_COMMAND.prems by fastforce
    show ?case using a b by (auto simp: execute_or_command_def)
  next
    case (SEQUENCE_COMMAND a b)
    obtain s ps where a: "execute_command k (p @ [0]) i out a = (Status s, ps)"
      using SEQUENCE_COMMAND.IH(1) SEQUENCE_COMMAND.prems by fastforce
    obtain t qs where b: "execute_command k (p @ [1]) i out b = (Status t, qs)" "shifted t"
      using SEQUENCE_COMMAND.IH(2) SEQUENCE_COMMAND.prems by fastforce
    show ?case using a b by (simp add: execute_sequence_command_def)
  next
    case (PIPE_COMMAND a b)
    obtain s ps where a: "execute_command k (p @ [0]) i (Pipe_end p) a = (Status s, ps)"
      using PIPE_COMMAND.IH(1) PIPE_COMMAND.prems by fastforce
    obtain t qs where b: "execute_command k (p @ [1]) (Pipe_end p) out b = (Status t, qs)"
      using PIPE_COMMAND.IH(2) PIPE_COMMAND.prems by fastforce
    have "pipes k p = Left_first \<or> pipes k p = Right_first" using assms(1) by (simp add: orderly_def)
    then show ?case using a b by (auto simp: execute_pipe_command_def exit_status_shifted)
  next
    case (SUBSHELL_COMMAND a inp outp)
    obtain s ps where "execute_command k (p @ [0]) (redirect (opens k p) inp i) (redirect (opens k p) outp out) a = (Status s, ps)"
      using SUBSHELL_COMMAND.IH SUBSHELL_COMMAND.prems by fastforce
    then show ?case
      using assms(1) by (simp add: execute_subshell_command_def orderly_def exit_status_shifted)
  next
    case (SIMPLE_COMMAND ws inp outp)
    have "results k p = Not_found \<or> (\<exists>n. results k p = Exited n)" using assms(1) by (simp add: orderly_def)
    then show ?case by (auto simp: execute_simple_command_def exit_status_shifted)
  qed simp
  then show thesis using that by blast
qed

text \<open>C14: Exit statuses are lost at every process boundary: \<open>execute_command\<close> keeps the status word of \<open>wait\<close>,
  with the exit code in its upper byte, and a child passes that word to \<open>exit\<close>, which keeps the lower
  byte. So every pipeline and every subshell whose programs all run to their end has status 0, whatever
  codes they exit with, and what follows it after \<open>&&\<close> is always executed.\<close>

theorem statuses_lost:
  assumes "orderly k" and "typed a" and "typed b"
  shows "fst (execute_command k p i out (SUBSHELL_COMMAND a inp outp)) = Status 0 \<and>
    fst (execute_command k p i out (PIPE_COMMAND a b)) = Status 0"
proof -
  let ?i = "redirect (opens k p) inp i" and ?o = "redirect (opens k p) outp out"
  obtain r rs where sub: "execute_command k (p @ [0]) ?i ?o a = (Status r, rs)" "shifted r"
    using assms(1,2) by (rule orderly_status)
  obtain s ps where a: "execute_command k (p @ [0]) i (Pipe_end p) a = (Status s, ps)" "shifted s"
    using assms(1,2) by (rule orderly_status)
  obtain t qs where b: "execute_command k (p @ [1]) (Pipe_end p) out b = (Status t, qs)" "shifted t"
    using assms(1,3) by (rule orderly_status)
  have "pipes k p = Left_first \<or> pipes k p = Right_first" "forks k p" using assms(1) by (simp_all add: orderly_def)
  then show ?thesis
    using sub a b by (auto simp: execute_pipe_command_def execute_subshell_command_def exit_status_of_shifted)
qed

text \<open>A kernel on which the program named \<open>false\<close> at the given node exits with 1.\<close>

definition one_fails :: "nat list \<Rightarrow> kernel" where
  "one_fails q = \<lparr>opens = \<lambda>_ _. True, forks = \<lambda>_. True, pipes = \<lambda>_. Left_first,
     results = \<lambda>p. if p = q then Exited 1 else Exited 0, memory = \<lambda>_. 0\<rparr>"

lemma orderly_one_fails: "orderly (one_fails q)"
  by (simp add: orderly_def one_fails_def)

abbreviation simple :: "string \<Rightarrow> command" where
  "simple w \<equiv> SIMPLE_COMMAND [w] None None"

lemma statuses_lost_witness:
  "fst (execute_command (one_fails [0]) [] Initial Initial (SUBSHELL_COMMAND (simple ''false'') None None)) = Status 0"
  using statuses_lost [OF orderly_one_fails, of "simple ''false''" "simple ''true''" "[0]" "[]" Initial Initial None None]
  by simp

text \<open>\<open>(false) && b\<close> starts \<open>b\<close>.\<close>

lemma failed_subshell_goes_on:
  "map argv (snd (execute_command (one_fails [0, 0]) [] Initial Initial
     (AND_COMMAND (SUBSHELL_COMMAND (simple ''false'') None None) (simple ''b'')))) = [[''false''], [''b'']]"
  by (simp add: one_fails_def execute_simple_command_def execute_subshell_command_def execute_and_command_def exit_status_def)

section \<open>Against the shell language\<close>

text \<open>The meaning the shell language gives to a command: its exit code and the programs that are started.
  A pipeline has the code of its last command; a command whose redirection cannot be opened is not
  started and fails.\<close>

fun code_of :: "outcome \<Rightarrow> int" where
  "code_of (Exited n) = n mod 256"
| "code_of Not_found = 255"
| "code_of Fork_fails = 255"
| "code_of (Killed sig) = 128 + sig"

fun sh_redirect :: "(string \<Rightarrow> bool) \<Rightarrow> string option \<Rightarrow> desc \<Rightarrow> desc option" where
  "sh_redirect can_open None d = Some d"
| "sh_redirect can_open (Some f) d = (if can_open f then Some (File f) else None)"

fun posix :: "kernel \<Rightarrow> nat list \<Rightarrow> desc \<Rightarrow> desc \<Rightarrow> command \<Rightarrow> int \<times> program list" where
  "posix k p i out (AND_COMMAND a b) =
     (let (s, ps) = posix k (p @ [0]) i out a; (t, qs) = posix k (p @ [1]) i out b
      in if s = 0 then (t, ps @ qs) else (s, ps))"
| "posix k p i out (OR_COMMAND a b) =
     (let (s, ps) = posix k (p @ [0]) i out a; (t, qs) = posix k (p @ [1]) i out b
      in if s = 0 then (s, ps) else (t, ps @ qs))"
| "posix k p i out (SEQUENCE_COMMAND a b) =
     (let (s, ps) = posix k (p @ [0]) i out a; (t, qs) = posix k (p @ [1]) i out b in (t, ps @ qs))"
| "posix k p i out (PIPE_COMMAND a b) =
     (let (s, ps) = posix k (p @ [0]) i (Pipe_end p) a; (t, qs) = posix k (p @ [1]) (Pipe_end p) out b in (t, ps @ qs))"
| "posix k p i out (SUBSHELL_COMMAND a inp outp) =
     (case (sh_redirect (opens k p) inp i, sh_redirect (opens k p) outp out) of
        (Some i1, Some out1) \<Rightarrow> posix k (p @ [0]) i1 out1 a
      | _ \<Rightarrow> (1, []))"
| "posix k p i out (SIMPLE_COMMAND ws inp outp) =
     (case (sh_redirect (opens k p) inp i, sh_redirect (opens k p) outp out) of
        (Some i1, Some out1) \<Rightarrow> (code_of (results k p), [\<lparr>argv = ws, stdin_from = i1, stdout_to = out1\<rparr>])
      | _ \<Rightarrow> (1, []))"
| "posix k p i out UNTYPED = (0, [])"

text \<open>The redirections of a command can all be opened.\<close>

definition can_redirect :: "(string \<Rightarrow> bool) \<Rightarrow> string option \<Rightarrow> bool" where
  "can_redirect can_open r \<longleftrightarrow> (case r of None \<Rightarrow> True | Some f \<Rightarrow> can_open f)"

fun opened :: "kernel \<Rightarrow> nat list \<Rightarrow> command \<Rightarrow> bool" where
  "opened k p (AND_COMMAND a b) = (opened k (p @ [0]) a \<and> opened k (p @ [1]) b)"
| "opened k p (OR_COMMAND a b) = (opened k (p @ [0]) a \<and> opened k (p @ [1]) b)"
| "opened k p (SEQUENCE_COMMAND a b) = (opened k (p @ [0]) a \<and> opened k (p @ [1]) b)"
| "opened k p (PIPE_COMMAND a b) = (opened k (p @ [0]) a \<and> opened k (p @ [1]) b)"
| "opened k p (SUBSHELL_COMMAND a inp outp) =
     (can_redirect (opens k p) inp \<and> can_redirect (opens k p) outp \<and> opened k (p @ [0]) a)"
| "opened k p (SIMPLE_COMMAND ws inp outp) = (can_redirect (opens k p) inp \<and> can_redirect (opens k p) outp)"
| "opened k p UNTYPED = True"

lemma sh_redirect_open: "can_redirect can_open r \<Longrightarrow> sh_redirect can_open r d = Some (redirect can_open r d)"
  by (cases r) (simp_all add: can_redirect_def)

text \<open>Commands in which no status is asked for across a process boundary: pipelines and subshells stand
  only where their status is not tested.\<close>

fun no_process :: "command \<Rightarrow> bool" where
  "no_process (AND_COMMAND a b) = (no_process a \<and> no_process b)"
| "no_process (OR_COMMAND a b) = (no_process a \<and> no_process b)"
| "no_process (SEQUENCE_COMMAND a b) = (no_process a \<and> no_process b)"
| "no_process (SIMPLE_COMMAND _ _ _) = True"
| "no_process _ = False"

fun untested :: "command \<Rightarrow> bool" where
  "untested (AND_COMMAND a b) = (no_process a \<and> untested b)"
| "untested (OR_COMMAND a b) = (no_process a \<and> untested b)"
| "untested (SEQUENCE_COMMAND a b) = (untested a \<and> untested b)"
| "untested (PIPE_COMMAND a b) = (untested a \<and> untested b)"
| "untested (SUBSHELL_COMMAND a _ _) = untested a"
| "untested (SIMPLE_COMMAND _ _ _) = True"
| "untested UNTYPED = False"

lemma no_process_untested: "no_process c \<Longrightarrow> untested c \<and> typed c"
  by (induction c) simp_all

lemma untested_typed: "untested c \<Longrightarrow> typed c"
  by (induction c) (simp_all add: no_process_untested)

lemma simple_matches:
  assumes "orderly k"
  shows "execute_simple_command (results k p) old prog = (Status (code_of (results k p) * 256), [prog])"
proof -
  have "results k p = Not_found \<or> (\<exists>n. results k p = Exited n)" using assms by (simp add: orderly_def)
  then show ?thesis by (auto simp: execute_simple_command_def exit_status_def)
qed

lemma no_process_matches:
  assumes "orderly k" "no_process c" "opened k p c"
  shows "execute_command k p i out c = (Status (fst (posix k p i out c) * 256), snd (posix k p i out c))"
  using assms(2,3)
proof (induction c arbitrary: p i out)
  case (AND_COMMAND a b)
  then show ?case by (simp add: execute_and_command_def case_prod_beta)
next
  case (OR_COMMAND a b)
  then show ?case by (simp add: execute_or_command_def case_prod_beta)
next
  case (SEQUENCE_COMMAND a b)
  then show ?case by (simp add: execute_sequence_command_def case_prod_beta)
qed (simp_all add: simple_matches [OF assms(1)] sh_redirect_open)

lemma execute_refines_shell_at:
  assumes "orderly k" and "untested c" and "opened k p c"
  shows "snd (execute_command k p i out c) = snd (posix k p i out c)"
  using assms(2,3)
proof (induction c arbitrary: p i out)
  case (AND_COMMAND a b)
  show ?case
    using no_process_matches [OF assms(1), of a "p @ [0]" i out] AND_COMMAND.IH(2) [of "p @ [1]" i out] AND_COMMAND.prems
    by (cases "execute_command k (p @ [1]) i out b") (simp add: execute_and_command_def case_prod_beta)
next
  case (OR_COMMAND a b)
  show ?case
    using no_process_matches [OF assms(1), of a "p @ [0]" i out] OR_COMMAND.IH(2) [of "p @ [1]" i out] OR_COMMAND.prems
    by (cases "execute_command k (p @ [1]) i out b") (simp add: execute_or_command_def case_prod_beta)
next
  case (SEQUENCE_COMMAND a b)
  obtain s ps where "execute_command k (p @ [0]) i out a = (Status s, ps)"
    using orderly_status [OF assms(1) untested_typed] SEQUENCE_COMMAND.prems untested.simps(3) by metis
  then show ?case
    using SEQUENCE_COMMAND.IH [of "p @ [0]" i out] SEQUENCE_COMMAND.prems SEQUENCE_COMMAND.IH(2) [of "p @ [1]" i out]
    by (cases "execute_command k (p @ [1]) i out b") (auto simp: execute_sequence_command_def case_prod_beta)
next
  case (PIPE_COMMAND a b)
  obtain s ps where "execute_command k (p @ [0]) i (Pipe_end p) a = (Status s, ps)"
    using orderly_status [OF assms(1) untested_typed] PIPE_COMMAND.prems untested.simps(4) by metis
  moreover obtain t qs where "execute_command k (p @ [1]) (Pipe_end p) out b = (Status t, qs)"
    using orderly_status [OF assms(1) untested_typed] PIPE_COMMAND.prems untested.simps(4) by metis
  moreover have "pipes k p = Left_first \<or> pipes k p = Right_first" using assms(1) by (simp add: orderly_def)
  ultimately show ?case
    using PIPE_COMMAND.IH(1) [of "p @ [0]" i "Pipe_end p"] PIPE_COMMAND.IH(2) [of "p @ [1]" "Pipe_end p" out] PIPE_COMMAND.prems
    by (auto simp: execute_pipe_command_def case_prod_beta)
next
  case (SUBSHELL_COMMAND a inp outp)
  obtain s ps where "execute_command k (p @ [0]) (redirect (opens k p) inp i) (redirect (opens k p) outp out) a = (Status s, ps)"
    using orderly_status [OF assms(1) untested_typed] SUBSHELL_COMMAND.prems untested.simps(5) by metis
  moreover have "forks k p" using assms(1) by (simp add: orderly_def)
  ultimately show ?case
    using SUBSHELL_COMMAND.IH [of "p @ [0]" "redirect (opens k p) inp i" "redirect (opens k p) outp out"] SUBSHELL_COMMAND.prems
    by (simp add: execute_subshell_command_def sh_redirect_open)
qed (simp_all add: simple_matches [OF assms(1)] sh_redirect_open)

text \<open>C12: \<open>&&\<close>, \<open>||\<close>, \<open>;\<close>, \<open>|\<close>, parentheses and redirections mean what the shell language says, for a
  command in which no \<open>&&\<close> or \<open>||\<close> tests a pipeline or a subshell, run where forks and pipes succeed, the
  redirected files can be opened and no program is killed by a signal: whatever codes the programs exit
  with, the command starts exactly the programs of the reference semantics, in its order and with its
  inputs and outputs. (With a file that cannot be opened it starts a program the shell language does not:
  \<open>failed_open_starts\<close>.)\<close>

theorem execute_refines_shell:
  assumes "orderly k" and "untested c" and "opened k p c"
  shows "snd (execute_command k p i out c) = snd (posix k p i out c)"
  using assms by (rule execute_refines_shell_at)

lemma execute_refines_shell_witness:
  "snd (execute_command (one_fails [0, 0]) [] Initial Initial
     (PIPE_COMMAND (OR_COMMAND (simple ''false'') (SIMPLE_COMMAND [''a''] (Some ''f'') None)) (simple ''b''))) =
   [\<lparr>argv = [''false''], stdin_from = Initial, stdout_to = Pipe_end []\<rparr>,
    \<lparr>argv = [''a''], stdin_from = File ''f'', stdout_to = Pipe_end []\<rparr>,
    \<lparr>argv = [''b''], stdin_from = Pipe_end [], stdout_to = Initial\<rparr>]"
  using execute_refines_shell [OF orderly_one_fails,
      of "PIPE_COMMAND (OR_COMMAND (simple ''false'') (SIMPLE_COMMAND [''a''] (Some ''f'') None)) (simple ''b'')"
      "[0, 0]" "[]" Initial Initial]
  by (simp add: one_fails_def can_redirect_def)

text \<open>The result of \<open>open\<close> is not looked at: the program runs with the input it would have had without the
  redirection.\<close>

lemma failed_open_starts:
  assumes "orderly k" "\<not> opens k p f"
  shows "snd (execute_command k p i out (SIMPLE_COMMAND ws (Some f) None)) = [\<lparr>argv = ws, stdin_from = i, stdout_to = out\<rparr>]"
    "posix k p i out (SIMPLE_COMMAND ws (Some f) None) = (1, [])"
  using simple_matches [OF assms(1)] assms(2) by simp_all

section \<open>Scripts\<close>

lemma run_commands_orderly:
  assumes "orderly k" "\<forall>c \<in> set cs. typed c" "shifted st"
  shows "\<exists>s ps. run_commands k n st cs = (Exits s, ps) \<and> shifted s"
  using assms(2,3)
proof (induction cs arbitrary: n st)
  case (Cons c cs)
  obtain s ps where c: "execute_command k [n] Initial Initial c = (Status s, ps)" "shifted s"
    using orderly_status [OF assms(1)] Cons.prems(1) by (metis list.set_intros(1))
  obtain t qs where "run_commands k (n + 1) s cs = (Exits t, qs)" "shifted t"
    using Cons.IH [OF _ c(2)] Cons.prems(1) by fastforce
  then show ?case using c by simp
qed simp

text \<open>The shell always reports success: whatever script it runs and whatever codes its programs exit with,
  its own exit status is 0.\<close>

theorem script_reports_success:
  assumes "orderly k" and "\<forall>c \<in> set cs. typed c"
  shows "wait_status (fst (run_script k cs)) = Some 0"
  using run_commands_orderly [OF assms, of 0 0] exit_status_of_shifted
  by (auto simp: run_script_def shifted_def)

lemma script_reports_success_witness:
  "wait_status (fst (run_script (one_fails [0]) [simple ''false''])) = Some 0"
  using script_reports_success [OF orderly_one_fails, of "[simple ''false'']" "[0]"] by simp

end
