(* ===== verification/Shell_Read.thy ===== *)
theory Shell_Read
  imports Shell_Exec
begin

text \<open>
  Reading a script (\<open>Lab1/read-command.c\<close>): the bytes become a list of tokens, whose grammar is checked,
  and each command is built from its tokens. The array of tokens is a list; the memory in front of it and
  behind it is taken to hold no token (type 0). \<open>None\<close> is a message and exit 1. The growth of the buffers
  is left out.
\<close>

section \<open>Tokens\<close>

datatype token_type =
    NULL_TOKEN | WORD_TOKEN | PIPELINE_TOKEN | AND_TOKEN | HALFAND_TOKEN | OR_TOKEN | LBKT_TOKEN | RBKT_TOKEN
  | IN_TOKEN | OUT_TOKEN | SEMICOLON_TOKEN | ENDCMD_TOKEN | HALFENDCMD_TOKEN

record token =
  token :: token_type
  content :: string

definition is_word_content :: "char \<Rightarrow> bool" where
  "is_word_content c \<longleftrightarrow>
     (let b = (of_char c :: nat) in
      (97 \<le> b \<and> b \<le> 122) \<or> (65 \<le> b \<and> b \<le> 90) \<or> (48 \<le> b \<and> b \<le> 57) \<or> c \<in> set ''!%+,-./:@^_'')"

definition is_valid_char :: "char \<Rightarrow> bool" where
  "is_valid_char c \<longleftrightarrow> is_word_content c \<or> c \<in> set '';|&()<>'' \<or> c = CHR 0x09 \<or> c = CHR '' '' \<or> c = CHR 0x0A"

definition ignore_comments :: "char \<Rightarrow> bool \<Rightarrow> bool" where
  "ignore_comments c is_comments = (if c = CHR ''#'' then True else if c = CHR 0x0A then False else is_comments)"

text \<open>The token \<open>n\<close> places before the end.\<close>

definition prev :: "nat \<Rightarrow> token list \<Rightarrow> token_type" where
  "prev n ts = (if n \<le> length ts then token (ts ! (length ts - n)) else NULL_TOKEN)"

definition put_last :: "token_type \<Rightarrow> token list \<Rightarrow> token list" where
  "put_last ty ts = ts[length ts - 1 := (ts ! (length ts - 1))\<lparr>token := ty\<rparr>]"

definition new_token :: "token_type \<Rightarrow> token list \<Rightarrow> token list" where
  "new_token ty ts = ts @ [\<lparr>token = ty, content = []\<rparr>]"

text \<open>A pending word and the tokens so far.\<close>

definition add_word :: "string \<Rightarrow> token list \<Rightarrow> token list" where
  "add_word w ts =
     (if w = [] then ts
      else if (prev 1 ts = ENDCMD_TOKEN \<or> prev 1 ts = HALFENDCMD_TOKEN) \<and>
              prev 2 ts \<in> {AND_TOKEN, OR_TOKEN, PIPELINE_TOKEN, IN_TOKEN, OUT_TOKEN}
           then ts[length ts - 1 := \<lparr>token = WORD_TOKEN, content = w\<rparr>]
      else ts @ [\<lparr>token = WORD_TOKEN, content = w\<rparr>])"

definition add_token :: "token_type \<Rightarrow> token list \<Rightarrow> token list option" where
  "add_token ty ts =
     (case ty of
        HALFENDCMD_TOKEN \<Rightarrow>
          if prev 1 ts = HALFENDCMD_TOKEN then Some (put_last ENDCMD_TOKEN ts)
          else if prev 1 ts = ENDCMD_TOKEN then Some ts else Some (new_token HALFENDCMD_TOKEN ts)
      | PIPELINE_TOKEN \<Rightarrow>
          if prev 1 ts = PIPELINE_TOKEN then Some (put_last OR_TOKEN ts)
          else if prev 1 ts = OR_TOKEN then None else Some (new_token PIPELINE_TOKEN ts)
      | HALFAND_TOKEN \<Rightarrow>
          if prev 1 ts = HALFAND_TOKEN then Some (put_last AND_TOKEN ts)
          else if prev 1 ts = AND_TOKEN then None else Some (new_token HALFAND_TOKEN ts)
      | SEMICOLON_TOKEN \<Rightarrow> Some (new_token ty ts)
      | LBKT_TOKEN \<Rightarrow> Some (new_token ty ts)
      | RBKT_TOKEN \<Rightarrow> Some (new_token ty ts)
      | IN_TOKEN \<Rightarrow>
          if (prev 1 ts = ENDCMD_TOKEN \<or> prev 1 ts = HALFENDCMD_TOKEN) \<and> prev 2 ts = WORD_TOKEN
          then Some (put_last ty ts) else Some (new_token ty ts)
      | OUT_TOKEN \<Rightarrow>
          if (prev 1 ts = ENDCMD_TOKEN \<or> prev 1 ts = HALFENDCMD_TOKEN) \<and> prev 2 ts = WORD_TOKEN
          then Some (put_last ty ts) else Some (new_token ty ts)
      | _ \<Rightarrow> None)"

record lexer =
  is_comments :: bool
  word_buffer :: string
  command_s :: "token list"

text \<open>The token that a character stands for; white space other than a newline only ends a word.\<close>

definition token_of_char :: "char \<Rightarrow> token_type option" where
  "token_of_char c =
     (if c = CHR '';'' then Some SEMICOLON_TOKEN else if c = CHR 0x0A then Some HALFENDCMD_TOKEN
      else if c = CHR ''|'' then Some PIPELINE_TOKEN else if c = CHR ''&'' then Some HALFAND_TOKEN
      else if c = CHR ''('' then Some LBKT_TOKEN else if c = CHR '')'' then Some RBKT_TOKEN
      else if c = CHR ''<'' then Some IN_TOKEN else if c = CHR ''>'' then Some OUT_TOKEN else None)"

definition read_byte :: "char \<Rightarrow> lexer \<Rightarrow> lexer option" where
  "read_byte c l =
     (let l = l\<lparr>is_comments := ignore_comments c (is_comments l)\<rparr>
      in if is_comments l then Some l
         else if \<not> is_valid_char c then None
         else if is_word_content c then Some (l\<lparr>word_buffer := word_buffer l @ [c]\<rparr>)
         else (let ts = add_word (word_buffer l) (command_s l)
               in (case token_of_char c of
                     None \<Rightarrow> Some (l\<lparr>word_buffer := [], command_s := ts\<rparr>)
                   | Some ty \<Rightarrow> map_option (\<lambda>ts. l\<lparr>word_buffer := [], command_s := ts\<rparr>) (add_token ty ts))))"

text \<open>The byte 255 is -1 as a \<open>char\<close>, the end of the file.\<close>

fun read_chars :: "string \<Rightarrow> lexer \<Rightarrow> lexer option" where
  "read_chars [] l = Some l"
| "read_chars (c # cs) l = (if c = CHR 0xFF then Some l else Option.bind (read_byte c l) (read_chars cs))"

section \<open>The grammar check\<close>

definition tok_at :: "token list \<Rightarrow> nat \<Rightarrow> token_type" where
  "tok_at ts i = (if i < length ts then token (ts ! i) else NULL_TOKEN)"

definition tok_before :: "token list \<Rightarrow> nat \<Rightarrow> nat \<Rightarrow> token_type" where
  "tok_before ts i n = (if n \<le> i then tok_at ts (i - n) else NULL_TOKEN)"

text \<open>\<open>start\<close> is the position behind the leading newlines. The result tells that an operand is missing.\<close>

definition check_twosides :: "token list \<Rightarrow> nat \<Rightarrow> nat \<Rightarrow> bool" where
  "check_twosides ts start i =
     (let left_side = tok_before ts i 1 \<in> {WORD_TOKEN, RBKT_TOKEN} \<or>
            (tok_before ts i 1 = HALFENDCMD_TOKEN \<and> tok_before ts i 2 \<in> {WORD_TOKEN, RBKT_TOKEN});
          right_side = tok_at ts (i + 1) \<in> {WORD_TOKEN, LBKT_TOKEN} \<or>
            (tok_at ts (i + 1) = HALFENDCMD_TOKEN \<and> tok_at ts (i + 2) \<in> {WORD_TOKEN, LBKT_TOKEN})
      in if tok_at ts (i + 1) = ENDCMD_TOKEN \<or> i < start + 1 then True else \<not> (left_side \<and> right_side))"

text \<open>One token of the loop: \<open>None\<close> is an error; a single newline becomes the end of a command.\<close>

definition check_token :: "nat \<Rightarrow> token list \<Rightarrow> nat \<Rightarrow> token list option" where
  "check_token start ts i =
     (let operand = tok_before ts i 1 \<in> {WORD_TOKEN, RBKT_TOKEN} in
      case tok_at ts i of
        AND_TOKEN \<Rightarrow> if check_twosides ts start i \<or> \<not> operand then None else Some ts
      | OR_TOKEN \<Rightarrow> if check_twosides ts start i \<or> \<not> operand then None else Some ts
      | PIPELINE_TOKEN \<Rightarrow> if check_twosides ts start i \<or> \<not> operand then None else Some ts
      | IN_TOKEN \<Rightarrow> if check_twosides ts start i then None else Some ts
      | OUT_TOKEN \<Rightarrow> if check_twosides ts start i then None else Some ts
      | HALFAND_TOKEN \<Rightarrow> None
      | HALFENDCMD_TOKEN \<Rightarrow> Some (ts[i := (ts ! i)\<lparr>token := ENDCMD_TOKEN\<rparr>])
      | SEMICOLON_TOKEN \<Rightarrow> if \<not> operand then None else Some ts
      | _ \<Rightarrow> Some ts)"

fun check_tokens :: "nat \<Rightarrow> nat list \<Rightarrow> token list \<Rightarrow> token list option" where
  "check_tokens start [] ts = Some ts"
| "check_tokens start (i # is) ts = Option.bind (check_token start ts i) (check_tokens start is)"

definition is_newline :: "token \<Rightarrow> bool" where
  "is_newline t \<longleftrightarrow> token t = HALFENDCMD_TOKEN \<or> token t = ENDCMD_TOKEN"

definition brackets :: "token_type \<Rightarrow> token list \<Rightarrow> nat" where
  "brackets ty ts = length (filter (\<lambda>t. token t = ty) ts)"

text \<open>The stream starts behind the leading newlines. A word at the end of the file that no newline ends stays
  in the word buffer, which is freed.\<close>

definition make_command_stream :: "string \<Rightarrow> token list option" where
  "make_command_stream bytes =
     Option.bind (read_chars bytes \<lparr>is_comments = False, word_buffer = [], command_s = []\<rparr>) (\<lambda>l.
       let ts = command_s l; start = length (takeWhile is_newline ts);
           ts = (if prev 1 ts = HALFENDCMD_TOKEN then put_last ENDCMD_TOKEN ts else ts)
       in Option.bind (check_tokens start [0..<length ts] ts) (\<lambda>ts.
         if brackets LBKT_TOKEN ts = brackets RBKT_TOKEN ts then Some (drop start ts) else None))"

section \<open>Building a command\<close>

datatype binary_type = And_type | Or_type | Pipe_type | Sequence_type

text \<open>The nodes as they are linked, each with its address: no node is linked from two places, so that the
  memory that hangs on \<open>command_root\<close> is a tree. \<open>Fresh\<close> and \<open>Blank\<close> have no type yet, without and with
  redirections. Redirections are stored in the operand being built, never in an operator.\<close>

datatype node =
    Fresh nat
  | Blank nat "string option" "string option"
  | Words nat "string list" "string option" "string option"
  | Paren nat node "string option" "string option"
  | Binary nat binary_type node node

fun address :: "node \<Rightarrow> nat" where
  "address (Fresh a) = a"
| "address (Blank a _ _) = a"
| "address (Words a _ _ _) = a"
| "address (Paren a _ _ _) = a"
| "address (Binary a _ _ _) = a"

text \<open>An assignment to the node at an address.\<close>

fun assign :: "nat \<Rightarrow> (node \<Rightarrow> node option) \<Rightarrow> node \<Rightarrow> node option" where
  "assign p f (Fresh a) = (if a = p then f (Fresh a) else None)"
| "assign p f (Blank a i out) = (if a = p then f (Blank a i out) else None)"
| "assign p f (Words a ws i out) = (if a = p then f (Words a ws i out) else None)"
| "assign p f (Paren a n i out) =
     (if a = p then f (Paren a n i out) else map_option (\<lambda>n. Paren a n i out) (assign p f n))"
| "assign p f (Binary a t l r) =
     (if a = p then f (Binary a t l r)
      else (case assign p f l of
              Some l' \<Rightarrow> Some (Binary a t l' r)
            | None \<Rightarrow> map_option (Binary a t l) (assign p f r)))"

record parser =
  command_root :: node
  parse_command :: nat
  subshell_root :: "nat option"
  is_subshell :: bool
  allocated :: nat

text \<open>\<open>WORD_TOKEN\<close>: the first word of a command frees its node and allocates it anew, without linking the new
  one. The allocator gives back the block that was just freed, so that the address stays.\<close>

fun put_word :: "string \<Rightarrow> node \<Rightarrow> node option" where
  "put_word w (Words a ws i out) = Some (Words a (ws @ [w]) i out)"
| "put_word w n = Some (Words (address n) [w] None None)"

text \<open>A new operator goes below the right end of a root that binds less tightly, or above the root. Only one
  level is looked at. The new right operand is the next address.\<close>

definition binds_less :: "binary_type \<Rightarrow> binary_type \<Rightarrow> bool" where
  "binds_less root t \<longleftrightarrow>
     (case t of
        Pipe_type \<Rightarrow> root = And_type \<or> root = Or_type \<or> root = Sequence_type
      | And_type \<Rightarrow> root = Sequence_type
      | Or_type \<Rightarrow> root = Sequence_type
      | Sequence_type \<Rightarrow> False)"

fun put_operator :: "binary_type \<Rightarrow> nat \<Rightarrow> node \<Rightarrow> node" where
  "put_operator t new (Binary a root l r) =
     (if binds_less root t then Binary a root l (Binary new t r (Fresh (new + 1)))
      else Binary new t (Binary a root l r) (Fresh (new + 1)))"
| "put_operator t new n = Binary new t n (Fresh (new + 1))"

fun in_subshell :: "(node \<Rightarrow> node) \<Rightarrow> node \<Rightarrow> node option" where
  "in_subshell f (Paren a n i out) = Some (Paren a (f n) i out)"
| "in_subshell f n = None"

definition add_operator :: "binary_type \<Rightarrow> parser \<Rightarrow> parser option" where
  "add_operator t p =
     map_option (\<lambda>root. p\<lparr>command_root := root, parse_command := allocated p + 1, allocated := allocated p + 2\<rparr>)
       (if is_subshell p
        then Option.bind (subshell_root p) (\<lambda>s.
          assign s (in_subshell (put_operator t (allocated p))) (command_root p))
        else Some (put_operator t (allocated p) (command_root p)))"

fun put_input :: "string \<Rightarrow> node \<Rightarrow> node option" where
  "put_input f (Fresh a) = Some (Blank a (Some f) None)"
| "put_input f (Blank a i out) = Some (Blank a (Some f) out)"
| "put_input f (Words a ws i out) = Some (Words a ws (Some f) out)"
| "put_input f (Paren a n i out) = Some (Paren a n (Some f) out)"
| "put_input f n = None"

fun put_output :: "string \<Rightarrow> node \<Rightarrow> node option" where
  "put_output f (Fresh a) = Some (Blank a None (Some f))"
| "put_output f (Blank a i out) = Some (Blank a i (Some f))"
| "put_output f (Words a ws i out) = Some (Words a ws i (Some f))"
| "put_output f (Paren a n i out) = Some (Paren a n i (Some f))"
| "put_output f n = None"

text \<open>The fields of the union overlap: the node keeps its redirections and loses its words.\<close>

fun put_bracket :: "nat \<Rightarrow> node \<Rightarrow> node option" where
  "put_bracket new (Words a ws i out) = Some (Paren a (Fresh new) i out)"
| "put_bracket new (Paren a n i out) = Some (Paren a (Fresh new) i out)"
| "put_bracket new (Blank a i out) = Some (Paren a (Fresh new) i out)"
| "put_bracket new n = Some (Paren (address n) (Fresh new) None None)"

definition update :: "nat \<Rightarrow> (node \<Rightarrow> node option) \<Rightarrow> parser \<Rightarrow> parser option" where
  "update a f p = map_option (\<lambda>root. p\<lparr>command_root := root\<rparr>) (assign a f (command_root p))"

text \<open>A redirection belongs to the subshell when it follows its bracket directly.\<close>

definition redirected :: "token_type \<Rightarrow> parser \<Rightarrow> nat option" where
  "redirected pre p = (if pre = RBKT_TOKEN then subshell_root p else Some (parse_command p))"

text \<open>The loop over the tokens of a command; \<open>pre\<close> is the token in front of it. A redirection reads the name from
  the token behind it, which has one only if it is a word. \<open>None\<close> is an undefined access.\<close>

fun parse_tokens :: "token_type \<Rightarrow> token list \<Rightarrow> parser \<Rightarrow> parser option" where
  "parse_tokens pre [] p = Some p"
| "parse_tokens pre (t # ts) p =
     (case token t of
        WORD_TOKEN \<Rightarrow> Option.bind (update (parse_command p) (put_word (content t)) p) (parse_tokens WORD_TOKEN ts)
      | PIPELINE_TOKEN \<Rightarrow> Option.bind (add_operator Pipe_type p) (parse_tokens PIPELINE_TOKEN ts)
      | AND_TOKEN \<Rightarrow> Option.bind (add_operator And_type p) (parse_tokens AND_TOKEN ts)
      | OR_TOKEN \<Rightarrow> Option.bind (add_operator Or_type p) (parse_tokens OR_TOKEN ts)
      | SEMICOLON_TOKEN \<Rightarrow> Option.bind (add_operator Sequence_type p) (parse_tokens SEMICOLON_TOKEN ts)
      | IN_TOKEN \<Rightarrow>
          (case ts of [] \<Rightarrow> None
           | f # ts \<Rightarrow>
               if token f \<noteq> WORD_TOKEN then None
               else Option.bind (redirected pre p) (\<lambda>a.
                 Option.bind (update a (put_input (content f)) p) (parse_tokens WORD_TOKEN ts)))
      | OUT_TOKEN \<Rightarrow>
          (case ts of [] \<Rightarrow> None
           | f # ts \<Rightarrow>
               if token f \<noteq> WORD_TOKEN then None
               else Option.bind (redirected pre p) (\<lambda>a.
                 Option.bind (update a (put_output (content f)) p) (parse_tokens WORD_TOKEN ts)))
      | LBKT_TOKEN \<Rightarrow>
          Option.bind (update (parse_command p) (put_bracket (allocated p)) p) (\<lambda>q.
            parse_tokens LBKT_TOKEN ts (q\<lparr>is_subshell := True, subshell_root := Some (parse_command p),
              parse_command := allocated p, allocated := allocated p + 1\<rparr>))
      | RBKT_TOKEN \<Rightarrow> parse_tokens RBKT_TOKEN ts (p\<lparr>is_subshell := False\<rparr>)
      | ty \<Rightarrow> parse_tokens ty ts p)"

fun command_of :: "node \<Rightarrow> command" where
  "command_of (Fresh a) = UNTYPED"
| "command_of (Blank a i out) = UNTYPED"
| "command_of (Words a ws i out) = SIMPLE_COMMAND ws i out"
| "command_of (Paren a n i out) = SUBSHELL_COMMAND (command_of n) i out"
| "command_of (Binary a And_type l r) = AND_COMMAND (command_of l) (command_of r)"
| "command_of (Binary a Or_type l r) = OR_COMMAND (command_of l) (command_of r)"
| "command_of (Binary a Pipe_type l r) = PIPE_COMMAND (command_of l) (command_of r)"
| "command_of (Binary a Sequence_type l r) = SEQUENCE_COMMAND (command_of l) (command_of r)"

definition initial_parser :: parser where
  "initial_parser = \<lparr>command_root = Fresh 0, parse_command = 0, subshell_root = None, is_subshell = False, allocated = 1\<rparr>"

text \<open>The tokens of a command end with \<open>ENDCMD_TOKEN\<close>. The search for it, or for the start of the first
  command of an empty stream, runs off the array when there is none. Behind the last command the memory is
  made an end of command, so that the next call returns 0. The result is the command and the rest.\<close>

datatype read_result = End_of_stream | Read command "token list" | Runs_off

definition not_end :: "token \<Rightarrow> bool" where
  "not_end t \<longleftrightarrow> token t \<noteq> ENDCMD_TOKEN"

definition read_command_stream :: "bool \<Rightarrow> token list \<Rightarrow> read_result" where
  "read_command_stream first ts =
     (if ts = [] then (if first then Runs_off else End_of_stream)
      else if \<not> not_end (ts ! 0) then End_of_stream
      else if list_all not_end ts then Runs_off
      else (case parse_tokens NULL_TOKEN (takeWhile not_end ts) initial_parser of
              None \<Rightarrow> Runs_off
            | Some p \<Rightarrow> Read (command_of (command_root p)) (tl (dropWhile not_end ts))))"

text \<open>The loop of \<open>main\<close>.\<close>

function read_commands :: "bool \<Rightarrow> token list \<Rightarrow> command list option" where
  "read_commands first ts =
     (case read_command_stream first ts of
        End_of_stream \<Rightarrow> Some []
      | Read c rest \<Rightarrow> map_option ((#) c) (read_commands False rest)
      | Runs_off \<Rightarrow> None)"
  by pat_completeness auto
termination
proof (relation "measure (\<lambda>(first, ts). length ts)")
  fix first ts c rest
  assume "read_command_stream first ts = Read c rest"
  then have "rest = tl (dropWhile not_end ts)" "ts \<noteq> []"
    by (auto simp: read_command_stream_def split: if_splits option.splits)
  moreover have "length (dropWhile not_end ts) \<le> length ts" by (rule length_dropWhile_le)
  ultimately show "((False, rest), (first, ts)) \<in> measure (\<lambda>(first, ts). length ts)"
    by (cases "dropWhile not_end ts") auto
qed simp

declare read_commands.simps [simp del]

datatype script = Message | Crash | Commands "command list"

definition read_script :: "string \<Rightarrow> script" where
  "read_script bytes =
     (case make_command_stream bytes of
        None \<Rightarrow> Message
      | Some ts \<Rightarrow> (case read_commands True ts of None \<Rightarrow> Crash | Some cs \<Rightarrow> Commands cs))"

section \<open>Chains of commands\<close>




definition word_token :: "string \<Rightarrow> token" where
  "word_token w = \<lparr>token = WORD_TOKEN, content = w\<rparr>"

definition sign :: "token_type \<Rightarrow> token" where
  "sign ty = \<lparr>token = ty, content = []\<rparr>"















section \<open>The parser builds the attached tree\<close>




























section \<open>The grammar of the shell language\<close>












fun operand :: "command \<Rightarrow> bool" where
  "operand (SIMPLE_COMMAND _ _ _) = True"
| "operand (SUBSHELL_COMMAND _ _ _) = True"
| "operand _ = False"



















section \<open>Source text\<close>








definition word_ok :: "string \<Rightarrow> bool" where
  "word_ok w \<longleftrightarrow> w \<noteq> [] \<and> list_all is_word_content w"

















section \<open>Lexing a script\<close>





















section \<open>Checking a script\<close>






section \<open>Reading a script back\<close>














section \<open>What the check guarantees\<close>

definition sound_token :: "token \<Rightarrow> bool" where
  "sound_token t \<longleftrightarrow> token t \<noteq> NULL_TOKEN \<and> (token t = WORD_TOKEN \<longrightarrow> word_ok (content t))"

lemma sound_update: "list_all sound_token ts \<Longrightarrow> sound_token t \<Longrightarrow> list_all sound_token (ts[i := t])"
  by (auto simp: list_all_iff dest!: set_update_subset_insert [THEN subsetD])

lemma sound_put_last: "list_all sound_token ts \<Longrightarrow> ty \<noteq> NULL_TOKEN \<Longrightarrow> ty \<noteq> WORD_TOKEN \<Longrightarrow> list_all sound_token (put_last ty ts)"
  unfolding put_last_def by (rule sound_update) (simp_all add: sound_token_def)

lemma sound_new_token: "list_all sound_token ts \<Longrightarrow> ty \<noteq> NULL_TOKEN \<Longrightarrow> ty \<noteq> WORD_TOKEN \<Longrightarrow> list_all sound_token (new_token ty ts)"
  by (simp add: new_token_def sound_token_def)

lemma sound_add_token:
  assumes "add_token ty ts = Some us" "list_all sound_token ts" "ty \<noteq> NULL_TOKEN" "ty \<noteq> WORD_TOKEN"
  shows "list_all sound_token us"
  using assms sound_put_last sound_new_token
  by (cases ty) (auto simp: add_token_def split: if_splits)

lemma sound_add_word: "list_all sound_token ts \<Longrightarrow> list_all is_word_content w \<Longrightarrow> list_all sound_token (add_word w ts)"
  by (auto simp: add_word_def sound_token_def word_ok_def intro!: sound_update)

lemma sound_read_byte:
  assumes "read_byte c l = Some l'" "list_all sound_token (command_s l)" "list_all is_word_content (word_buffer l)"
  shows "list_all sound_token (command_s l') \<and> list_all is_word_content (word_buffer l')"
proof -
  have ty: "ty \<noteq> NULL_TOKEN \<and> ty \<noteq> WORD_TOKEN" if "token_of_char c = Some ty" for ty
    using that by (auto simp: token_of_char_def split: if_splits)
  show ?thesis
    using assms ty sound_add_word [OF assms(2,3)]
    by (auto simp: read_byte_def Let_def split: if_splits option.splits intro: sound_add_token)
qed

lemma sound_read_chars:
  assumes "read_chars cs l = Some l'" "list_all sound_token (command_s l)" "list_all is_word_content (word_buffer l)"
  shows "list_all sound_token (command_s l')"
  using assms
proof (induction cs arbitrary: l)
  case (Cons c cs)
  show ?case
  proof (cases "c = CHR 0xFF")
    case False
    then obtain m where m: "read_byte c l = Some m" "read_chars cs m = Some l'"
      using Cons.prems(1) by (cases "read_byte c l") auto
    then show ?thesis using Cons.IH [OF m(2)] sound_read_byte [OF m(1) Cons.prems(2,3)] by blast
  qed (use Cons.prems in simp)
qed simp

text \<open>The loop turns the single newlines into ends of commands, from left to right.\<close>

definition closed :: "token \<Rightarrow> token" where
  "closed t = (if token t = HALFENDCMD_TOKEN then t\<lparr>token := ENDCMD_TOKEN\<rparr> else t)"

definition typed_at :: "token list \<Rightarrow> nat \<Rightarrow> bool" where
  "typed_at ts i \<longleftrightarrow>
     (let left = tok_before ts i 1 \<in> {WORD_TOKEN, RBKT_TOKEN};
          right = tok_at ts (i + 1) \<in> {WORD_TOKEN, LBKT_TOKEN} \<or>
            (tok_at ts (i + 1) = ENDCMD_TOKEN \<and> tok_at ts (i + 2) \<in> {WORD_TOKEN, LBKT_TOKEN})
      in case tok_at ts i of
           AND_TOKEN \<Rightarrow> left \<and> right | OR_TOKEN \<Rightarrow> left \<and> right | PIPELINE_TOKEN \<Rightarrow> left \<and> right
         | IN_TOKEN \<Rightarrow> left \<and> right | OUT_TOKEN \<Rightarrow> left \<and> right | SEMICOLON_TOKEN \<Rightarrow> left
         | WORD_TOKEN \<Rightarrow> word_ok (content (ts ! i))
         | LBKT_TOKEN \<Rightarrow> True | RBKT_TOKEN \<Rightarrow> True | ENDCMD_TOKEN \<Rightarrow> True | _ \<Rightarrow> False)"

text \<open>The array when the loop has reached position \<open>i\<close>.\<close>

definition seen :: "token list \<Rightarrow> nat \<Rightarrow> token list" where
  "seen ts i = map closed (take i ts) @ drop i ts"

lemma seen_length: "length (seen ts i) = length ts"
  by (simp add: seen_def)

lemma seen_nth: "j < length ts \<Longrightarrow> seen ts i ! j = (if j < i then closed (ts ! j) else ts ! j)"
  by (simp add: seen_def nth_append min_def)

lemma seen_Suc: "i < length ts \<Longrightarrow> seen ts (Suc i) = (seen ts i)[i := closed (ts ! i)]"
  by (rule nth_equalityI) (auto simp: seen_length seen_nth nth_list_update less_Suc_eq)

lemma closed_token: "token (closed t) \<noteq> HALFENDCMD_TOKEN"
  by (simp add: closed_def)

lemma check_token_step:
  assumes "check_token start (seen ts i) i = Some us" "i < length ts" "list_all sound_token ts"
  shows "us = seen ts (Suc i) \<and> typed_at (map closed ts) i \<and>
    (tok_at ts i \<in> {AND_TOKEN, OR_TOKEN, PIPELINE_TOKEN, IN_TOKEN, OUT_TOKEN} \<longrightarrow> start + 1 \<le> i)"
proof -
  have at: "tok_at (seen ts i) i = token (ts ! i)" using assms(2) by (simp add: tok_at_def seen_length seen_nth)
  have after: "tok_at (seen ts i) (i + n) = tok_at ts (i + n)" for n
    by (simp add: tok_at_def seen_length seen_nth)
  have before: "tok_before (seen ts i) i n = tok_before (map closed ts) i n" if "n > 0" for n
    using that assms(2) by (auto simp: tok_before_def tok_at_def seen_length seen_nth)
  have not_half: "tok_before (map closed ts) i n \<noteq> HALFENDCMD_TOKEN" for n
    by (simp add: tok_before_def tok_at_def closed_token)
  have map_at: "tok_at (map closed ts) j = (if tok_at ts j = HALFENDCMD_TOKEN then ENDCMD_TOKEN else tok_at ts j)" for j
    by (simp add: tok_at_def closed_def)
  have same: "closed (ts ! i) = ts ! i" if "token (ts ! i) \<noteq> HALFENDCMD_TOKEN" using that by (simp add: closed_def)
  have keep: "seen ts (Suc i) = seen ts i" if "token (ts ! i) \<noteq> HALFENDCMD_TOKEN"
    using seen_Suc [OF assms(2)] same [OF that] assms(2)
    by (metis list_update_id seen_nth less_irrefl)
  have sides: "tok_before (map closed ts) i 1 \<in> {WORD_TOKEN, RBKT_TOKEN} \<and> start + 1 \<le> i \<and>
      (tok_at (map closed ts) (i + 1) \<in> {WORD_TOKEN, LBKT_TOKEN} \<or>
       tok_at (map closed ts) (i + 1) = ENDCMD_TOKEN \<and> tok_at (map closed ts) (i + 2) \<in> {WORD_TOKEN, LBKT_TOKEN})"
    if two: "\<not> check_twosides (seen ts i) start i"
  proof -
    have "start + 1 \<le> i" "tok_before (map closed ts) i 1 \<in> {WORD_TOKEN, RBKT_TOKEN}"
      "tok_at ts (i + 1) \<in> {WORD_TOKEN, LBKT_TOKEN} \<or> tok_at ts (i + 1) = HALFENDCMD_TOKEN \<and> tok_at ts (i + 2) \<in> {WORD_TOKEN, LBKT_TOKEN}"
      using two not_half [of 1] unfolding check_twosides_def Let_def after before [OF zero_less_one] by (auto split: if_splits)
    then show ?thesis unfolding map_at by auto
  qed
  have sound: "sound_token (ts ! i)" using assms(2,3) by (simp add: list_all_length)
  show ?thesis
  proof (cases "token (ts ! i)")
    case HALFENDCMD_TOKEN
    then have "us = seen ts (Suc i)"
      using assms(1,2) at by (simp add: check_token_def seen_Suc closed_def seen_nth)
    then show ?thesis using HALFENDCMD_TOKEN assms(2) by (simp add: typed_at_def tok_at_def closed_def)
  qed (use assms(1,2) at sound keep sides before [OF zero_less_one] same in
      \<open>auto simp: check_token_def Let_def typed_at_def sound_token_def map_at tok_at_def split: if_splits\<close>)
qed

lemma check_tokens_seen:
  assumes "check_tokens start [i..<length ts] (seen ts i) = Some us" "i \<le> length ts" "list_all sound_token ts"
  shows "us = map closed ts \<and> (\<forall>j. i \<le> j \<longrightarrow> j < length ts \<longrightarrow> typed_at (map closed ts) j \<and>
    (tok_at ts j \<in> {AND_TOKEN, OR_TOKEN, PIPELINE_TOKEN, IN_TOKEN, OUT_TOKEN} \<longrightarrow> start + 1 \<le> j))"
  using assms
proof (induction "length ts - i" arbitrary: i)
  case 0
  then show ?case by (simp add: seen_def)
next
  case (Suc d)
  then have i: "i < length ts" by simp
  then have "[i..<length ts] = i # [Suc i..<length ts]" by (simp add: upt_conv_Cons)
  then obtain vs where vs: "check_token start (seen ts i) i = Some vs" "check_tokens start [Suc i..<length ts] vs = Some us"
    using Suc.prems(1) by (cases "check_token start (seen ts i) i") auto
  note step = check_token_step [OF vs(1) i Suc.prems(3)]
  have "us = map closed ts \<and> (\<forall>j. Suc i \<le> j \<longrightarrow> j < length ts \<longrightarrow> typed_at (map closed ts) j \<and>
    (tok_at ts j \<in> {AND_TOKEN, OR_TOKEN, PIPELINE_TOKEN, IN_TOKEN, OUT_TOKEN} \<longrightarrow> start + 1 \<le> j))"
    by (rule Suc.hyps(1)) (use Suc vs(2) step i in auto)
  then show ?case using step by (metis le_eq_less_or_eq Suc_leI)
qed

lemma typed_at_drop:
  assumes "typed_at ts (n + i)" "i + n < length ts"
    and "tok_at ts (n + i) \<in> {AND_TOKEN, OR_TOKEN, PIPELINE_TOKEN, IN_TOKEN, OUT_TOKEN, SEMICOLON_TOKEN} \<Longrightarrow> 0 < i"
  shows "typed_at (drop n ts) i"
proof -
  have at: "tok_at (drop n ts) j = tok_at ts (n + j)" for j by (auto simp: tok_at_def)
  have before: "tok_before (drop n ts) i 1 = tok_before ts (n + i) 1" if "0 < i"
    using that by (simp add: tok_before_def at)
  have nth: "drop n ts ! i = ts ! (n + i)" using assms(2) by simp
  show ?thesis
    using assms(1,3) before unfolding typed_at_def at nth Let_def
    by (cases "tok_at ts (n + i)") (auto simp: add.assoc)
qed

text \<open>C13: A stream that passes the check is well typed: every word has a name; every pipe, \<open>&&\<close>, \<open>||\<close> and
  redirection has a word or a closing bracket before it and a word or an opening bracket after it, there
  possibly behind one newline; every semicolon has a word or a closing bracket before it; and no token is
  left half read. What is after a newline belongs to the next line and a semicolon needs nothing after
  it, so the right operand may still be missing when the line is parsed (\<open>pipe_before_bracket_misread\<close>,
  \<open>trailing_semicolon\<close>).\<close>

theorem stream_typed:
  assumes "make_command_stream bytes = Some ts" and "i < length ts"
  shows "typed_at ts i"
proof -
  obtain l where l: "read_chars bytes \<lparr>is_comments = False, word_buffer = [], command_s = []\<rparr> = Some l"
    using assms(1) by (auto simp: make_command_stream_def bind_eq_Some_conv)
  define A where "A = (if prev 1 (command_s l) = HALFENDCMD_TOKEN then put_last ENDCMD_TOKEN (command_s l) else command_s l)"
  define start where "start = length (takeWhile is_newline (command_s l))"
  have sound_l: "list_all sound_token (command_s l)" using sound_read_chars [OF l] by simp
  then have sound: "list_all sound_token A" by (simp add: A_def sound_put_last)
  obtain us where us: "check_tokens start [0..<length A] A = Some us" "ts = drop start us"
    using assms(1) l unfolding make_command_stream_def Let_def A_def start_def
    by (auto simp: bind_eq_Some_conv split: if_splits)
  have "seen A 0 = A" by (simp add: seen_def)
  then have *: "us = map closed A" "\<And>j. j < length A \<Longrightarrow> typed_at (map closed A) j"
    "\<And>j. j < length A \<Longrightarrow> tok_at A j \<in> {AND_TOKEN, OR_TOKEN, PIPELINE_TOKEN, IN_TOKEN, OUT_TOKEN} \<Longrightarrow> start + 1 \<le> j"
    using check_tokens_seen [of start 0 A us] us(1) sound by auto
  have n: "start + i < length A" using assms(2) us(2) *(1) by simp
  have newline_at: "is_newline (A ! j)" if j: "j < start" "j < length A" for j
  proof -
    have len: "length A = length (command_s l)" by (simp add: A_def put_last_def)
    have "is_newline (command_s l ! j)"
      using j(1) unfolding start_def by (metis nth_mem set_takeWhileD takeWhile_nth)
    then show ?thesis
      using j(2) len by (auto simp: A_def put_last_def nth_list_update is_newline_def)
  qed
  have pos: "0 < i" if op: "tok_at (map closed A) (start + i) \<in> {AND_TOKEN, OR_TOKEN, PIPELINE_TOKEN, IN_TOKEN, OUT_TOKEN, SEMICOLON_TOKEN}"
  proof (rule ccontr)
    assume "\<not> 0 < i"
    then have i: "i = 0" by simp
    have tok: "tok_at (map closed A) start = (if tok_at A start = HALFENDCMD_TOKEN then ENDCMD_TOKEN else tok_at A start)"
      by (simp add: tok_at_def closed_def)
    have "tok_at A start \<notin> {AND_TOKEN, OR_TOKEN, PIPELINE_TOKEN, IN_TOKEN, OUT_TOKEN}" using *(3) [of start] n i by fastforce
    then have semi: "tok_at (map closed A) start = SEMICOLON_TOKEN" using op tok i by (auto split: if_splits)
    then have "tok_before (map closed A) start 1 \<in> {WORD_TOKEN, RBKT_TOKEN}"
      using *(2) [of start] n i by (simp add: typed_at_def Let_def)
    then have "1 \<le> start" "token (closed (A ! (start - 1))) \<in> {WORD_TOKEN, RBKT_TOKEN}"
      using n i by (auto simp: tok_before_def tok_at_def split: if_splits)
    moreover have "is_newline (A ! (start - 1))" using newline_at [of "start - 1"] \<open>1 \<le> start\<close> n by simp
    ultimately show False by (auto simp: closed_def is_newline_def split: if_splits)
  qed
  show ?thesis
    unfolding us(2) *(1) by (rule typed_at_drop) (use *(2) [of "start + i"] n pos in auto)
qed

lemma stream_typed_witness:
  "typed_at [word_token ''a'', sign PIPELINE_TOKEN, word_token ''b'', sign ENDCMD_TOKEN] 1"
proof -
  have "make_command_stream (''a | b'' @ newline) =
      Some [word_token ''a'', sign PIPELINE_TOKEN, word_token ''b'', sign ENDCMD_TOKEN]" by code_simp
  then show ?thesis by (rule stream_typed) simp
qed

section \<open>Where the reader departs from the language\<close>

text \<open>The pipe binds to the whole right operand of a semicolon: \<open>b && c\<close> becomes the left side of the pipe.\<close>

lemma late_pipe_misread:
  "read_script (''a ; b && c | d'' @ newline) =
     Commands [SEQUENCE_COMMAND (simple ''a'') (PIPE_COMMAND (AND_COMMAND (simple ''b'') (simple ''c'')) (simple ''d''))]"
  by code_simp

text \<open>The inner closing bracket ends the outer subshell too.\<close>

lemma nested_subshell_misread:
  "read_script (''((a) ; b)'' @ newline) =
     Commands [SEQUENCE_COMMAND (SUBSHELL_COMMAND (SUBSHELL_COMMAND (simple ''a'') None None) None None) (simple ''b'')]"
  by code_simp

text \<open>The second redirection of a subshell goes to the last command in it.\<close>

lemma second_redirection_misread:
  "read_script (''(a) < x > y'' @ newline) = Commands [SUBSHELL_COMMAND (SIMPLE_COMMAND [''a''] None (Some ''y'')) (Some ''x'') None]"
  by code_simp

text \<open>A pipe at the end of a line in front of a bracket is cut off.\<close>

lemma pipe_before_bracket_misread:
  "read_script (''a |'' @ newline @ ''(b)'' @ newline) =
     Commands [PIPE_COMMAND (simple ''a'') UNTYPED, SUBSHELL_COMMAND (simple ''b'') None None]"
  by code_simp

text \<open>Both redirections of an empty pair of brackets are stored, in two nodes.\<close>

lemma empty_brackets_redirected:
  "read_script (''() < x > y'' @ newline) = Commands [SUBSHELL_COMMAND UNTYPED (Some ''x'') None]"
  by code_simp

text \<open>A semicolon at the end of a command and an empty pair of brackets leave a node without a type; a script
  without a command runs off the array of tokens; a last line without a newline is dropped.\<close>

lemma trailing_semicolon: "read_script (''a ;'' @ newline) = Commands [SEQUENCE_COMMAND (simple ''a'') UNTYPED]"
  by code_simp

lemma empty_script_crashes: "read_script [] = Crash" "read_script (''# comment'' @ newline) = Crash"
  by code_simp+

lemma last_line_dropped: "read_script (''a'' @ newline @ ''b'') = Commands [simple ''a'']"
  by code_simp

lemma split_operator_accepted: "read_script (''a | | b'' @ newline) = Commands [OR_COMMAND (simple ''a'') (simple ''b'')]"
  by code_simp

lemma redirection_joins_lines: "read_script (''a'' @ newline @ ''< b'' @ newline) = Commands [SIMPLE_COMMAND [''a''] (Some ''b'') None]"
  by code_simp

end
