(* ===== verification/Shell_Travel.thy ===== *)
theory Shell_Travel
  imports Shell_Exec
begin

text \<open>
  The time-travel mode of the shell (\<open>Lab1/execute-command.c\<close> and the branch of \<open>main.c\<close> for \<open>-t\<close>): the
  commands of a script run concurrently, except that a command waits for those whose output it touches.
  The list of command units is indexed from 0. Its nodes are taken to be zero when they are allocated,
  as the code relies on. A recursion that never ends is \<open>None\<close>.
\<close>

section \<open>Constraints\<close>

text \<open>The files a command writes and the words it may read, appended to two arrays of \<open>buffer_size\<close> entries.
  \<open>None\<close> is a node without a type.\<close>

fun get_constrains :: "command \<Rightarrow> string list \<times> string list \<Rightarrow> (string list \<times> string list) option" where
  "get_constrains (AND_COMMAND a b) c = Option.bind (get_constrains a c) (get_constrains b)"
| "get_constrains (OR_COMMAND a b) c = Option.bind (get_constrains a c) (get_constrains b)"
| "get_constrains (SEQUENCE_COMMAND a b) c = Option.bind (get_constrains a c) (get_constrains b)"
| "get_constrains (PIPE_COMMAND a b) c = Option.bind (get_constrains a c) (get_constrains b)"
| "get_constrains (SIMPLE_COMMAND ws inp out) (os, is) =
     Some (os @ (case out of None \<Rightarrow> [] | Some f \<Rightarrow> [f]), is @ (case inp of None \<Rightarrow> [] | Some f \<Rightarrow> [f]) @ ws)"
| "get_constrains (SUBSHELL_COMMAND a inp out) c = get_constrains a c"
| "get_constrains UNTYPED c = None"

definition buffer_size :: nat where [const_defs]: "buffer_size = 100"

text \<open>The two loops; the inner index starts from 0 only once.\<close>

function check_loop :: "string list \<Rightarrow> string list \<Rightarrow> nat \<Rightarrow> nat \<Rightarrow> bool" where
  "check_loop o_constrain i_constrain i j =
     (if i < length o_constrain
      then (if j < length i_constrain
            then (if o_constrain ! i = i_constrain ! j then True else check_loop o_constrain i_constrain i (j + 1))
            else check_loop o_constrain i_constrain (i + 1) j)
      else False)"
  by pat_completeness auto
termination
  by (relation "measure (\<lambda>(os, is, i, j). (length os - i) + (length is - j))") auto

declare check_loop.simps [simp del]

definition check_constrain :: "string list \<Rightarrow> string list \<Rightarrow> bool" where
  "check_constrain o_constrain i_constrain = check_loop o_constrain i_constrain 0 0"

text \<open>Whether the unit \<open>row\<close> has to wait for the unit \<open>col\<close>.\<close>

type_synonym unit_constrains = "string list \<times> string list"

definition depends :: "unit_constrains list \<Rightarrow> nat \<Rightarrow> nat \<Rightarrow> bool" where
  "depends us row col \<longleftrightarrow> col \<noteq> row \<and>
     (check_constrain (fst (us ! col)) (snd (us ! row)) \<or> check_constrain (fst (us ! col)) (fst (us ! row)))"

section \<open>Running the units\<close>

text \<open>\<open>Start\<close> and \<open>End\<close> are the forks and the successful waits, in order; \<open>children\<close> are the processes that
  have not been waited for.\<close>

datatype event = Start nat | End int

record travel =
  running :: "nat \<Rightarrow> bool"
  pid :: "nat \<Rightarrow> int"
  constrain_graph :: "nat \<Rightarrow> nat \<Rightarrow> bool"
  W :: "nat \<Rightarrow> int"
  status :: int
  children :: "int list"
  events :: "event list"

text \<open>The kernel: what \<open>fork\<close> returns for a unit, which child ends next, and with which status.\<close>

record schedule =
  fork_pid :: "nat \<Rightarrow> nat \<Rightarrow> int"
  ends_next :: "nat \<Rightarrow> nat"
  child_status :: "int \<Rightarrow> int"

definition start_unit :: "schedule \<Rightarrow> nat \<Rightarrow> nat \<Rightarrow> travel \<Rightarrow> travel" where
  "start_unit k rnd ind t =
     (if W t ind = 0 \<and> \<not> running t ind
      then (let pid_temp = fork_pid k rnd ind
            in if pid_temp = -1 then t
               else t\<lparr>running := (running t)(ind := True), pid := (pid t)(ind := pid_temp),
                      children := children t @ [pid_temp], events := events t @ [Start ind]\<rparr>)
      else t)"

definition start_units :: "schedule \<Rightarrow> nat \<Rightarrow> nat \<Rightarrow> travel \<Rightarrow> travel" where
  "start_units k rnd n t = fold (start_unit k rnd) [0..<n] t"

text \<open>\<open>wait\<close> returns -1 when there is no child; a status other than 0 is kept.\<close>

definition wait_unit :: "schedule \<Rightarrow> nat \<Rightarrow> travel \<Rightarrow> int \<times> travel" where
  "wait_unit k rnd t =
     (if children t = [] then (-1, t)
      else (let p = children t ! (ends_next k rnd mod length (children t))
            in (p, t\<lparr>children := remove1 p (children t), events := events t @ [End p],
                     status := (if status t \<noteq> 0 then status t else child_status k p)\<rparr>)))"

definition clear_edge :: "int \<Rightarrow> nat \<Rightarrow> nat \<Rightarrow> travel \<Rightarrow> travel" where
  "clear_edge p row col t =
     (if pid t col = p \<and> constrain_graph t row col
      then t\<lparr>constrain_graph := (constrain_graph t)(row := (constrain_graph t row)(col := False)),
             W := (W t)(row := W t row - 1)\<rparr>
      else t)"

definition clear_edges :: "nat \<Rightarrow> int \<Rightarrow> travel \<Rightarrow> travel" where
  "clear_edges n p t = fold (\<lambda>row. fold (clear_edge p row) [0..<n]) [0..<n] t"

definition travel_round :: "schedule \<Rightarrow> nat \<Rightarrow> nat \<Rightarrow> travel \<Rightarrow> travel" where
  "travel_round k rnd n t =
     (case wait_unit k rnd (start_units k rnd n t) of (p, t) \<Rightarrow> clear_edges n p t)"

partial_function (option) execute_tcmd :: "schedule \<Rightarrow> nat \<Rightarrow> nat \<Rightarrow> travel \<Rightarrow> travel option" where
  "execute_tcmd k n rnd t =
     (if list_all (running t) [0..<n] then Some t
      else execute_tcmd k n (rnd + 1) (travel_round k rnd n t))"

text \<open>The rows of the matrix are filled in order, and with them the numbers of unmet constraints.\<close>

definition initial_travel :: "unit_constrains list \<Rightarrow> travel" where
  "initial_travel us = \<lparr>running = \<lambda>_. False, pid = \<lambda>_. 0,
     constrain_graph = (\<lambda>row col. row < length us \<and> col < length us \<and> depends us row col),
     W = (\<lambda>row. int (length (filter (depends us row) [0..<length us]))),
     status = 0, children = [], events = []\<rparr>"

text \<open>\<open>None\<close>, and \<open>Inl\<close> for the whole mode, when the constraints of a unit do not fit their arrays or a unit
  has no type.\<close>

fun all_constrains :: "command list \<Rightarrow> unit_constrains list option" where
  "all_constrains [] = Some []"
| "all_constrains (c # cs) =
     (case get_constrains c ([], []) of
        None \<Rightarrow> None
      | Some (os, is) \<Rightarrow>
          if length os > buffer_size \<or> length is > buffer_size then None
          else map_option ((#) (os, is)) (all_constrains cs))"

definition execute_timetravel_cmd :: "schedule \<Rightarrow> command list \<Rightarrow> unit + travel option" where
  "execute_timetravel_cmd k cs =
     (case all_constrains cs of
        None \<Rightarrow> Inl ()
      | Some us \<Rightarrow> Inr (execute_tcmd k (length us) 0 (initial_travel us)))"

section \<open>One round\<close>

text \<open>A kernel whose forks succeed and give every unit a process id of its own.\<close>

definition sound_forks :: "schedule \<Rightarrow> bool" where
  "sound_forks k \<longleftrightarrow> (\<forall>r i. fork_pid k r i > 0) \<and> (\<forall>r i r' j. fork_pid k r i = fork_pid k r' j \<longrightarrow> i = j)"

definition ready :: "travel \<Rightarrow> nat \<Rightarrow> bool" where
  "ready t i \<longleftrightarrow> W t i = 0 \<and> \<not> running t i"

lemma fold_start_unit:
  assumes "distinct xs" "\<And>i. fork_pid k r i \<noteq> -1"
  shows "fold (start_unit k r) xs t = t\<lparr>running := (\<lambda>i. running t i \<or> (i \<in> set xs \<and> ready t i)),
     pid := (\<lambda>i. if i \<in> set xs \<and> ready t i then fork_pid k r i else pid t i),
     children := children t @ map (fork_pid k r) (filter (ready t) xs),
     events := events t @ map Start (filter (ready t) xs)\<rparr>"
  using assms(1)
proof (induction xs arbitrary: t)
  case (Cons x xs)
  define u where "u = start_unit k r x t"
  have u: "u = (if ready t x
      then t\<lparr>running := (running t)(x := True), pid := (pid t)(x := fork_pid k r x),
             children := children t @ [fork_pid k r x], events := events t @ [Start x]\<rparr>
      else t)"
    using assms(2) by (simp add: u_def start_unit_def ready_def Let_def)
  have same: "ready u i = ready t i" if "i \<in> set xs" for i
    using that Cons.prems by (auto simp: u ready_def)
  then have f: "filter (ready u) xs = filter (ready t) xs" by (simp cong: filter_cong)
  have IH: "fold (start_unit k r) (x # xs) t = u\<lparr>running := (\<lambda>i. running u i \<or> (i \<in> set xs \<and> ready u i)),
     pid := (\<lambda>i. if i \<in> set xs \<and> ready u i then fork_pid k r i else pid u i),
     children := children u @ map (fork_pid k r) (filter (ready t) xs),
     events := events u @ map Start (filter (ready t) xs)\<rparr>"
    using Cons.IH [of u] Cons.prems by (simp add: u_def [symmetric] f)
  have r1: "(\<lambda>i. running u i \<or> (i \<in> set xs \<and> ready u i)) = (\<lambda>i. running t i \<or> (i \<in> set (x # xs) \<and> ready t i))"
    using same by (fastforce simp: u)
  have r2: "(\<lambda>i. if i \<in> set xs \<and> ready u i then fork_pid k r i else pid u i) =
      (\<lambda>i. if i \<in> set (x # xs) \<and> ready t i then fork_pid k r i else pid t i)"
    using same by (fastforce simp: u)
  show ?case unfolding IH r1 r2 by (simp add: u)
qed simp

lemma sound_fork: "sound_forks k \<Longrightarrow> fork_pid k r i \<noteq> -1"
  unfolding sound_forks_def by (metis neg_0_le_iff_le not_less zero_less_one order.strict_implies_order less_minus_one_simps(1) not_less_iff_gr_or_eq)

lemmas start_units_eq = fold_start_unit [OF distinct_upt, of _ _ 0, folded start_units_def]

lemma fold_clear_edge:
  assumes "distinct cols"
  shows "fold (clear_edge p row) cols t =
     t\<lparr>constrain_graph := (constrain_graph t)(row := (\<lambda>c. constrain_graph t row c \<and> \<not> (c \<in> set cols \<and> pid t c = p))),
       W := (W t)(row := W t row - int (length (filter (\<lambda>c. pid t c = p \<and> constrain_graph t row c) cols)))\<rparr>"
  using assms
proof (induction cols arbitrary: t)
  case (Cons c cols)
  define u where "u = clear_edge p row c t"
  have f: "filter (\<lambda>c. pid u c = p \<and> constrain_graph u row c) cols = filter (\<lambda>c. pid t c = p \<and> constrain_graph t row c) cols"
    using Cons.prems by (auto simp: u_def clear_edge_def intro!: filter_cong)
  have step: "fold (clear_edge p row) (c # cols) t = fold (clear_edge p row) cols u" by (simp add: u_def)
  show ?case
  proof (cases "pid t c = p \<and> constrain_graph t row c")
    case True
    then have u: "u = t\<lparr>constrain_graph := (constrain_graph t)(row := (constrain_graph t row)(c := False)), W := (W t)(row := W t row - 1)\<rparr>"
      by (simp add: u_def clear_edge_def)
    show ?thesis unfolding step Cons.IH [OF distinct.simps(2) [THEN iffD1, OF Cons.prems, THEN conjunct2]] f
      by (rule travel.equality) (use True in \<open>auto simp: u fun_eq_iff\<close>)
  next
    case False
    then have u: "u = t" by (auto simp: u_def clear_edge_def)
    show ?thesis unfolding step Cons.IH [OF distinct.simps(2) [THEN iffD1, OF Cons.prems, THEN conjunct2]] f
      by (rule travel.equality) (use False in \<open>auto simp: u fun_eq_iff\<close>)
  qed
qed simp

lemma fold_clear_rows:
  assumes "distinct rows"
  shows "fold (\<lambda>row. fold (clear_edge p row) [0..<n]) rows t =
     t\<lparr>constrain_graph := (\<lambda>row c. constrain_graph t row c \<and> \<not> (row \<in> set rows \<and> c < n \<and> pid t c = p)),
       W := (\<lambda>row. W t row - (if row \<in> set rows
           then int (length (filter (\<lambda>c. pid t c = p \<and> constrain_graph t row c) [0..<n])) else 0))\<rparr>"
  using assms
proof (induction rows arbitrary: t)
  case (Cons row rows)
  let ?u = "fold (clear_edge p row) [0..<n] t"
  have u: "?u = t\<lparr>constrain_graph := (constrain_graph t)(row := (\<lambda>c. constrain_graph t row c \<and> \<not> (c < n \<and> pid t c = p))),
       W := (W t)(row := W t row - int (length (filter (\<lambda>c. pid t c = p \<and> constrain_graph t row c) [0..<n])))\<rparr>"
    by (simp add: fold_clear_edge)
  have step: "fold (\<lambda>row. fold (clear_edge p row) [0..<n]) (row # rows) t = fold (\<lambda>row. fold (clear_edge p row) [0..<n]) rows ?u"
    by simp
  show ?case unfolding step using Cons.IH [of ?u] Cons.prems
    by (intro travel.equality) (auto simp: u fun_eq_iff)
qed simp

lemma clear_edges_eq:
  "clear_edges n p t = t\<lparr>constrain_graph := (\<lambda>row c. constrain_graph t row c \<and> \<not> (row < n \<and> c < n \<and> pid t c = p)),
     W := (\<lambda>row. W t row - (if row < n
         then int (length (filter (\<lambda>c. pid t c = p \<and> constrain_graph t row c) [0..<n])) else 0))\<rparr>"
  unfolding clear_edges_def by (subst fold_clear_rows) simp_all

section \<open>The invariant of the rounds\<close>

definition ended :: "travel \<Rightarrow> nat \<Rightarrow> bool" where
  "ended t i \<longleftrightarrow> running t i \<and> End (pid t i) \<in> set (events t)"

text \<open>\<open>W\<close> counts the unmet constraints, which are constraints of the script; a met constraint is met because
  the other unit has ended.\<close>

definition counts_ok :: "unit_constrains list \<Rightarrow> travel \<Rightarrow> bool" where
  "counts_ok us t \<longleftrightarrow>
     (\<forall>row < length us. W t row = int (length (filter (constrain_graph t row) [0..<length us]))) \<and>
     (\<forall>row col. constrain_graph t row col \<longrightarrow> row < length us \<and> col < length us \<and> depends us row col) \<and>
     (\<forall>row col. row < length us \<longrightarrow> col < length us \<longrightarrow> depends us row col \<longrightarrow> \<not> constrain_graph t row col \<longrightarrow> ended t col)"

text \<open>A unit that runs is a child or has ended, and then nothing waits for it any more.\<close>

definition processes_ok :: "schedule \<Rightarrow> nat \<Rightarrow> travel \<Rightarrow> bool" where
  "processes_ok k n t \<longleftrightarrow>
     (\<forall>i. running t i \<longrightarrow> i < n \<and> (\<exists>r. pid t i = fork_pid k r i) \<and>
        (pid t i \<in> set (children t) \<or> ended t i \<and> (\<forall>row. \<not> constrain_graph t row i))) \<and>
     (\<forall>i. \<not> running t i \<longrightarrow> pid t i = 0) \<and>
     distinct (children t) \<and> (\<forall>p \<in> set (children t). \<exists>i. running t i \<and> pid t i = p)"

definition starts :: "event list \<Rightarrow> nat list" where
  "starts es = concat (map (\<lambda>e. case e of Start i \<Rightarrow> [i] | End p \<Rightarrow> []) es)"

definition starts_ok :: "travel \<Rightarrow> bool" where
  "starts_ok t \<longleftrightarrow> distinct (starts (events t)) \<and> set (starts (events t)) = {i. running t i}"

text \<open>Whoever depends on a unit starts after that unit has ended.\<close>

definition order_ok :: "unit_constrains list \<Rightarrow> travel \<Rightarrow> bool" where
  "order_ok us t \<longleftrightarrow>
     (\<forall>m row col. m < length (events t) \<longrightarrow> events t ! m = Start row \<longrightarrow> col < length us \<longrightarrow> depends us row col \<longrightarrow>
        running t col \<and> End (pid t col) \<in> set (take m (events t)))"

definition travel_inv :: "schedule \<Rightarrow> unit_constrains list \<Rightarrow> travel \<Rightarrow> bool" where
  "travel_inv k us t \<longleftrightarrow> counts_ok us t \<and> processes_ok k (length us) t \<and> starts_ok t \<and> order_ok us t"

lemma initial_inv: "travel_inv k us (initial_travel us)"
proof -
  have "counts_ok us (initial_travel us)"
    unfolding counts_ok_def
    by (auto simp: initial_travel_def intro!: arg_cong [where f = length] filter_cong)
  then show ?thesis
    by (simp add: travel_inv_def processes_ok_def starts_ok_def order_ok_def initial_travel_def starts_def)
qed

lemma starts_append: "starts (es @ fs) = starts es @ starts fs"
  by (simp add: starts_def)

lemma starts_map_Start: "starts (map Start xs) = xs"
  by (induction xs) (simp_all add: starts_def)

lemma running_pid: "processes_ok k n t \<Longrightarrow> running t i \<Longrightarrow> \<exists>r. pid t i = fork_pid k r i"
  by (simp add: processes_ok_def)

lemma start_units_inv:
  assumes k: "sound_forks k" and inv: "travel_inv k us t"
  shows "travel_inv k us (start_units k r (length us) t)"
proof -
  let ?n = "length us"
  define u where "u = start_units k r ?n t"
  have u: "u = t\<lparr>running := (\<lambda>i. running t i \<or> (i \<in> set [0..<?n] \<and> ready t i)),
     pid := (\<lambda>i. if i \<in> set [0..<?n] \<and> ready t i then fork_pid k r i else pid t i),
     children := children t @ map (fork_pid k r) (filter (ready t) [0..<?n]),
     events := events t @ map Start (filter (ready t) [0..<?n])\<rparr>"
    unfolding u_def by (rule start_units_eq) (rule sound_fork [OF k])
  have old: "running u i" "pid u i = pid t i" if "running t i" for i
    using that by (simp_all add: u ready_def)
  have ended_old: "ended u i" if "ended t i" for i
    using that old by (auto simp: ended_def u)
  have c: "counts_ok us t" and p: "processes_ok k ?n t" and s: "starts_ok t" and o: "order_ok us t"
    using inv by (simp_all add: travel_inv_def)
  have "counts_ok us u"
    using c ended_old by (auto simp: counts_ok_def u)
  moreover have "processes_ok k ?n u"
  proof -
    have "i < ?n \<and> (\<exists>r. pid u i = fork_pid k r i) \<and>
        (pid u i \<in> set (children u) \<or> ended u i \<and> (\<forall>row. \<not> constrain_graph u row i))" if run: "running u i" for i
    proof (cases "running t i")
      case True
      then show ?thesis using p old ended_old by (auto simp: processes_ok_def u)
    next
      case False
      then show ?thesis using run by (auto simp: u)
    qed
    moreover have "pid u i = 0" if "\<not> running u i" for i
      using that p by (auto simp: processes_ok_def u)
    moreover have "distinct (children u)"
    proof -
      have "inj_on (fork_pid k r) A" for A using k by (auto simp: sound_forks_def inj_on_def)
      moreover have "fork_pid k r i \<notin> set (children t)" if "ready t i" for i
      proof
        assume "fork_pid k r i \<in> set (children t)"
        then obtain j where j: "running t j" "pid t j = fork_pid k r i" using p by (auto simp: processes_ok_def)
        then obtain r' where "fork_pid k r i = fork_pid k r' j" using running_pid [OF p j(1)] by auto
        then have "i = j" using k unfolding sound_forks_def by blast
        then show False using j(1) that by (simp add: ready_def)
      qed
      ultimately show ?thesis using p by (auto simp: processes_ok_def u distinct_map)
    qed
    moreover have "\<exists>i. running u i \<and> pid u i = q" if "q \<in> set (children u)" for q
    proof (cases "q \<in> set (children t)")
      case True
      then show ?thesis using p old by (fastforce simp: processes_ok_def)
    next
      case False
      then show ?thesis using that by (auto simp: u)
    qed
    ultimately show ?thesis by (simp add: processes_ok_def)
  qed
  moreover have "starts_ok u"
    using s by (auto simp: starts_ok_def u starts_append starts_map_Start ready_def)
  moreover have "order_ok us u"
    unfolding order_ok_def
  proof (intro allI impI)
    fix m row col
    assume m: "m < length (events u)" "events u ! m = Start row" and col: "col < ?n" "depends us row col"
    show "running u col \<and> End (pid u col) \<in> set (take m (events u))"
    proof (cases "m < length (events t)")
      case True
      then have "running t col \<and> End (pid t col) \<in> set (take m (events t))"
        using o m(2) col by (auto simp: order_ok_def u nth_append)
      then show ?thesis using old True by (simp add: u)
    next
      case False
      then have "m - length (events t) < length (filter (ready t) [0..<?n])"
        "row = filter (ready t) [0..<?n] ! (m - length (events t))"
        using m by (auto simp: u nth_append)
      then have "row \<in> set (filter (ready t) [0..<?n])" by (metis nth_mem)
      then have row: "row < ?n" "W t row = 0" by (auto simp: ready_def)
      then have "\<not> constrain_graph t row col" using c col(1) by (auto simp: counts_ok_def filter_empty_conv)
      then have "ended t col" using c row(1) col by (simp add: counts_ok_def)
      then show ?thesis using False old by (auto simp: ended_def u)
    qed
  qed
  ultimately show ?thesis by (simp add: travel_inv_def u_def)
qed

text \<open>A child ends and the constraints on its unit are met.\<close>

lemma filter_split_count:
  "int (length (filter P xs)) - int (length (filter (\<lambda>x. Q x \<and> P x) xs)) = int (length (filter (\<lambda>x. P x \<and> \<not> Q x) xs))"
  by (induction xs) auto

lemma wait_clear_inv:
  assumes k: "sound_forks k" and inv: "travel_inv k us t" and child: "children t \<noteq> []"
  shows "\<exists>i. running t i \<and> pid t i \<in> set (children t) \<and> i < length us \<and>
    travel_inv k us (case wait_unit k r t of (p, t) \<Rightarrow> clear_edges (length us) p t) \<and>
    running (case wait_unit k r t of (p, t) \<Rightarrow> clear_edges (length us) p t) = running t \<and>
    pid (case wait_unit k r t of (p, t) \<Rightarrow> clear_edges (length us) p t) = pid t \<and>
    set (children (case wait_unit k r t of (p, t) \<Rightarrow> clear_edges (length us) p t)) = set (children t) - {pid t i}"
proof -
  let ?n = "length us"
  define p where "p = children t ! (ends_next k r mod length (children t))"
  define st where "st = (if status t \<noteq> 0 then status t else child_status k p)"
  define u where "u = clear_edges ?n p (t\<lparr>children := remove1 p (children t), events := events t @ [End p], status := st\<rparr>)"
  have w: "(case wait_unit k r t of (p, t) \<Rightarrow> clear_edges ?n p t) = u"
    using child by (simp add: wait_unit_def Let_def p_def u_def st_def)
  have c: "counts_ok us t" and pr: "processes_ok k ?n t" and s: "starts_ok t" and o: "order_ok us t"
    using inv by (simp_all add: travel_inv_def)
  have "p \<in> set (children t)" using child by (simp add: p_def)
  then obtain i where i: "running t i" "pid t i = p" using pr by (auto simp: processes_ok_def)
  have only: "j = i" if j: "running t j" "pid t j = p" for j
  proof -
    obtain r1 r2 where "pid t i = fork_pid k r1 i" "pid t j = fork_pid k r2 j"
      using running_pid [OF pr i(1)] running_pid [OF pr j(1)] by blast
    then have "fork_pid k r2 j = fork_pid k r1 i" using i(2) j(2) by simp
    then show ?thesis using k unfolding sound_forks_def by blast
  qed
  have pos: "p > 0" using running_pid [OF pr i(1)] i(2) k by (auto simp: sound_forks_def)
  have col: "pid t c = p \<longleftrightarrow> c = i" for c
  proof (cases "running t c")
    case True
    then show ?thesis using only i(2) by blast
  next
    case False
    then have "pid t c = 0" using pr by (simp add: processes_ok_def)
    then show ?thesis using False i(1) pos by auto
  qed
  have u: "u = t\<lparr>children := remove1 p (children t), events := events t @ [End p],
      status := st, constrain_graph := (\<lambda>row c. constrain_graph t row c \<and> \<not> (row < ?n \<and> c < ?n \<and> c = i)),
      W := (\<lambda>row. W t row - (if row < ?n then int (length (filter (\<lambda>c. c = i \<and> constrain_graph t row c) [0..<?n])) else 0))\<rparr>"
    unfolding u_def clear_edges_eq by (rule travel.equality) (simp_all add: col fun_eq_iff cong: filter_cong)
  have dist: "distinct (children t)" using pr by (simp add: processes_ok_def)
  then have ch: "set (children u) = set (children t) - {p}" by (simp add: u)
  have ended_old: "ended u j" if "ended t j" for j using that by (auto simp: ended_def u)
  have ended_i: "ended u i" using i by (simp add: ended_def u)
  have in_n: "i < ?n" using pr i(1) by (simp add: processes_ok_def)
  have g: "constrain_graph u row c \<longleftrightarrow> constrain_graph t row c \<and> c \<noteq> i" for row c
    using c by (auto simp: u counts_ok_def)
  have "counts_ok us u"
    unfolding counts_ok_def
  proof (intro conjI allI impI)
    fix row assume "row < ?n"
    then have "W u row = int (length (filter (\<lambda>x. constrain_graph t row x \<and> x \<noteq> i) [0..<?n]))"
      using c filter_split_count [of "constrain_graph t row" "[0..<?n]" "\<lambda>c. c = i"] by (simp add: u counts_ok_def)
    then show "W u row = int (length (filter (constrain_graph u row) [0..<?n]))"
      using g by (simp add: fun_eq_iff cong: filter_cong)
  next
    fix row c assume *: "constrain_graph u row c"
    then show "row < ?n" "c < ?n" "depends us row c" using g c unfolding counts_ok_def by blast+
  next
    fix row c assume "row < ?n" "c < ?n" "depends us row c" "\<not> constrain_graph u row c"
    then show "ended u c" using g c ended_old ended_i unfolding counts_ok_def by metis
  qed
  moreover have "processes_ok k ?n u"
    unfolding processes_ok_def
  proof (intro conjI allI impI ballI)
    fix j assume j: "running u j"
    then have tj: "running t j" by (simp add: u)
    then show "j < ?n" "\<exists>r. pid u j = fork_pid k r j" using pr by (auto simp: processes_ok_def u)
    show "pid u j \<in> set (children u) \<or> ended u j \<and> (\<forall>row. \<not> constrain_graph u row j)"
    proof (cases "j = i")
      case True
      then show ?thesis using ended_i g by simp
    next
      case False
      then have "pid t j \<noteq> p" using col by simp
      moreover have "pid u j = pid t j" by (simp add: u)
      ultimately show ?thesis using pr tj ch ended_old g unfolding processes_ok_def by auto
    qed
  next
    fix j assume "\<not> running u j"
    then show "pid u j = 0" using pr by (auto simp: processes_ok_def u)
  next
    show "distinct (children u)" using dist by (simp add: u)
  next
    fix q assume "q \<in> set (children u)"
    then have "q \<in> set (children t)" using ch by simp
    then show "\<exists>i. running u i \<and> pid u i = q" using pr by (simp add: processes_ok_def u)
  qed
  moreover have "starts_ok u"
    using s by (simp add: starts_ok_def u starts_append) (simp add: starts_def)
  moreover have "order_ok us u"
    using o by (auto simp: order_ok_def u nth_append less_Suc_eq)
  ultimately have "travel_inv k us u" by (simp add: travel_inv_def)
  then show ?thesis unfolding w using i in_n ch \<open>p \<in> set (children t)\<close> by (intro exI [of _ i]) (simp add: u)
qed

lemma no_pid_minus_one: "sound_forks k \<Longrightarrow> travel_inv k us t \<Longrightarrow> pid t c \<noteq> -1"
proof (cases "running t c")
  case True
  assume k: "sound_forks k" and inv: "travel_inv k us t"
  obtain r where "pid t c = fork_pid k r c" using inv True by (auto simp: travel_inv_def processes_ok_def)
  then show ?thesis using sound_fork [OF k] by simp
next
  case False
  assume "travel_inv k us t"
  then show ?thesis using False by (simp add: travel_inv_def processes_ok_def)
qed

lemma travel_round_inv:
  assumes k: "sound_forks k" and inv: "travel_inv k us t"
  shows "travel_inv k us (travel_round k r (length us) t)"
proof -
  let ?u = "start_units k r (length us) t"
  have u: "travel_inv k us ?u" by (rule start_units_inv [OF k inv])
  show ?thesis
  proof (cases "children ?u = []")
    case True
    then have "travel_round k r (length us) t = clear_edges (length us) (-1) ?u"
      by (simp add: travel_round_def wait_unit_def)
    also have "\<dots> = ?u"
      unfolding clear_edges_eq
      by (rule travel.equality) (simp_all add: no_pid_minus_one [OF k u] fun_eq_iff)
    finally show ?thesis using u by simp
  next
    case False
    then show ?thesis using wait_clear_inv [OF k u False, of r] unfolding travel_round_def by blast
  qed
qed

lemma execute_tcmd_inv:
  assumes "execute_tcmd k n r t = Some t'"
  shows "sound_forks k \<longrightarrow> n = length us \<longrightarrow> travel_inv k us t \<longrightarrow> travel_inv k us t' \<and> list_all (running t') [0..<n]"
proof (rule execute_tcmd.raw_induct [OF _ assms, where P = "\<lambda>k n r t t'. sound_forks k \<longrightarrow> n = length us \<longrightarrow>
    travel_inv k us t \<longrightarrow> travel_inv k us t' \<and> list_all (running t') [0..<n]"])
  fix tcmd k n r t t'
  assume IH: "\<And>k n r t t'. tcmd k n r t = Some t' \<Longrightarrow> sound_forks k \<longrightarrow> n = length us \<longrightarrow>
      travel_inv k us t \<longrightarrow> travel_inv k us t' \<and> list_all (running t') [0..<n]"
    and body: "(if list_all (running t) [0..<n] then Some t else tcmd k n (r + 1) (travel_round k r n t)) = Some t'"
  show "sound_forks k \<longrightarrow> n = length us \<longrightarrow> travel_inv k us t \<longrightarrow> travel_inv k us t' \<and> list_all (running t') [0..<n]"
  proof (cases "list_all (running t) [0..<n]")
    case True
    then show ?thesis using body by auto
  next
    case False
    then have "tcmd k n (r + 1) (travel_round k r n t) = Some t'" using body by simp
    then show ?thesis using IH travel_round_inv by blast
  qed
qed

section \<open>Progress\<close>

text \<open>The constraints of a script.\<close>

definition constraints :: "unit_constrains list \<Rightarrow> (nat \<times> nat) set" where
  "constraints us = {(row, col). row < length us \<and> col < length us \<and> depends us row col}"

lemma finite_constraints: "finite (constraints us)"
  by (rule finite_subset [of _ "{..<length us} \<times> {..<length us}"]) (auto simp: constraints_def)

lemma a_unit_is_ready:
  assumes "acyclic (constraints us)" "counts_ok us t" "i < length us" "\<not> running t i"
    and "\<And>c. running t c \<Longrightarrow> \<forall>row. \<not> constrain_graph t row c"
  obtains j where "j < length us" "ready t j"
proof -
  have "wf ((constraints us)\<inverse>)" using assms(1) finite_constraints by (rule finite_acyclic_wf_converse [rotated])
  moreover have "i \<in> {i. i < length us \<and> \<not> running t i}" using assms(3,4) by simp
  ultimately obtain j where jS: "j \<in> {i. i < length us \<and> \<not> running t i}"
    and min: "\<And>c. (c, j) \<in> (constraints us)\<inverse> \<Longrightarrow> c \<notin> {i. i < length us \<and> \<not> running t i}"
    by (rule wfE_min) blast
  have j: "j < length us" "\<not> running t j" using jS by simp_all
  have least: "\<not> (c < length us \<and> \<not> running t c)" if "(j, c) \<in> constraints us" for c
    using min [of c] that by simp
  have "\<not> constrain_graph t j c" for c
    using least [of c] assms(2,5) j(1) unfolding counts_ok_def constraints_def by blast
  then have "W t j = 0" using assms(2) j(1) by (simp add: counts_ok_def)
  then show thesis using that j by (simp add: ready_def)
qed

text \<open>While a unit is not running, a round waits for a child, so that the units that are done grow.\<close>

definition undone :: "nat \<Rightarrow> travel \<Rightarrow> nat set" where
  "undone n t = {i. i < n \<and> \<not> (running t i \<and> pid t i \<notin> set (children t))}"

lemma round_progress:
  assumes k: "sound_forks k" and inv: "travel_inv k us t" and acyc: "acyclic (constraints us)"
    and not_all: "\<not> list_all (running t) [0..<length us]"
  shows "undone (length us) (travel_round k r (length us) t) \<subset> undone (length us) t"
proof -
  let ?n = "length us" and ?u = "start_units k r (length us) t"
  have u: "travel_inv k us ?u" by (rule start_units_inv [OF k inv])
  have eq: "?u = t\<lparr>running := (\<lambda>i. running t i \<or> (i \<in> set [0..<?n] \<and> ready t i)),
     pid := (\<lambda>i. if i \<in> set [0..<?n] \<and> ready t i then fork_pid k r i else pid t i),
     children := children t @ map (fork_pid k r) (filter (ready t) [0..<?n]),
     events := events t @ map Start (filter (ready t) [0..<?n])\<rparr>"
    by (rule start_units_eq) (rule sound_fork [OF k])
  have pr: "processes_ok k ?n t" "counts_ok us t" using inv by (simp_all add: travel_inv_def)
  have sub: "undone ?n ?u \<subseteq> undone ?n t"
  proof
    fix i assume i: "i \<in> undone ?n ?u"
    show "i \<in> undone ?n t"
    proof (rule ccontr)
      assume "i \<notin> undone ?n t"
      then have done_t: "running t i" "pid t i \<notin> set (children t)" using i by (auto simp: undone_def)
      have "fork_pid k r j \<noteq> pid t i" if "ready t j" for j
      proof
        assume f: "fork_pid k r j = pid t i"
        obtain r' where "pid t i = fork_pid k r' i" using running_pid [OF pr(1) done_t(1)] by blast
        then have "fork_pid k r j = fork_pid k r' i" using f by simp
        then have "j = i" using k unfolding sound_forks_def by blast
        then show False using that done_t(1) by (simp add: ready_def)
      qed
      then have "running ?u i" "pid ?u i \<notin> set (children ?u)"
        using done_t by (auto simp: eq ready_def) metis
      then show False using i by (simp add: undone_def)
    qed
  qed
  have "children ?u \<noteq> []"
  proof
    assume none: "children ?u = []"
    then have no: "children t = []" "filter (ready t) [0..<?n] = []" by (simp_all add: eq)
    obtain i where "i < ?n" "\<not> running t i" using not_all by (auto simp: list_all_iff)
    moreover have "\<forall>row. \<not> constrain_graph t row c" if "running t c" for c
      using pr(1) that no(1) by (simp add: processes_ok_def)
    ultimately obtain j where "j < ?n" "ready t j" by (rule a_unit_is_ready [OF acyc pr(2)])
    then show False using no(2) by (simp add: filter_empty_conv)
  qed
  from wait_clear_inv [OF k u this, of r] obtain i where i: "running ?u i" "pid ?u i \<in> set (children ?u)" "i < ?n"
    and same: "running (travel_round k r ?n t) = running ?u" "pid (travel_round k r ?n t) = pid ?u"
      "set (children (travel_round k r ?n t)) = set (children ?u) - {pid ?u i}"
    unfolding travel_round_def by blast
  have "undone ?n (travel_round k r ?n t) \<subseteq> undone ?n ?u" using same by (auto simp: undone_def)
  moreover have "i \<in> undone ?n ?u" "i \<notin> undone ?n (travel_round k r ?n t)"
    using i same by (auto simp: undone_def)
  ultimately show ?thesis using sub by blast
qed

lemma execute_tcmd_ends:
  assumes "sound_forks k" "acyclic (constraints us)" "travel_inv k us t"
  shows "\<exists>t'. execute_tcmd k (length us) r t = Some t'"
  using assms(3)
proof (induction "card (undone (length us) t)" arbitrary: r t rule: less_induct)
  case less
  show ?case
  proof (cases "list_all (running t) [0..<length us]")
    case True
    then show ?thesis by (subst execute_tcmd.simps) simp
  next
    case False
    have "finite (undone (length us) t)" by (simp add: undone_def)
    then have "card (undone (length us) (travel_round k r (length us) t)) < card (undone (length us) t)"
      using round_progress [OF assms(1) less.prems assms(2) False] by (simp add: psubset_card_mono)
    then have "\<exists>t'. execute_tcmd k (length us) (r + 1) (travel_round k r (length us) t) = Some t'"
      using less.hyps travel_round_inv [OF assms(1) less.prems] by blast
    then show ?thesis using False by (subst execute_tcmd.simps) simp
  qed
qed

section \<open>Deadlock\<close>

text \<open>Units that all wait for one another never start.\<close>

lemma stuck_round:
  assumes k: "sound_forks k" and inv: "travel_inv k us t"
    and S: "\<And>i. i \<in> S \<Longrightarrow> \<exists>j \<in> S. (i, j) \<in> constraints us" and idle: "\<And>i. i \<in> S \<Longrightarrow> \<not> running t i"
  shows "i \<in> S \<Longrightarrow> \<not> running (travel_round k r (length us) t) i"
proof -
  let ?n = "length us" and ?u = "start_units k r (length us) t"
  assume i: "i \<in> S"
  then obtain j where j: "j \<in> S" "i < ?n" "j < ?n" "depends us i j" using S unfolding constraints_def by blast
  have "constrain_graph t i j"
    using inv j idle [OF j(1)] unfolding travel_inv_def counts_ok_def ended_def by blast
  then have "filter (constrain_graph t i) [0..<?n] \<noteq> []" using j(3) by (auto simp: filter_empty_conv)
  then have "W t i \<noteq> 0" using inv j(2) by (simp add: travel_inv_def counts_ok_def)
  moreover have "running ?u i = (running t i \<or> (i \<in> set [0..<?n] \<and> ready t i))"
    by (subst start_units_eq) (simp_all add: sound_fork [OF k])
  ultimately have no: "\<not> running ?u i" using idle [OF i] by (simp add: ready_def)
  show ?thesis
  proof (cases "children ?u = []")
    case True
    then show ?thesis using no by (simp add: travel_round_def wait_unit_def clear_edges_eq)
  next
    case False
    then show ?thesis
      using wait_clear_inv [OF k start_units_inv [OF k inv] False, of r] no unfolding travel_round_def by metis
  qed
qed

lemma execute_tcmd_stuck:
  assumes "execute_tcmd k n r t = Some t'"
    and S: "\<And>i. i \<in> S \<Longrightarrow> \<exists>j \<in> S. (i, j) \<in> constraints us"
  shows "sound_forks k \<longrightarrow> n = length us \<longrightarrow> travel_inv k us t \<longrightarrow> (\<forall>i \<in> S. \<not> running t i) \<longrightarrow> S = {}"
proof (rule execute_tcmd.raw_induct [OF _ assms(1), where P = "\<lambda>k n r t t'. sound_forks k \<longrightarrow> n = length us \<longrightarrow>
    travel_inv k us t \<longrightarrow> (\<forall>i \<in> S. \<not> running t i) \<longrightarrow> S = {}"])
  fix tcmd k n r t t'
  assume IH: "\<And>k n r t t'. tcmd k n r t = Some t' \<Longrightarrow> sound_forks k \<longrightarrow> n = length us \<longrightarrow>
      travel_inv k us t \<longrightarrow> (\<forall>i \<in> S. \<not> running t i) \<longrightarrow> S = {}"
    and body: "(if list_all (running t) [0..<n] then Some t else tcmd k n (r + 1) (travel_round k r n t)) = Some t'"
  show "sound_forks k \<longrightarrow> n = length us \<longrightarrow> travel_inv k us t \<longrightarrow> (\<forall>i \<in> S. \<not> running t i) \<longrightarrow> S = {}"
  proof (intro impI)
    assume k: "sound_forks k" and n: "n = length us" and inv: "travel_inv k us t" and idle: "\<forall>i \<in> S. \<not> running t i"
    show "S = {}"
    proof (cases "list_all (running t) [0..<n]")
      case True
      then show ?thesis using S idle n by (auto simp: list_all_iff constraints_def)
    next
      case False
      then have "tcmd k n (r + 1) (travel_round k r n t) = Some t'" using body by simp
      moreover have "\<forall>i \<in> S. \<not> running (travel_round k r n t) i"
        using stuck_round [OF k inv S] idle n by blast
      ultimately show ?thesis using IH travel_round_inv [OF k inv] k n by blast
    qed
  qed
qed

section \<open>What time travel guarantees\<close>

lemma check_loop_exhausted: "length is \<le> j \<Longrightarrow> \<not> check_loop os is i j"
proof (induction "length os - i" arbitrary: i)
  case 0
  then show ?case by (subst check_loop.simps) simp
next
  case (Suc d)
  have "\<not> check_loop os is (i + 1) j" by (rule Suc.hyps(1)) (use Suc in auto)
  then show ?case using Suc.prems by (subst check_loop.simps) simp
qed

lemma check_loop_row: "i < length os \<Longrightarrow> check_loop os is i j \<longleftrightarrow> os ! i \<in> set (drop j is)"
proof (induction "length is - j" arbitrary: j)
  case 0
  then show ?case using check_loop_exhausted [of "is" j] by simp
next
  case (Suc d)
  have "check_loop os is i (j + 1) \<longleftrightarrow> os ! i \<in> set (drop (j + 1) is)" by (rule Suc.hyps(1)) (use Suc in auto)
  moreover have "drop j is = is ! j # drop (j + 1) is" using Suc.hyps(2) by (simp add: Cons_nth_drop_Suc)
  ultimately show ?case using Suc.prems Suc.hyps(2) by (subst check_loop.simps) auto
qed

text \<open>Only the first file of the list is ever compared.\<close>

lemma check_constrain_iff: "check_constrain os is \<longleftrightarrow> os \<noteq> [] \<and> os ! 0 \<in> set is"
  using check_loop_row [of 0 os "is" 0] check_loop.simps [of "[]" "is" 0 0]
  by (cases os) (auto simp: check_constrain_def)

lemma all_constrains_length: "all_constrains cs = Some us \<Longrightarrow> length us = length cs"
  by (induction cs arbitrary: us) (auto split: option.splits if_splits)

lemma timetravel_inv:
  assumes "sound_forks k" "all_constrains cs = Some us" "execute_timetravel_cmd k cs = Inr (Some t)"
  shows "travel_inv k us t \<and> list_all (running t) [0..<length us]"
  using assms execute_tcmd_inv [of k "length us" 0 "initial_travel us" t us] initial_inv
  by (simp add: execute_timetravel_cmd_def)

text \<open>C11: Time travel keeps two commands apart whose conflict its test sees: \<open>us\<close> has for every command the
  output files, and the input files and words, of the simple commands in it. When a command's list of
  these contains the \<open>first\<close> output file of another command, then in every run that ends, whatever order
  the children end in, it is started only after the other command has ended, wherever the two stand in
  the script. Conflicts over further output files or over the redirections of a subshell are not
  seen (\<open>second_output_unseen\<close>, \<open>subshell_output_unseen\<close>).\<close>

theorem travel_waits:
  assumes "sound_forks k" and "all_constrains cs = Some us" and "execute_timetravel_cmd k cs = Inr (Some t)"
    and "m < length (events t)" and "events t ! m = Start row" and "col < length cs" and "col \<noteq> row"
    and "fst (us ! col) \<noteq> []" and "fst (us ! col) ! 0 \<in> set (snd (us ! row)) \<union> set (fst (us ! row))"
  shows "End (pid t col) \<in> set (take m (events t))"
proof -
  have "depends us row col" using assms(7-9) by (auto simp: depends_def check_constrain_iff)
  then show ?thesis
    using timetravel_inv [OF assms(1-3)] all_constrains_length [OF assms(2)] assms(4-6)
    unfolding travel_inv_def order_ok_def by metis
qed

lemma timetravel_returns:
  assumes "sound_forks k" "all_constrains cs = Some us"
  shows "(\<exists>t. execute_timetravel_cmd k cs = Inr (Some t)) \<longleftrightarrow> acyclic (constraints us)"
proof
  assume "\<exists>t. execute_timetravel_cmd k cs = Inr (Some t)"
  then obtain t where t: "execute_tcmd k (length us) 0 (initial_travel us) = Some t"
    using assms(2) by (auto simp: execute_timetravel_cmd_def)
  have "wf ((constraints us)\<inverse>)"
  proof (rule wfI_min)
    fix x :: nat and Q :: "nat set" assume x: "x \<in> Q"
    show "\<exists>z \<in> Q. \<forall>y. (y, z) \<in> (constraints us)\<inverse> \<longrightarrow> y \<notin> Q"
    proof (rule ccontr)
      assume "\<not> ?thesis"
      then have "\<exists>j \<in> Q. (i, j) \<in> constraints us" if "i \<in> Q" for i using that by auto
      then have "Q = {}"
        using execute_tcmd_stuck [OF t, of Q us] assms(1) initial_inv [of k us] by (simp add: initial_travel_def)
      then show False using x by simp
    qed
  qed
  then show "acyclic (constraints us)" using wf_acyclic acyclic_converse by blast
next
  assume "acyclic (constraints us)"
  then show "\<exists>t. execute_timetravel_cmd k cs = Inr (Some t)"
    using execute_tcmd_ends [OF assms(1) _ initial_inv, of us 0] assms(2) by (simp add: execute_timetravel_cmd_def)
qed

text \<open>C10: Time travel ends exactly when no commands wait for one another in a circle, and then it has started
  every command of the script exactly once. With a circle it recurses for ever.\<close>

theorem travel_returns:
  assumes "sound_forks k" and "all_constrains cs = Some us"
  shows "(acyclic (constraints us) \<longrightarrow> (\<exists>t. execute_timetravel_cmd k cs = Inr (Some t) \<and>
      distinct (starts (events t)) \<and> set (starts (events t)) = {..<length cs})) \<and>
    (\<not> acyclic (constraints us) \<longrightarrow> execute_timetravel_cmd k cs = Inr None)"
proof (intro conjI impI)
  assume "acyclic (constraints us)"
  then obtain t where t: "execute_timetravel_cmd k cs = Inr (Some t)" using timetravel_returns [OF assms] by blast
  moreover have "distinct (starts (events t)) \<and> set (starts (events t)) = {..<length cs}"
    using timetravel_inv [OF assms t] all_constrains_length [OF assms(2)]
    by (auto simp: travel_inv_def starts_ok_def processes_ok_def list_all_iff)
  ultimately show "\<exists>t. execute_timetravel_cmd k cs = Inr (Some t) \<and>
      distinct (starts (events t)) \<and> set (starts (events t)) = {..<length cs}" by blast
next
  assume "\<not> acyclic (constraints us)"
  then have "\<nexists>t. execute_timetravel_cmd k cs = Inr (Some t)" using timetravel_returns [OF assms] by blast
  then show "execute_timetravel_cmd k cs = Inr None"
    using assms(2) by (cases "execute_tcmd k (length us) 0 (initial_travel us)") (auto simp: execute_timetravel_cmd_def)
qed

text \<open>A kernel that numbers its processes from 1; the oldest child ends first.\<close>

definition steady :: schedule where
  "steady = \<lparr>fork_pid = \<lambda>_ i. int i + 1, ends_next = \<lambda>_. 0, child_status = \<lambda>_. 0\<rparr>"

lemma sound_steady: "sound_forks steady"
  by (simp add: sound_forks_def steady_def)

definition writes :: "string \<Rightarrow> string \<Rightarrow> command" where
  "writes w f = SIMPLE_COMMAND [w] None (Some f)"

definition reads :: "string \<Rightarrow> string \<Rightarrow> command" where
  "reads w f = SIMPLE_COMMAND [w] (Some f) None"

lemmas travel_eval = execute_timetravel_cmd_def initial_travel_def travel_round_def start_units_def start_unit_def
  wait_unit_def clear_edges_def clear_edge_def depends_def check_constrain_iff steady_def writes_def reads_def
  buffer_size_def execute_tcmd.simps upt_rec Let_def

lemma reader_first_constraints:
  "all_constrains [reads ''b'' ''x'', writes ''a'' ''x''] = Some [([], [''x'', ''b'']), ([''x''], [''a''])]"
  "constraints [([], [''x'', ''b'']), ([''x''], [''a''])] = {(0, 1)}"
  by (auto simp: reads_def writes_def buffer_size_def constraints_def depends_def check_constrain_iff less_Suc_eq
    numeral_2_eq_2)

lemma travel_returns_witness:
  "\<exists>t. execute_timetravel_cmd steady [reads ''b'' ''x'', writes ''a'' ''x''] = Inr (Some t) \<and>
     set (starts (events t)) = {..<2}"
proof -
  have "{(0 :: nat, 1)} \<subseteq> less_than" by simp
  then have "acyclic {(0 :: nat, 1)}" using wf_subset [OF wf_less_than] wf_acyclic by blast
  then show ?thesis
    using travel_returns [OF sound_steady reader_first_constraints(1)] unfolding reader_first_constraints(2) by auto
qed

text \<open>A command that reads a file waits for the later command that writes it.\<close>

lemma reader_waits_for_later_writer:
  "map_option events (projr (execute_timetravel_cmd steady [reads ''b'' ''x'', writes ''a'' ''x''])) =
     Some [Start 1, End 2, Start 0, End 1]"
  by (simp add: travel_eval)

lemma travel_waits_witness:
  "\<exists>t. execute_timetravel_cmd steady [reads ''b'' ''x'', writes ''a'' ''x''] = Inr (Some t) \<and>
     events t = [Start 1, End 2, Start 0, End 1] \<and> End (pid t 1) \<in> set (take 2 (events t))"
proof -
  obtain t where t: "execute_timetravel_cmd steady [reads ''b'' ''x'', writes ''a'' ''x''] = Inr (Some t)"
    "events t = [Start 1, End 2, Start 0, End 1]"
    using reader_waits_for_later_writer reader_first_constraints(1)
    by (auto simp: execute_timetravel_cmd_def)
  have "End (pid t 1) \<in> set (take 2 (events t))"
    by (rule travel_waits [OF sound_steady reader_first_constraints(1) t(1), where row = 0]) (simp_all add: t(2))
  with t show ?thesis by blast
qed

text \<open>Two commands with the same output file wait for each other for ever.\<close>

lemma writers_deadlock:
  "execute_timetravel_cmd steady [writes ''a'' ''x'', writes ''b'' ''x''] = Inr None"
proof -
  have us: "all_constrains [writes ''a'' ''x'', writes ''b'' ''x''] = Some [([''x''], [''a'']), ([''x''], [''b''])]"
    by (simp add: writes_def buffer_size_def)
  let ?r = "constraints [([''x''], [''a'']), ([''x''], [''b''])]"
  have "(0, 1) \<in> ?r" "(1, 0) \<in> ?r" by (simp_all add: constraints_def depends_def check_constrain_iff)
  then have "(0, 0) \<in> ?r\<^sup>+" by (meson trancl.intros)
  then have "\<not> acyclic ?r" by (auto simp: acyclic_def)
  moreover have "(\<exists>t. execute_timetravel_cmd steady [writes ''a'' ''x'', writes ''b'' ''x''] = Inr (Some t)) = acyclic ?r"
    by (rule timetravel_returns [OF sound_steady us])
  ultimately show ?thesis
    using us by (cases "execute_tcmd steady 2 0 (initial_travel [([''x''], [''a'']), ([''x''], [''b''])])")
      (auto simp: execute_timetravel_cmd_def numeral_2_eq_2)
qed

text \<open>The second output file of a command and the redirection of a subshell are not seen: the reader is started
  at once.\<close>

lemma second_output_unseen:
  "map_option (take 2 \<circ> events) (projr (execute_timetravel_cmd steady
     [SEQUENCE_COMMAND (writes ''a'' ''x'') (writes ''b'' ''y''), reads ''c'' ''y''])) = Some [Start 0, Start 1]"
  by (simp add: travel_eval)

lemma subshell_output_unseen:
  "map_option (take 2 \<circ> events) (projr (execute_timetravel_cmd steady
     [SUBSHELL_COMMAND (simple ''a'') None (Some ''x''), reads ''b'' ''x''])) = Some [Start 0, Start 1]"
  by (simp add: travel_eval)

text \<open>The mode ends as soon as every command has been started: the last ones are not waited for, and their
  statuses are lost.\<close>

lemma last_ones_not_waited_for:
  "map_option children (projr (execute_timetravel_cmd steady [simple ''a'', simple ''b''])) = Some [2]"
  by (simp add: travel_eval)

end
