(* ===== verification/Shell_Main.thy ===== *)
theory Shell_Main
  imports Shell_Read Shell_Travel
begin

text \<open>
  The main program of the shell (\<open>Lab1/main.c\<close>): the options select printing (\<open>-p\<close>), time travel (\<open>-t\<close>)
  or execution. Without \<open>-t\<close> each command is run or printed before the next one is read; with it the
  script is read to its end first, and \<open>-p\<close> has no effect. The theorems put the reader and the
  execution together.
\<close>

section \<open>The loops\<close>

lemma read_command_stream_shorter:
  assumes "read_command_stream first ts = Read c rest"
  shows "length rest < length ts"
proof -
  have "rest = tl (dropWhile not_end ts)" "ts \<noteq> []"
    using assms by (auto simp: read_command_stream_def split: if_splits option.splits)
  moreover have "length (dropWhile not_end ts) \<le> length ts" by (rule length_dropWhile_le)
  ultimately show ?thesis by (cases "dropWhile not_end ts") auto
qed

function run_stream :: "kernel \<Rightarrow> bool \<Rightarrow> nat \<Rightarrow> int \<Rightarrow> token list \<Rightarrow> run" where
  "run_stream k first n st ts =
     (case read_command_stream first ts of
        End_of_stream \<Rightarrow> (Exits st, [])
      | Runs_off \<Rightarrow> (Undefined, [])
      | Read c rest \<Rightarrow>
          (case execute_command k [n] Initial Initial c of
             (Status s, ps) \<Rightarrow> then_run ps (run_stream k False (n + 1) s rest)
           | r \<Rightarrow> r))"
  by pat_completeness auto
termination
  by (relation "measure (\<lambda>(k, first, n, st, ts). length ts)") (auto dest: read_command_stream_shorter)

text \<open>What is printed; \<open>None\<close> when printing a command or reading the next one has no defined meaning.\<close>

function print_stream :: "(nat \<Rightarrow> string) \<Rightarrow> bool \<Rightarrow> nat \<Rightarrow> token list \<Rightarrow> string option" where
  "print_stream decimal first n ts =
     (case read_command_stream first ts of
        End_of_stream \<Rightarrow> Some []
      | Runs_off \<Rightarrow> None
      | Read c rest \<Rightarrow>
          (case (print_command c, print_stream decimal False (n + 1) rest) of
             (Some s, Some t) \<Rightarrow> Some (''# '' @ decimal n @ newline @ s @ t)
           | _ \<Rightarrow> None))"
  by pat_completeness auto
termination
  by (relation "measure (\<lambda>(decimal, first, n, ts). length ts)") (auto dest: read_command_stream_shorter)

declare run_stream.simps [simp del] print_stream.simps [simp del]

text \<open>The ends of the program: an error message with exit status 1, an access without meaning, an endless
  recursion, or a run with what it printed or started.\<close>

datatype result = Error_exit | No_meaning | Never_ends | Ran run | Printed string | Travelled travel

definition main_shell :: "bool \<Rightarrow> bool \<Rightarrow> kernel \<Rightarrow> schedule \<Rightarrow> (nat \<Rightarrow> string) \<Rightarrow> string \<Rightarrow> result" where
  "main_shell print_tree time_travel k sched decimal bytes =
     (case make_command_stream bytes of
        None \<Rightarrow> Error_exit
      | Some ts \<Rightarrow>
          if \<not> time_travel
          then (if print_tree
                then (case print_stream decimal True 1 ts of None \<Rightarrow> No_meaning | Some s \<Rightarrow> Printed s)
                else Ran (run_stream k True 0 0 ts))
          else (case read_commands True ts of
                  None \<Rightarrow> No_meaning
                | Some cs \<Rightarrow>
                    (case execute_timetravel_cmd sched cs of
                       Inl _ \<Rightarrow> No_meaning
                     | Inr None \<Rightarrow> Never_ends
                     | Inr (Some t) \<Rightarrow> Travelled t)))"

section \<open>Running what was written\<close>







text \<open>With \<open>-t\<close> a script in which two lines write the same file never ends.\<close>

lemma timetravel_hangs: "main_shell p True k steady decimal (''a > x '' @ newline @ ''b > x '' @ newline) = Never_ends"
proof -
  have "read_script (''a > x '' @ newline @ ''b > x '' @ newline) = Commands [writes ''a'' ''x'', writes ''b'' ''x'']"
    by code_simp
  then obtain ts where "make_command_stream (''a > x '' @ newline @ ''b > x '' @ newline) = Some ts"
    "read_commands True ts = Some [writes ''a'' ''x'', writes ''b'' ''x'']"
    by (auto simp: read_script_def split: option.splits)
  then show ?thesis by (simp add: main_shell_def writers_deadlock)
qed

end
