(* ===== verification/Spec2Isabelle.thy ===== *)
theory Spec2Isabelle
  imports Ospfs_Dir Osprd Mpos_Kern Sched_Kern Osppeer_Transfer Shell_Main
begin

text \<open>
  A verification of the C programs of the CS 111 laboratories (\<^verbatim>\<open>src/\<close>). They are six programs that share
  no process and little code: a shell (\<^verbatim>\<open>Lab1\<close>), a Linux driver for a ram disk with a read/write lock
  (\<^verbatim>\<open>Lab2\<close>), a file system (\<^verbatim>\<open>Lab3\<close>), a peer-to-peer client (\<^verbatim>\<open>Lab4\<close>) and two small
  kernels for the x86 (\<^verbatim>\<open>WeensyOS1\<close>, \<^verbatim>\<open>WeensyOS2\<close>).
\<close>

section \<open>Conventions\<close>

text \<open>
  All programs are 32-bit C. Integers keep their width (\<open>u8\<close>, \<open>u16\<close>, \<open>u32\<close> of \<^verbatim>\<open>Prelude\<close>) wherever the
  code can make them wrap or test their bits; counters that a short argument bounds are \<open>nat\<close>. Memory
  and disks are functions from offsets to bytes; \<open>load32\<close> and \<open>store32\<close> read and write four bytes in the
  little-endian order of the target, so that pointers of different types into the same bytes alias in
  the model as they do in the program. Errors are values: an \<open>errno\<close> in a sum, or \<open>None\<close>.

  \<^item> \<open>None\<close> of a \<open>partial_function (option)\<close> is a loop that does not end. The theorems about such a loop
    either show \<open>Some\<close> (\<open>grow_loop\<close>, \<open>readdir_loop\<close>, \<open>share_loop\<close>, \<open>readsects\<close>, \<open>execute_tcmd\<close>) or say
    when it hangs (\<open>timetravel_hangs\<close>, \<open>travel_returns\<close>).
  \<^item> No function has a fuel argument, except where the source has one: \<open>max_checking\<close> of the shell's cycle
    check. The scan for a runnable process (\<^verbatim>\<open>Round_Robin\<close>) is unbounded in the source and is decided
    after \<open>NPROCS\<close> candidates, since the candidates then repeat.
  \<^item> What the code asks of its surroundings is an argument: the results of system calls and of the network
    as lists, in the order of the calls; the kernel's \<open>copy_to_user\<close> and \<open>copy_from_user\<close> as functions
    that say how many bytes were not copied; the order in which children end as a \<open>schedule\<close>; the random
    numbers of the lottery as a list.
\<close>

section \<open>The file system, Lab3\<close>

text \<open>
  \<^item> \<^verbatim>\<open>Ospfs_Disk\<close>: \<^verbatim>\<open>ospfs.h\<close> and the helpers of \<^verbatim>\<open>ospfsmod.c\<close>. The disk is a byte memory; \<open>super\<close>,
    \<open>inode_at\<close>, \<open>symlink_at\<close> and \<open>direntry_at\<close> read the C structs off it, the \<open>set_oi_\<close> functions are the
    assignments to their fields. Lemmas: an assignment is the record update of that field and leaves every
    other object alone; a bit that was set or cleared is the only one that changed.
  \<^item> \<^verbatim>\<open>Ospfs_Alloc\<close>: \<open>allocate_block\<close>, \<open>free_block\<close> against the set \<open>free_set\<close> of free blocks, through the
    locale \<open>block_allocator\<close>: what is allocated was free, is no longer, and comes back when it is freed.
  \<^item> \<^verbatim>\<open>Ospfs_Blocks\<close>: the block structure of a file (\<open>add_block\<close>, \<open>remove_block\<close>, \<open>change_size\<close>). On files of
    direct blocks \<open>change_size\<close> refines setting the size, and on failure it restores the disk; in the
    indirect range the code is wrong in several ways, each a lemma.
  \<^item> \<^verbatim>\<open>Ospfs_File\<close>: \<open>ospfs_read\<close>, \<open>ospfs_write\<close>, \<open>ospfs_notify_change\<close> against the bytes of the file, for
    writes at a position and at the end (\<open>o_append\<close>), on files of direct blocks.
  \<^item> \<^verbatim>\<open>Ospfs_Dir\<close>: lookup, readdir, link, unlink, create, symlinks and the inode operations, against the list
    of the directory's entries. Removing the last link gives the blocks of a file of direct blocks back.
\<close>

section \<open>The ram disk, Lab2\<close>

text \<open>
  \<^verbatim>\<open>Osprd\<close>: \<^verbatim>\<open>spinlock.h\<close> and \<^verbatim>\<open>osprd.c\<close>. The record \<open>osprd_info\<close> is the device with its read/write lock,
  whose waiters are served by ticket; each stretch of code under the spin lock is one function, and
  \<open>lock_step\<close> interleaves these sections for any number of processes: the sections of the lock requests, and
  the close of any file, locked or not. The ticket invariant \<open>tickets_ok\<close> holds in every reachable state. A
  close of a writable file that holds no lock resets the write locks of the device
  (\<open>osprd_close_drops_foreign_lock\<close>), so exclusion (\<open>locks_ok\<close>) holds in the runs without such a close while
  another file is write-locked (\<open>sparing_run\<close>), and \<open>close_breaks_exclusion\<close> shows a run that loses it.
  Requests (\<open>osprd_process_request\<close>) are reads and writes of sectors. The lemmas on deadlock detection show
  when the lock is never granted again.
\<close>

section \<open>The kernels, WeensyOS1 and WeensyOS2\<close>

text \<open>
  \<^item> \<^verbatim>\<open>Weensy_Lib\<close>: \<^verbatim>\<open>lib.c\<close> (memory, strings, formatted console output); \<^verbatim>\<open>Weensy_X86\<close>: descriptor tables,
    register set-up, console, keyboard and interrupt controller of \<^verbatim>\<open>mpos-x86.c\<close>, \<^verbatim>\<open>schedos-x86.c\<close> and
    \<^verbatim>\<open>x86.h\<close>; \<^verbatim>\<open>Weensy_Loader\<close>: the boot sectors and the ELF loaders.
  \<^item> \<^verbatim>\<open>Round_Robin\<close>: the cyclic scan of both schedulers and its contract, the locale \<open>round_robin\<close>.
  \<^item> \<^verbatim>\<open>Mpos_Kern\<close>: \<^verbatim>\<open>mpos-kern.c\<close>. The state \<open>mpos\<close> holds the process table, memory and the current process;
    \<open>interrupt\<close> dispatches to one function per system call. Invariant: the table is well formed and the
    process that runs is runnable; fork, exit and wait have their Unix meaning, whatever
    other processes do between a wait and the exit it is for; scheduling is fair.
  \<^item> \<^verbatim>\<open>Sched_Kern\<close>: \<^verbatim>\<open>schedos-kern.c\<close>, its five scheduling algorithms and system calls.
\<close>

section \<open>The peer-to-peer client, Lab4\<close>

text \<open>
  \<^item> \<^verbatim>\<open>Md5\<close>: \<^verbatim>\<open>Lab4/md5.c\<close> and \<^verbatim>\<open>Lab3/md5.c\<close>; each, fed in pieces, is the padded block-by-block digest, so
    the two agree.
  \<^item> \<^verbatim>\<open>Writescan\<close>: \<open>osp2p_writef\<close> and \<open>osp2p_snscanf\<close> of \<^verbatim>\<open>writescan.c\<close>, where the second
    reads back what the first wrote for the formats and arguments of \<open>readable\<close>; lemmas show what lies outside
    (\<open>negative_not_read_back\<close>, \<open>int_max_not_read_back\<close>).
  \<^item> \<^verbatim>\<open>Osppeer\<close>: tasks and their buffer, a bounded pipe (locale \<open>byte_pipe\<close>), and the tracker protocol of
    \<^verbatim>\<open>osppeer.c\<close>. \<^verbatim>\<open>Osppeer_Transfer\<close>: finding peers, \<open>task_download\<close> and \<open>task_upload\<close>, which call the
    scanner of \<^verbatim>\<open>Writescan\<close> and the digest of \<^verbatim>\<open>Md5\<close>. A download is accepted only with the tracker's checksum
    (\<open>download_verified\<close>), and a whole file from one peer, however \<open>read\<close> cuts it, is accepted when it has it.
\<close>

section \<open>The shell, Lab1\<close>

text \<open>
  \<^item> \<^verbatim>\<open>Shell_Read\<close>: \<^verbatim>\<open>read-command.c\<close>, from bytes over tokens to command trees; a script that was written out
    is read back as the trees of operator precedence where its lines are \<open>line_ok\<close>; other lemmas show what
    is misread.
  \<^item> \<^verbatim>\<open>Shell_Exec\<close>: \<^verbatim>\<open>execute-command.c\<close> and \<^verbatim>\<open>print-command.c\<close>; execution refines \<open>posix\<close>,
    the semantics of the shell language (a command whose redirection cannot be opened is not started), where
    the redirections can be opened and no status of a subshell or a pipeline is tested; \<open>statuses_lost\<close> and
    \<open>failed_open_starts\<close> show the difference elsewhere.
  \<^item> \<^verbatim>\<open>Shell_Travel\<close>: the parallel mode; commands that conflict in their first recorded output file do
    not overlap (\<open>second_output_unseen\<close>, \<open>subshell_output_unseen\<close>: others can), and the run ends exactly when
    the constraints have no cycle.
  \<^item> \<^verbatim>\<open>Shell_Main\<close>: \<^verbatim>\<open>main.c\<close>, which composes the three.
\<close>

section \<open>Assumptions and what is not modelled\<close>

text \<open>
  Stated at the definitions that need them: memory from \<open>malloc\<close> and on the stack that the code reads
  before writing is zero, and a freed block is handed out again (\<^verbatim>\<open>Shell_Read\<close>, \<^verbatim>\<open>Shell_Travel\<close>); the growth of
  buffers never fails (\<^verbatim>\<open>Shell_Read\<close>, \<^verbatim>\<open>Writescan\<close>); disks are smaller than the address space.

  Not modelled: the tools around the file system (\<^verbatim>\<open>ospfsformat.c\<close>, \<^verbatim>\<open>fsimgtoc.c\<close>, \<^verbatim>\<open>truncate.c\<close>), which run on
  the host before the module, and \<^verbatim>\<open>mkbootdisk.c\<close>, which pads the kernel's image; the registration of the OSPFS module and of the ram disk with Linux, which only calls the
  kernel; system-call wrappers of the client (\<open>open_socket\<close>, \<open>start_tracker\<close>), option parsing by \<open>getopt\<close> and
  the attacks of the client's evil mode; the WeensyOS applications, which are demonstrations over inline
  assembly; the assembly stubs, linker scripts, build files, test scripts and answers.
\<close>

end
